(* ===== verification/Prelude.thy ===== *)
theory Prelude
  imports Main "HOL-Library.Word"
begin

text \<open>
  Vocabulary shared by every component of the model.

  A Go \<^verbatim>\<open>byte\<close> is a \<open>char\<close> (HOL's eight-bit characters); \<^verbatim>\<open>string\<close> and
  \<^verbatim>\<open>[]byte\<close> are lists of them, and \<^verbatim>\<open>[][]byte\<close> (\<^verbatim>\<open>CmdLine\<close>) is a list of lists.
  An \<^verbatim>\<open>int64\<close> is a \<open>64 word\<close> read with \<open>sint\<close>.

  A computation that can panic has type \<open>'a go\<close>: \<open>Inl\<close> of the runtime panic or
  \<open>Inr\<close> of the result.  Indexing and slicing, the source's usual causes of a panic,
  are the checked operations \<open>go_index\<close> and \<open>go_slice\<close>.  An ordinary Go error value is
  \<open>go_error\<close>, and travels in an \<open>option\<close> beside the result as it does in the source.
\<close>

type_synonym byte = char
type_synonym bytes = "byte list"
type_synonym CmdLine = "bytes list"
type_synonym int64 = "64 word"

abbreviation CR :: byte where "CR \<equiv> CHR 0x0D"
abbreviation LF :: byte where "LF \<equiv> CHR 0x0A"
abbreviation BACKSLASH :: byte where "BACKSLASH \<equiv> CHR 0x5C"
abbreviation QUOTE :: byte where "QUOTE \<equiv> CHR 0x27"

section \<open>Panics\<close>

datatype panic =
    IndexOutOfRange
  | SliceOutOfRange
  | MakeSliceLen
  | NilDereference
  | TypeAssertion
  | ClosedChannel
  | NegativeCounter

type_synonym 'a go = "panic + 'a"

definition go_bind :: "'a go \<Rightarrow> ('a \<Rightarrow> 'b go) \<Rightarrow> 'b go" where
  "go_bind x f = (case x of Inl p \<Rightarrow> Inl p | Inr a \<Rightarrow> f a)"

definition go_index :: "'a list \<Rightarrow> int \<Rightarrow> 'a go" where
  "go_index xs i =
     (if 0 \<le> i \<and> i < int (length xs) then Inr (xs ! nat i) else Inl IndexOutOfRange)"

definition go_slice :: "'a list \<Rightarrow> int \<Rightarrow> int \<Rightarrow> 'a list go" where
  "go_slice xs i j =
     (if 0 \<le> i \<and> i \<le> j \<and> j \<le> int (length xs)
      then Inr (take (nat (j - i)) (drop (nat i) xs)) else Inl SliceOutOfRange)"

text \<open>
  \<^verbatim>\<open>make([]byte, n)\<close> panics when \<open>n\<close> is negative or larger than the address space the
  runtime can serve (\<^verbatim>\<open>maxAlloc\<close>, \<open>2 ^ 48\<close> bytes on 64-bit platforms).  Running out of
  memory below that limit is not modelled.
\<close>

definition maxAlloc :: int where
  "maxAlloc = 2 ^ 48"

definition make_bytes :: "int \<Rightarrow> nat go" where
  "make_bytes n = (if 0 \<le> n \<and> n \<le> maxAlloc then Inr (nat n) else Inl MakeSliceLen)"

text \<open>\<^verbatim>\<open>make\<close> of a slice with \<open>n\<close> elements of \<open>width\<close> bytes.\<close>

definition make_slice :: "int \<Rightarrow> int \<Rightarrow> nat go" where
  "make_slice width n = (if 0 \<le> n \<and> width * n \<le> maxAlloc then Inr (nat n) else Inl MakeSliceLen)"

section \<open>Error values\<close>

datatype go_error =
    EOF
  | ErrUnexpectedEOF
  | NetError string
  | ErrorString string

fun Error_string :: "go_error \<Rightarrow> string" where
  "Error_string EOF = ''EOF''"
| "Error_string ErrUnexpectedEOF = ''unexpected EOF''"
| "Error_string (NetError s) = s"
| "Error_string (ErrorString s) = s"

section \<open>Automation\<close>

named_theorems go_simps \<open>evaluation of panicking computations\<close>

lemma go_bind_Inl [simp, go_simps]: "go_bind (Inl p) f = Inl p"
  by (simp add: go_bind_def)

lemma go_bind_Inr [simp, go_simps]: "go_bind (Inr a) f = f a"
  by (simp add: go_bind_def)

lemma go_bind_eq_Inr: "go_bind x f = Inr b \<longleftrightarrow> (\<exists>a. x = Inr a \<and> f a = Inr b)"
  by (cases x) auto

lemma go_bind_eq_Inl:
  "go_bind x f = Inl p \<longleftrightarrow> x = Inl p \<or> (\<exists>a. x = Inr a \<and> f a = Inl p)"
  by (cases x) auto

lemma go_index_ok [go_simps]:
  "0 \<le> i \<Longrightarrow> i < int (length xs) \<Longrightarrow> go_index xs i = Inr (xs ! nat i)"
  by (simp add: go_index_def)

lemma go_index_Cons_0 [simp, go_simps]: "go_index (x # xs) 0 = Inr x"
  by (simp add: go_index_def)

lemma go_index_Cons_1 [simp, go_simps]: "go_index (x # y # xs) 1 = Inr y"
  by (simp add: go_index_def)

lemma go_index_Nil [simp, go_simps]: "go_index [] i = Inl IndexOutOfRange"
  by (simp add: go_index_def)

lemma go_index_append2:
  "go_index (xs @ [a, b]) (int (length (xs @ [a, b])) - 2) = Inr a"
  "go_index (xs @ [a, b]) (int (length (xs @ [a, b])) - 1) = Inr b"
  by (simp_all add: go_index_def nat_add_distrib nth_append)

text \<open>The slice \<^verbatim>\<open>x[1:len(x)-2]\<close> of a line with its two-byte terminator.\<close>

lemma go_slice_line [simp]:
  "go_slice (xs @ [a, b]) 0 (int (length (xs @ [a, b])) - 2) = Inr xs"
  by (simp add: go_slice_def)

lemma go_slice_tail_line [simp]:
  "go_slice (x # xs @ [a, b]) 1 (int (length (x # xs @ [a, b])) - 2) = Inr xs"
  by (simp add: go_slice_def)

lemma make_bytes_ok: "0 \<le> n \<Longrightarrow> n \<le> maxAlloc \<Longrightarrow> make_bytes n = Inr (nat n)"
  by (simp add: make_bytes_def)

lemma split_last2: "2 \<le> length xs \<Longrightarrow> \<exists>ys a b. xs = ys @ [a, b]"
proof -
  assume "2 \<le> length xs"
  then obtain ys b where ys: "xs = ys @ [b]" by (cases xs rule: rev_cases) auto
  with \<open>2 \<le> length xs\<close> obtain zs a where "ys = zs @ [a]" by (cases ys rule: rev_cases) auto
  with ys show ?thesis by auto
qed

lemma sint_word_of_int_64:
  "- (2 ^ 63) \<le> i \<Longrightarrow> i < 2 ^ 63 \<Longrightarrow> sint (word_of_int i :: int64) = i"
  by (simp add: sint_sbintrunc' signed_take_bit_int_eq_self)

text \<open>A counting loop \<^verbatim>\<open>for k := a; k < b; k++\<close> is a fold over \<open>[a..<b]\<close>.\<close>

lemma fold_upt_invariant:
  assumes "a \<le> b" and "I a x"
    and "\<And>k y. a \<le> k \<Longrightarrow> k < b \<Longrightarrow> I k y \<Longrightarrow> I (Suc k) (f k y)"
  shows "I b (fold f [a..<b] x)"
  using assms
proof (induction b)
  case 0
  then show ?case by simp
next
  case (Suc b)
  show ?case
  proof (cases "a = Suc b")
    case True
    with Suc.prems show ?thesis by simp
  next
    case False
    with Suc.prems have ab: "a \<le> b" by simp
    have "I b (fold f [a..<b] x)" using ab Suc.prems by (intro Suc.IH) auto
    with ab Suc.prems(3) show ?thesis by simp
  qed
qed

end
