(* ===== verification/GoLib.thy ===== *)
theory GoLib
  imports Prelude
begin

text \<open>
  The parts of Go's standard library the program computes with: \<^verbatim>\<open>strconv\<close> in base ten,
  UTF-8 iteration as the \<^verbatim>\<open>range\<close> clause does it, \<^verbatim>\<open>strings.ToLower\<close>,
  \<^verbatim>\<open>strings.TrimSuffix\<close>, \<^verbatim>\<open>bufio.Reader\<close> and \<^verbatim>\<open>io.ReadFull\<close> on a finite input,
  and \<^verbatim>\<open>sort.Search\<close>.  Only the Unicode case table is left open: it is the argument
  \<open>u\<close> of \<open>ToLower\<close>, the function \<^verbatim>\<open>unicode.ToLower\<close> on code points, and nothing is
  assumed of it.
\<close>

section \<open>strconv\<close>

definition digit_char :: "nat \<Rightarrow> byte" where
  "digit_char d = char_of (48 + d)"

definition is_digit :: "byte \<Rightarrow> bool" where
  "is_digit c \<longleftrightarrow> 48 \<le> (of_char c :: nat) \<and> (of_char c :: nat) \<le> 57"

definition digit_value :: "byte \<Rightarrow> nat" where
  "digit_value c = of_char c - 48"

fun format_nat :: "nat \<Rightarrow> bytes" where
  "format_nat n =
     (if n < 10 then [digit_char n] else format_nat (n div 10) @ [digit_char (n mod 10)])"

declare format_nat.simps [simp del]

definition FormatInt :: "int \<Rightarrow> bytes" where
  "FormatInt i = (if i < 0 then CHR ''-'' # format_nat (nat (- i)) else format_nat (nat i))"

definition Itoa :: "int \<Rightarrow> bytes" where
  "Itoa i = FormatInt i"

datatype NumErr = ErrSyntax | ErrRange

text \<open>
  \<^verbatim>\<open>strconv.ParseUint(s, 10, b)\<close>: the digits are read from the left; a value above the
  maximum is reported before any later byte is looked at.
\<close>

fun ParseUint_loop :: "nat \<Rightarrow> nat \<Rightarrow> bytes \<Rightarrow> nat \<times> NumErr option" where
  "ParseUint_loop maxVal n [] = (n, None)"
| "ParseUint_loop maxVal n (c # cs) =
     (if \<not> is_digit c then (0, Some ErrSyntax)
      else let n1 = 10 * n + digit_value c
           in if maxVal < n1 then (maxVal, Some ErrRange) else ParseUint_loop maxVal n1 cs)"

definition ParseUint :: "bytes \<Rightarrow> nat \<Rightarrow> nat \<times> NumErr option" where
  "ParseUint s b = (if s = [] then (0, Some ErrSyntax) else ParseUint_loop (2 ^ b - 1) 0 s)"

text \<open>\<^verbatim>\<open>strconv.ParseInt(s, 10, 64)\<close>, with the value it returns beside an error.\<close>

definition ParseInt_abs :: "bool \<Rightarrow> bytes \<Rightarrow> int \<times> NumErr option" where
  "ParseInt_abs neg s =
     (case ParseUint s 64 of
        (un, Some ErrSyntax) \<Rightarrow> (0, Some ErrSyntax)
      | (un, _) \<Rightarrow>
          if \<not> neg \<and> 2 ^ 63 \<le> un then (2 ^ 63 - 1, Some ErrRange)
          else if neg \<and> 2 ^ 63 < un then (- (2 ^ 63), Some ErrRange)
          else (if neg then - int un else int un, None))"

definition ParseInt :: "bytes \<Rightarrow> int \<times> NumErr option" where
  "ParseInt s =
     (case s of
        [] \<Rightarrow> (0, Some ErrSyntax)
      | c # cs \<Rightarrow>
          if c = CHR ''+'' then ParseInt_abs False cs
          else if c = CHR ''-'' then ParseInt_abs True cs
          else ParseInt_abs False s)"

definition Atoi :: "bytes \<Rightarrow> int \<times> NumErr option" where
  "Atoi s = ParseInt s"

subsection \<open>Facts about decimal text\<close>

lemma of_char_digit_char [simp]: "d < 10 \<Longrightarrow> of_char (digit_char d) = 48 + d"
  by (simp add: digit_char_def of_char_of)

lemma is_digit_digit_char [simp]: "d < 10 \<Longrightarrow> is_digit (digit_char d)"
  by (simp add: is_digit_def)

lemma digit_value_digit_char [simp]: "d < 10 \<Longrightarrow> digit_value (digit_char d) = d"
  by (simp add: digit_value_def)

lemma format_nat_digits: "\<forall>c \<in> set (format_nat n). is_digit c"
proof (induction n rule: format_nat.induct)
  case (1 n)
  then show ?case by (subst format_nat.simps) auto
qed

lemma format_nat_not_Nil [simp]: "format_nat n \<noteq> []"
  by (subst format_nat.simps) simp

lemma hd_format_nat: "is_digit (hd (format_nat n))"
  using format_nat_digits [of n] by (metis format_nat_not_Nil hd_in_set)

lemma length_format_nat: "n < 10 ^ Suc k \<Longrightarrow> length (format_nat n) \<le> Suc k"
proof (induction k arbitrary: n)
  case 0
  then show ?case by (subst format_nat.simps) simp
next
  case (Suc k)
  show ?case
  proof (cases "n < 10")
    case True
    then show ?thesis by (subst format_nat.simps) simp
  next
    case False
    have "n div 10 < 10 ^ Suc k" using Suc.prems by (simp add: less_mult_imp_div_less)
    from Suc.IH [OF this] False show ?thesis by (subst format_nat.simps) simp
  qed
qed

lemma is_digit_simps [simp]:
  "\<not> is_digit CR" "\<not> is_digit LF" "\<not> is_digit (CHR ''-'')" "\<not> is_digit (CHR ''+'')"
  "\<not> is_digit (CHR ''$'')" "\<not> is_digit (CHR ''*'')"
  by (simp_all add: is_digit_def)

lemma format_nat_no_LF [simp]: "LF \<notin> set (format_nat n)"
  using format_nat_digits [of n] is_digit_simps by blast

lemma Itoa_no_LF [simp]: "LF \<notin> set (Itoa i)"
  by (simp add: Itoa_def FormatInt_def)

lemma Itoa_not_Nil [simp]: "Itoa i \<noteq> []"
  by (simp add: Itoa_def FormatInt_def)

lemma ParseUint_loop_append:
  "ParseUint_loop M n s = (v, None) \<Longrightarrow> ParseUint_loop M n (s @ t) = ParseUint_loop M v t"
  by (induction s arbitrary: n) (auto simp: Let_def split: if_splits)

lemma ParseUint_loop_format_nat:
  "n \<le> M \<Longrightarrow> ParseUint_loop M 0 (format_nat n) = (n, None)"
proof (induction n rule: format_nat.induct)
  case (1 n)
  show ?case
  proof (cases "n < 10")
    case True
    with "1.prems" show ?thesis by (subst format_nat.simps) simp
  next
    case False
    then have "ParseUint_loop M 0 (format_nat (n div 10)) = (n div 10, None)"
      using "1.IH" "1.prems" by (meson div_le_dividend le_trans)
    moreover have "10 * (n div 10) + n mod 10 = n" by simp
    ultimately show ?thesis using False "1.prems"
      by (subst format_nat.simps) (simp add: ParseUint_loop_append)
  qed
qed

lemma ParseUint_format_nat: "n < 2 ^ b \<Longrightarrow> ParseUint (format_nat n) b = (n, None)"
  by (simp add: ParseUint_def ParseUint_loop_format_nat)

lemma format_nat_hd: "\<exists>c cs. format_nat n = c # cs \<and> is_digit c"
  using format_nat_digits [of n] by (cases "format_nat n") auto

lemma ParseInt_FormatInt:
  assumes "- (2 ^ 63) \<le> i" and "i < 2 ^ 63"
  shows "ParseInt (FormatInt i) = (i, None)"
proof (cases "i < 0")
  case True
  then have "ParseUint (format_nat (nat (- i))) 64 = (nat (- i), None)"
    using assms by (intro ParseUint_format_nat) simp
  with True assms show ?thesis
    by (simp add: FormatInt_def ParseInt_def ParseInt_abs_def)
next
  case False
  then have "ParseUint (format_nat (nat i)) 64 = (nat i, None)"
    using assms by (intro ParseUint_format_nat) simp
  moreover obtain c cs where "format_nat (nat i) = c # cs" "is_digit c"
    using format_nat_hd by blast
  moreover from this have "c \<noteq> CHR ''+''" "c \<noteq> CHR ''-''" by auto
  ultimately show ?thesis using False assms
    by (simp add: FormatInt_def ParseInt_def ParseInt_abs_def)
qed

lemma Atoi_Itoa: "- (2 ^ 63) \<le> i \<Longrightarrow> i < 2 ^ 63 \<Longrightarrow> Atoi (Itoa i) = (i, None)"
  by (simp add: Atoi_def Itoa_def ParseInt_FormatInt)

lemma Itoa_of_nat: "Itoa (int n) = format_nat n"
  by (simp add: Itoa_def FormatInt_def)

lemma ParseInt_Itoa_nat: "n < 2 ^ 63 \<Longrightarrow> ParseInt (Itoa (int n)) = (int n, None)"
  using Atoi_Itoa [of "int n"] by (simp add: Atoi_def)

lemma ParseInt_range:
  "ParseInt s = (v, e) \<Longrightarrow> - (2 ^ 63) \<le> v \<and> v < 2 ^ 63"
  by (auto simp: ParseInt_def ParseInt_abs_def split: list.splits if_splits prod.splits
        option.splits NumErr.splits)

section \<open>UTF-8\<close>

text \<open>
  The clause \<^verbatim>\<open>for _, v := range s\<close> decodes one code point at a time; an invalid
  sequence yields \<^verbatim>\<open>utf8.RuneError\<close> and advances one byte.
\<close>

definition RuneError :: nat where
  "RuneError = 0xFFFD"

definition in_range :: "nat \<Rightarrow> nat \<Rightarrow> byte \<Rightarrow> bool" where
  "in_range lo hi c \<longleftrightarrow> lo \<le> of_char c \<and> of_char c \<le> hi"

definition low6 :: "byte \<Rightarrow> nat" where
  "low6 c = of_char c mod 64"

definition second_range :: "nat \<Rightarrow> nat \<times> nat" where
  "second_range x =
     (if x = 0xE0 then (0xA0, 0xBF) else if x = 0xED then (0x80, 0x9F)
      else if x = 0xF0 then (0x90, 0xBF) else if x = 0xF4 then (0x80, 0x8F)
      else (0x80, 0xBF))"

fun decode_rune :: "bytes \<Rightarrow> nat \<times> nat" where
  "decode_rune [] = (RuneError, 0)"
| "decode_rune (b0 # bs) =
     (let x = of_char b0; (lo, hi) = second_range x in
      if x < 0x80 then (x, 1)
      else if 0xC2 \<le> x \<and> x \<le> 0xDF then
        (case bs of
           b1 # _ \<Rightarrow> if in_range lo hi b1 then ((x mod 32) * 64 + low6 b1, 2) else (RuneError, 1)
         | _ \<Rightarrow> (RuneError, 1))
      else if 0xE0 \<le> x \<and> x \<le> 0xEF then
        (case bs of
           b1 # b2 # _ \<Rightarrow>
             if in_range lo hi b1 \<and> in_range 0x80 0xBF b2
             then ((x mod 16) * 4096 + low6 b1 * 64 + low6 b2, 3) else (RuneError, 1)
         | _ \<Rightarrow> (RuneError, 1))
      else if 0xF0 \<le> x \<and> x \<le> 0xF4 then
        (case bs of
           b1 # b2 # b3 # _ \<Rightarrow>
             if in_range lo hi b1 \<and> in_range 0x80 0xBF b2 \<and> in_range 0x80 0xBF b3
             then ((x mod 8) * 262144 + low6 b1 * 4096 + low6 b2 * 64 + low6 b3, 4)
             else (RuneError, 1)
         | _ \<Rightarrow> (RuneError, 1))
      else (RuneError, 1))"

lemma decode_rune_width: "s \<noteq> [] \<Longrightarrow> 1 \<le> snd (decode_rune s)"
  by (cases s) (auto simp: Let_def split: list.splits prod.splits)

function runes :: "bytes \<Rightarrow> nat list" where
  "runes s = (if s = [] then [] else fst (decode_rune s) # runes (drop (snd (decode_rune s)) s))"
  by pat_completeness auto
termination
proof (relation "measure length")
  show "(drop (snd (decode_rune s)) s, s) \<in> measure length" if "s \<noteq> []" for s
    using decode_rune_width [OF that] that by simp
qed simp

declare runes.simps [simp del]

text \<open>\<^verbatim>\<open>utf8.EncodeRune\<close>: surrogates and values beyond U+10FFFF become RuneError.\<close>

definition encode_rune :: "nat \<Rightarrow> bytes" where
  "encode_rune r0 =
     (let r = (if 0x10FFFF < r0 \<or> (0xD800 \<le> r0 \<and> r0 \<le> 0xDFFF) then RuneError else r0) in
      if r < 0x80 then [char_of r]
      else if r < 0x800 then [char_of (0xC0 + r div 64), char_of (0x80 + r mod 64)]
      else if r < 0x10000 then
        [char_of (0xE0 + r div 4096), char_of (0x80 + r div 64 mod 64), char_of (0x80 + r mod 64)]
      else
        [char_of (0xF0 + r div 262144), char_of (0x80 + r div 4096 mod 64),
         char_of (0x80 + r div 64 mod 64), char_of (0x80 + r mod 64)])"

definition ascii :: "byte \<Rightarrow> bool" where
  "ascii c \<longleftrightarrow> (of_char c :: nat) < 0x80"

lemma runes_Nil [simp]: "runes [] = []"
  by (simp add: runes.simps)

lemma decode_rune_ascii [simp]: "ascii c \<Longrightarrow> decode_rune (c # s) = (of_char c, 1)"
  by (simp add: ascii_def Let_def split: prod.splits)

lemma runes_ascii_Cons: "ascii c \<Longrightarrow> runes (c # s) = of_char c # runes s"
  by (subst runes.simps) (simp del: decode_rune.simps)

lemma runes_ascii: "\<forall>c \<in> set s. ascii c \<Longrightarrow> runes s = map of_char s"
  by (induction s) (simp_all add: runes_ascii_Cons)

section \<open>strings\<close>

definition ascii_lower :: "byte \<Rightarrow> byte" where
  "ascii_lower c =
     (if 65 \<le> (of_char c :: nat) \<and> (of_char c :: nat) \<le> 90 then char_of (of_char c + (32 :: nat)) else c)"

text \<open>
  \<^verbatim>\<open>strings.ToLower\<close>: the ASCII fast path, otherwise \<^verbatim>\<open>strings.Map(unicode.ToLower, s)\<close>,
  which re-encodes every code point (an invalid byte comes out as U+FFFD).
\<close>

definition ToLower :: "(nat \<Rightarrow> nat) \<Rightarrow> string \<Rightarrow> string" where
  "ToLower u s =
     (if \<forall>c \<in> set s. ascii c then map ascii_lower s
      else concat (map (\<lambda>r. encode_rune (u r)) (runes s)))"

definition TrimSuffix :: "string \<Rightarrow> string \<Rightarrow> string" where
  "TrimSuffix s suf =
     (if length suf \<le> length s \<and> drop (length s - length suf) s = suf
      then take (length s - length suf) s else s)"

lemma TrimSuffix_append [simp]: "TrimSuffix (s @ suf) suf = s"
  by (simp add: TrimSuffix_def)

lemma ascii_lower_idem [simp]: "ascii_lower (ascii_lower c) = ascii_lower c"
  by (simp add: ascii_lower_def of_char_of)

lemma ascii_ascii_lower [simp]: "ascii (ascii_lower c) \<longleftrightarrow> ascii c"
  by (simp add: ascii_lower_def ascii_def of_char_of)

lemma ToLower_ascii: "\<forall>c \<in> set s. ascii c \<Longrightarrow> ToLower u s = map ascii_lower s"
  by (simp add: ToLower_def)

section \<open>bufio.Reader over a finite input\<close>

text \<open>
  A reader holds the bytes still to come and the error its source reports once they are
  consumed (\<^verbatim>\<open>io.EOF\<close> for a file or a peer that closed, another error otherwise).
\<close>

record reader =
  unread :: bytes
  read_err :: go_error

definition ReadBytes :: "byte \<Rightarrow> reader \<Rightarrow> bytes \<times> go_error option \<times> reader" where
  "ReadBytes delim rd =
     (let s = unread rd; pre = takeWhile (\<lambda>c. c \<noteq> delim) s in
      if length pre < length s
      then (pre @ [delim], None, rd\<lparr>unread := drop (Suc (length pre)) s\<rparr>)
      else (s, Some (read_err rd), rd\<lparr>unread := []\<rparr>))"

text \<open>\<^verbatim>\<open>io.ReadFull\<close>: EOF only when nothing was read, ErrUnexpectedEOF after a part.\<close>

definition ReadFull :: "nat \<Rightarrow> reader \<Rightarrow> bytes \<times> go_error option \<times> reader" where
  "ReadFull n rd =
     (let s = unread rd in
      if n \<le> length s then (take n s, None, rd\<lparr>unread := drop n s\<rparr>)
      else (s, Some (if s \<noteq> [] \<and> read_err rd = EOF then ErrUnexpectedEOF else read_err rd),
            rd\<lparr>unread := []\<rparr>))"

lemma ReadBytes_line:
  "delim \<notin> set s \<Longrightarrow>
   ReadBytes delim \<lparr>unread = s @ delim # rest, read_err = e\<rparr> =
     (s @ [delim], None, \<lparr>unread = rest, read_err = e\<rparr>)"
proof -
  assume "delim \<notin> set s"
  then have "takeWhile (\<lambda>c. c \<noteq> delim) (s @ delim # rest) = s"
    by (subst takeWhile_append2) auto
  then show ?thesis by (simp add: ReadBytes_def)
qed

lemma ReadBytes_no_delim:
  assumes "delim \<notin> set s"
  shows "ReadBytes delim \<lparr>unread = s, read_err = e\<rparr> = (s, Some e, \<lparr>unread = [], read_err = e\<rparr>)"
proof -
  have tw: "takeWhile (\<lambda>c. c \<noteq> delim) s = s" using assms by (auto simp: takeWhile_eq_all_conv)
  show ?thesis by (simp add: ReadBytes_def tw)
qed

lemma ReadBytes_Nil [simp]:
  "ReadBytes delim \<lparr>unread = [], read_err = e\<rparr> = ([], Some e, \<lparr>unread = [], read_err = e\<rparr>)"
  by (simp add: ReadBytes_def)

lemma ReadBytes_shorter:
  "ReadBytes d rd = (m, None, rd') \<Longrightarrow> length (unread rd') < length (unread rd)"
  by (auto simp: ReadBytes_def Let_def split: if_splits)

lemma ReadBytes_Some_msg: "ReadBytes d rd = (m, None, rd') \<Longrightarrow> \<exists>p. m = p @ [d] \<and> d \<notin> set p"
  by (fastforce simp: ReadBytes_def Let_def split: if_splits dest: set_takeWhileD)

lemma ReadFull_exact:
  "length s = n \<Longrightarrow>
   ReadFull n \<lparr>unread = s @ rest, read_err = e\<rparr> = (s, None, \<lparr>unread = rest, read_err = e\<rparr>)"
  by (simp add: ReadFull_def)

lemma ReadFull_length:
  "ReadFull n rd = (m, None, rd') \<Longrightarrow> length m = n \<and> length (unread rd) = n + length (unread rd')"
  by (auto simp: ReadFull_def Let_def split: if_splits)

section \<open>sort.Search\<close>

text \<open>
  The binary search of \<^verbatim>\<open>sort.Search(n, f)\<close>: the least index in \<open>[0, n)\<close> where a
  monotone \<open>f\<close> holds, or \<open>n\<close>.
\<close>

function search_loop :: "(nat \<Rightarrow> bool) \<Rightarrow> nat \<Rightarrow> nat \<Rightarrow> nat" where
  "search_loop f i j =
     (if i < j then
        (let h = (i + j) div 2 in if \<not> f h then search_loop f (h + 1) j else search_loop f i h)
      else i)"
  by pat_completeness auto
termination
  by (relation "measure (\<lambda>(f, i, j). j - i)") auto

declare search_loop.simps [simp del]

definition sort_Search :: "nat \<Rightarrow> (nat \<Rightarrow> bool) \<Rightarrow> nat" where
  "sort_Search n f = search_loop f 0 n"

definition upward :: "nat \<Rightarrow> (nat \<Rightarrow> bool) \<Rightarrow> bool" where
  "upward n f \<longleftrightarrow> (\<forall>a b. a \<le> b \<longrightarrow> b < n \<longrightarrow> f a \<longrightarrow> f b)"

definition splits_at :: "nat \<Rightarrow> (nat \<Rightarrow> bool) \<Rightarrow> nat \<Rightarrow> bool" where
  "splits_at n f r \<longleftrightarrow> r \<le> n \<and> (\<forall>k < r. \<not> f k) \<and> (\<forall>k. r \<le> k \<longrightarrow> k < n \<longrightarrow> f k)"

lemma search_loop_spec:
  "upward n f \<Longrightarrow> i \<le> j \<Longrightarrow> j \<le> n \<Longrightarrow> \<forall>k < i. \<not> f k \<Longrightarrow> \<forall>k. j \<le> k \<longrightarrow> k < n \<longrightarrow> f k \<Longrightarrow>
    splits_at n f (search_loop f i j)"
proof (induction f i j rule: search_loop.induct)
  case (1 f i j)
  show ?case
  proof (cases "i < j")
    case False
    with "1.prems" show ?thesis by (subst search_loop.simps) (simp add: splits_at_def)
  next
    case True
    define h where "h = (i + j) div 2"
    have h: "i \<le> h" "h < j" using True by (auto simp: h_def)
    have step: "search_loop f i j = (if \<not> f h then search_loop f (h + 1) j else search_loop f i h)"
      using True by (subst search_loop.simps) (simp add: h_def)
    show ?thesis
    proof (cases "f h")
      case fh: True
      have "\<forall>k. h \<le> k \<longrightarrow> k < n \<longrightarrow> f k" using "1.prems"(1) fh by (auto simp: upward_def)
      then have "splits_at n f (search_loop f i h)"
        using "1.IH"(2) [OF True h_def] fh h "1.prems" by simp
      with step fh show ?thesis by simp
    next
      case nf: False
      have "\<forall>k < h + 1. \<not> f k"
      proof (intro allI impI)
        fix k assume "k < h + 1"
        then have "k \<le> h" "h < n" using h "1.prems"(3) by auto
        with "1.prems"(1) nf show "\<not> f k" unfolding upward_def by blast
      qed
      then have "splits_at n f (search_loop f (h + 1) j)"
        using "1.IH"(1) [OF True h_def] nf h "1.prems" by simp
      with step nf show ?thesis by simp
    qed
  qed
qed

lemma sort_Search_spec: "upward n f \<Longrightarrow> splits_at n f (sort_Search n f)"
  by (simp add: sort_Search_def search_loop_spec)

lemma search_loop_le: "i \<le> j \<Longrightarrow> search_loop f i j \<le> j"
proof (induction f i j rule: search_loop.induct)
  case (1 f i j)
  show ?case
  proof (cases "i < j")
    case False
    with "1.prems" show ?thesis by (subst search_loop.simps) simp
  next
    case True
    with "1.IH" [OF True refl] have
      "\<not> f ((i + j) div 2) \<Longrightarrow> search_loop f ((i + j) div 2 + 1) j \<le> j"
      "f ((i + j) div 2) \<Longrightarrow> search_loop f i ((i + j) div 2) \<le> (i + j) div 2" by simp_all
    moreover have "(i + j) div 2 \<le> j" using True by simp
    ultimately show ?thesis using True by (subst search_loop.simps) (auto simp: Let_def)
  qed
qed

lemma sort_Search_le: "sort_Search n f \<le> n"
  by (simp add: sort_Search_def search_loop_le)

end
