(* ===== verification/Reply.thy ===== *)
theory Reply
  imports GoLib
begin

text \<open>
  The reply values of \<^verbatim>\<open>resp/reply\<close> and their wire form \<open>ToBytes\<close>: one constructor
  per Go type that implements \<^verbatim>\<open>resp.Reply\<close>.  A Go value of the interface type
  \<^verbatim>\<open>resp.Reply\<close> may be nil, so it is a \<open>reply option\<close> where the code can produce nil.
\<close>

abbreviation CRLF :: bytes where "CRLF \<equiv> [CR, LF]"

datatype reply =
    PongReply
  | OkReply
  | NullBulkReply
  | EmptyMutiBulkReply
  | NoReply
  | UnknowErrReply
  | ArgNumErrReply string
  | SyntaxErrReply
  | WrongTypeErrReply
  | ProtocolErrReply string
  | BulkReply bytes
  | MultiBulkReply "bytes list"
  | StatusReply string
  | IntReply int64
  | StandardErrReply string

section \<open>consts.go\<close>

definition pongBytes :: bytes where "pongBytes = ''+PONG'' @ CRLF"
definition okBytes :: bytes where "okBytes = ''+OK'' @ CRLF"
definition nullBulkBytes :: bytes where "nullBulkBytes = ''$-1'' @ CRLF"
definition emptyMutiBulkBytes :: bytes where "emptyMutiBulkBytes = ''$*0'' @ CRLF"
definition noBytes :: bytes where "noBytes = []"

section \<open>error.go\<close>

definition unknownErrBytes :: bytes where "unknownErrBytes = ''-Err unknown'' @ CRLF"
definition syntaxErrBytes :: bytes where "syntaxErrBytes = ''-Err syntax error'' @ CRLF"

definition wrongTypeErrBytes :: bytes where
  "wrongTypeErrBytes =
     ''-WRONGTYPE Operation against a key holding the wrong kind of value'' @ CRLF"

definition ArgNumErr_text :: "string \<Rightarrow> string" where
  "ArgNumErr_text cmd =
     ''-ERR wrong number of arguments for '' @ [QUOTE] @ cmd @ [QUOTE] @ ''commend''"

definition ProtocolErr_text :: "string \<Rightarrow> string" where
  "ProtocolErr_text msg = ''-ERR Protocol error: '' @ [QUOTE] @ msg @ [QUOTE]"

section \<open>reply.go\<close>

definition nullBulkReplyBytes :: bytes where "nullBulkReplyBytes = ''$-1''"

definition BulkReply_ToBytes :: "bytes \<Rightarrow> bytes" where
  "BulkReply_ToBytes arg =
     (if length arg = 0 then nullBulkReplyBytes
      else ''$'' @ Itoa (int (length arg)) @ CRLF @ arg @ CRLF)"

text \<open>The loop of \<^verbatim>\<open>MultiBulkReply.ToBytes\<close>: one element appended to the buffer.\<close>

definition write_arg :: "bytes \<Rightarrow> bytes" where
  "write_arg arg =
     (if length arg = 0 then nullBulkBytes @ CRLF
      else ''$'' @ Itoa (int (length arg)) @ CRLF @ arg @ CRLF)"

fun write_args :: "bytes \<Rightarrow> bytes list \<Rightarrow> bytes" where
  "write_args buf [] = buf"
| "write_args buf (arg # args) = write_args (buf @ write_arg arg) args"

definition MultiBulkReply_ToBytes :: "bytes list \<Rightarrow> bytes" where
  "MultiBulkReply_ToBytes args = write_args (''*'' @ Itoa (int (length args)) @ CRLF) args"

definition StatusReply_ToBytes :: "string \<Rightarrow> bytes" where
  "StatusReply_ToBytes status = ''+'' @ status @ CRLF"

definition IntReply_ToBytes :: "int64 \<Rightarrow> bytes" where
  "IntReply_ToBytes code = '':'' @ FormatInt (sint code) @ CRLF"

definition StandardErrReply_ToBytes :: "string \<Rightarrow> bytes" where
  "StandardErrReply_ToBytes status = ''-'' @ status @ CRLF"

fun ToBytes :: "reply \<Rightarrow> bytes" where
  "ToBytes PongReply = pongBytes"
| "ToBytes OkReply = okBytes"
| "ToBytes NullBulkReply = nullBulkBytes"
| "ToBytes EmptyMutiBulkReply = emptyMutiBulkBytes"
| "ToBytes NoReply = noBytes"
| "ToBytes UnknowErrReply = unknownErrBytes"
| "ToBytes (ArgNumErrReply cmd) = ArgNumErr_text cmd @ CRLF"
| "ToBytes SyntaxErrReply = syntaxErrBytes"
| "ToBytes WrongTypeErrReply = wrongTypeErrBytes"
| "ToBytes (ProtocolErrReply msg) = ProtocolErr_text msg @ CRLF"
| "ToBytes (BulkReply arg) = BulkReply_ToBytes arg"
| "ToBytes (MultiBulkReply args) = MultiBulkReply_ToBytes args"
| "ToBytes (StatusReply status) = StatusReply_ToBytes status"
| "ToBytes (IntReply code) = IntReply_ToBytes code"
| "ToBytes (StandardErrReply status) = StandardErrReply_ToBytes status"

text \<open>
  The method \<^verbatim>\<open>Error()\<close>; \<open>None\<close> for the types that do not implement the interface
  \<^verbatim>\<open>ErrorReply\<close>.
\<close>

fun reply_Error :: "reply \<Rightarrow> string option" where
  "reply_Error UnknowErrReply = Some ''ERR unknown error''"
| "reply_Error (ArgNumErrReply cmd) = Some (ArgNumErr_text cmd)"
| "reply_Error SyntaxErrReply = Some ''ERR syntax error''"
| "reply_Error WrongTypeErrReply =
     Some ''-WRONGTYPE Operation against a key holding the wrong kind of value''"
| "reply_Error (ProtocolErrReply msg) = Some (ProtocolErr_text msg)"
| "reply_Error (StandardErrReply status) = Some status"
| "reply_Error _ = None"

definition is_ErrorReply :: "reply \<Rightarrow> bool" where
  "is_ErrorReply r \<longleftrightarrow> reply_Error r \<noteq> None"

text \<open>
  \<^verbatim>\<open>IsErrReply\<close> calls a method of an interface value (a nil one panics) and reads byte 0
  of the result (an empty one panics).
\<close>

definition IsErrReply :: "reply option \<Rightarrow> bool go" where
  "IsErrReply r =
     (case r of
        None \<Rightarrow> Inl NilDereference
      | Some rep \<Rightarrow> go_bind (go_index (ToBytes rep) 0) (\<lambda>c. Inr (c = CHR ''-'')))"

definition MakeErrReply :: "string \<Rightarrow> reply" where
  "MakeErrReply status = StandardErrReply status"

definition MakeIntReply :: "int64 \<Rightarrow> reply" where
  "MakeIntReply code = IntReply code"

definition MakeMultiBulkReply :: "bytes list \<Rightarrow> reply" where
  "MakeMultiBulkReply args = MultiBulkReply args"

section \<open>The wire form\<close>

lemmas wire_defs = pongBytes_def okBytes_def nullBulkBytes_def emptyMutiBulkBytes_def noBytes_def
  unknownErrBytes_def syntaxErrBytes_def wrongTypeErrBytes_def ArgNumErr_text_def
  ProtocolErr_text_def nullBulkReplyBytes_def BulkReply_ToBytes_def StatusReply_ToBytes_def
  IntReply_ToBytes_def StandardErrReply_ToBytes_def

lemma write_args_concat: "write_args buf args = buf @ concat (map write_arg args)"
  by (induction args arbitrary: buf) simp_all

lemma MultiBulkReply_ToBytes_concat:
  "MultiBulkReply_ToBytes args =
     ''*'' @ Itoa (int (length args)) @ CRLF @ concat (map write_arg args)"
  by (simp add: MultiBulkReply_ToBytes_def write_args_concat)

lemma write_arg_nonempty:
  "arg \<noteq> [] \<Longrightarrow> write_arg arg = ''$'' @ Itoa (int (length arg)) @ CRLF @ arg @ CRLF"
  by (simp add: write_arg_def)

lemma ToBytes_hd_minus: "ToBytes r \<noteq> [] \<Longrightarrow> hd (ToBytes r) = CHR ''-'' \<longleftrightarrow> is_ErrorReply r"
  by (cases r) (simp_all add: wire_defs is_ErrorReply_def MultiBulkReply_ToBytes_concat)

lemma ToBytes_empty_iff: "ToBytes r = [] \<longleftrightarrow> r = NoReply"
  by (cases r) (simp_all add: wire_defs MultiBulkReply_ToBytes_concat)

lemma IsErrReply_Some:
  "IsErrReply (Some r) = (if r = NoReply then Inl IndexOutOfRange else Inr (is_ErrorReply r))"
proof (cases "ToBytes r")
  case Nil
  then show ?thesis using ToBytes_empty_iff [of r] by (simp add: IsErrReply_def)
next
  case (Cons c cs)
  then show ?thesis
    using ToBytes_empty_iff [of r] ToBytes_hd_minus [of r] by (auto simp: IsErrReply_def)
qed

text \<open>
  \<^verbatim>\<open>IsErrReply\<close> looks at the first wire byte only, and the cluster code then asserts
  the interface \<^verbatim>\<open>ErrorReply\<close> without a check.  The two agree: for every reply but the
  silent \<open>NoReply\<close> the byte test answers exactly whether the type implements the interface.
\<close>

theorem IsErrReply_agrees_with_interface:
  "IsErrReply (Some r) = (if r = NoReply then Inl IndexOutOfRange else Inr (reply_Error r \<noteq> None))"
  by (simp add: IsErrReply_Some is_ErrorReply_def)

end
