(* ===== verification/Parser.thy ===== *)
theory Parser
  imports Reply
begin

text \<open>
  The streaming RESP parser of \<^verbatim>\<open>resp/parser/parser.go\<close>: \<open>readState\<close> is the state the
  goroutine keeps between lines, \<open>readLine\<close>, \<open>parseMutiBulkHeader\<close>, \<open>parseBulkHeader\<close>,
  \<open>parseSingleLineReply\<close> and \<open>readBody\<close> are the functions of the file, and \<open>parse0\<close> is
  the loop.  What the goroutine sends over its channel is the list of payloads it returns.
  The loop ends in one of two ways: an I/O error closes the channel (\<open>Closed\<close>), or a
  panic is swallowed by the deferred \<^verbatim>\<open>recover\<close>, which leaves the channel open for ever
  (\<open>Abandoned\<close>): its consumer then blocks.
\<close>

record payload =
  Data :: "reply option"
  Err :: "go_error option"

record readState =
  readingMutiLine :: bool
  expectedArgsCount :: int
  msgType :: byte
  args :: "bytes list"
  bulkLen :: int64

definition init_state :: readState where
  "init_state = \<lparr>readingMutiLine = False, expectedArgsCount = 0, msgType = CHR 0x00,
     args = [], bulkLen = 0\<rparr>"

definition finished :: "readState \<Rightarrow> bool" where
  "finished r \<longleftrightarrow> expectedArgsCount r > 0 \<and> int (length (args r)) = expectedArgsCount r"

section \<open>Reading one line or one bulk body\<close>

definition err_crlf :: go_error where
  "err_crlf = ErrorString
     (''protocol error:must end with '' @ [BACKSLASH] @ ''r'' @ [BACKSLASH] @ ''n'')"

definition err_bulk_crlf :: go_error where
  "err_bulk_crlf = ErrorString
     (''protocol error:invalid bulk format, must end with '' @ [BACKSLASH] @ ''r'' @ [BACKSLASH] @ ''n'')"

text \<open>\<^verbatim>\<open>len(msg) == 0 || msg[len(msg)-2] != CR || msg[len(msg)-1] != LF\<close>\<close>

definition bad_terminator :: "bytes \<Rightarrow> bool go" where
  "bad_terminator msg =
     (if length msg = 0 then Inr True
      else go_bind (go_index msg (int (length msg) - 2)) (\<lambda>c.
        if c \<noteq> CR then Inr True
        else go_bind (go_index msg (int (length msg) - 1)) (\<lambda>d. Inr (d \<noteq> LF))))"

text \<open>The result is the message, whether the error is an I/O error, and the error.\<close>

type_synonym line_result = "bytes \<times> bool \<times> go_error option"

definition readLine :: "reader \<Rightarrow> readState \<Rightarrow> (line_result \<times> reader \<times> readState) go" where
  "readLine rd st =
     (if bulkLen st = 0 then
        (case ReadBytes LF rd of (msg, err, rd') \<Rightarrow>
           (case err of
              Some e \<Rightarrow> Inr (([], True, Some e), rd', st)
            | None \<Rightarrow> go_bind (bad_terminator msg) (\<lambda>bad.
                if bad then Inr (([], False, Some err_crlf), rd', st)
                else Inr ((msg, False, None), rd', st))))
      else go_bind (make_bytes (sint (bulkLen st + 2))) (\<lambda>n.
        (case ReadFull n rd of (msg, err, rd') \<Rightarrow>
           (case err of
              Some e \<Rightarrow> Inr (([], True, Some e), rd', st)
            | None \<Rightarrow> go_bind (bad_terminator msg) (\<lambda>bad.
                if bad then Inr (([], False, Some err_bulk_crlf), rd', st)
                else Inr ((msg, False, None), rd', st\<lparr>bulkLen := 0\<rparr>))))))"

section \<open>Headers, single lines and bodies\<close>

text \<open>\<^verbatim>\<open>uint64\<close> cannot be negative, so the source's last \<^verbatim>\<open>else\<close> never runs.\<close>

definition parseMutiBulkHeader :: "bytes \<Rightarrow> readState \<Rightarrow> (go_error option \<times> readState) go" where
  "parseMutiBulkHeader msg st =
     go_bind (go_slice msg 1 (int (length msg) - 2)) (\<lambda>num.
       case ParseUint num 32 of
         (_, Some _) \<Rightarrow>
           Inr (Some (ErrorString (''parseMutiBulkHeader ParseUint error:'' @ msg)), st)
       | (expectedLine, None) \<Rightarrow>
           if expectedLine = 0 then Inr (None, st\<lparr>expectedArgsCount := 0\<rparr>)
           else go_bind (go_index msg 0) (\<lambda>c0.
             Inr (None, st\<lparr>msgType := c0, readingMutiLine := True,
                           expectedArgsCount := int expectedLine, args := []\<rparr>)))"

definition parseBulkHeader :: "bytes \<Rightarrow> readState \<Rightarrow> (go_error option \<times> readState) go" where
  "parseBulkHeader msg st =
     go_bind (go_slice msg 1 (int (length msg) - 2)) (\<lambda>num.
       case ParseInt num of (v, err) \<Rightarrow>
         (let st = st\<lparr>bulkLen := word_of_int v\<rparr> in
          if err \<noteq> None then
            Inr (Some (ErrorString (''parseBulkHeader ParseInt error:'' @ msg)), st)
          else if sint (bulkLen st) = -1 then Inr (None, st)
          else if sint (bulkLen st) > 0 then
            go_bind (go_index msg 0) (\<lambda>c0.
              Inr (None, st\<lparr>readingMutiLine := True, msgType := c0,
                            expectedArgsCount := 1, args := []\<rparr>))
          else Inr (Some (ErrorString (''parseBulkHeader bulkLen error:'' @ msg)), st)))"

definition parseSingleLineReply :: "bytes \<Rightarrow> (reply option \<times> go_error option) go" where
  "parseSingleLineReply msg =
     (let str = TrimSuffix msg CRLF in
      go_bind (go_index str 0) (\<lambda>c0.
        if c0 = CHR ''+'' then Inr (Some (StatusReply (tl str)), None)
        else if c0 = CHR ''-'' then Inr (Some (MakeErrReply (tl str)), None)
        else if c0 = CHR '':'' then
          (case ParseInt (tl str) of
             (_, Some _) \<Rightarrow> Inr (None, Some (ErrorString (''parseSingleLineReply error:'' @ msg)))
           | (val, None) \<Rightarrow> Inr (Some (MakeIntReply (word_of_int val)), None))
        else Inr (None, None)))"

definition readBody :: "bytes \<Rightarrow> readState \<Rightarrow> (go_error option \<times> readState) go" where
  "readBody msg st =
     go_bind (go_slice msg 0 (int (length msg) - 2)) (\<lambda>line.
       go_bind (go_index line 0) (\<lambda>c0.
         if c0 = CHR ''$'' then
           (case ParseInt (tl line) of (v, err) \<Rightarrow>
              (let st = st\<lparr>bulkLen := word_of_int v\<rparr> in
               if err \<noteq> None then Inr (Some (ErrorString (''readBody error:'' @ msg)), st)
               else if sint (bulkLen st) \<le> 0 then
                 Inr (None, st\<lparr>args := args st @ [[]], bulkLen := 0\<rparr>)
               else Inr (None, st)))
         else Inr (None, st\<lparr>args := args st @ [line]\<rparr>)))"

section \<open>The loop\<close>

text \<open>What one iteration does with a line that was read: the payload sent, if any.\<close>

definition protocol_err :: "bytes \<Rightarrow> payload" where
  "protocol_err msg = \<lparr>Data = None, Err = Some (ErrorString (''protocol err:'' @ msg))\<rparr>"

definition handle_line :: "bytes \<Rightarrow> readState \<Rightarrow> (payload option \<times> readState) go" where
  "handle_line msg st =
     (if \<not> readingMutiLine st then
        go_bind (go_index msg 0) (\<lambda>c0.
          if c0 = CHR ''*'' then
            go_bind (parseMutiBulkHeader msg st) (\<lambda>(err, st').
              if err \<noteq> None then Inr (Some \<lparr>Data = None, Err = err\<rparr>, init_state)
              else if expectedArgsCount st' = 0 then
                Inr (Some \<lparr>Data = Some EmptyMutiBulkReply, Err = None\<rparr>, init_state)
              else Inr (None, st'))
          else if c0 = CHR ''$'' then
            go_bind (parseBulkHeader msg st) (\<lambda>(err, st').
              if err \<noteq> None then Inr (Some (protocol_err msg), init_state)
              else if sint (bulkLen st') = -1 then
                Inr (Some \<lparr>Data = Some NullBulkReply, Err = None\<rparr>, init_state)
              else Inr (None, st'))
          else
            go_bind (parseSingleLineReply msg) (\<lambda>(lineReply, err).
              Inr (Some \<lparr>Data = lineReply, Err = err\<rparr>, init_state)))
      else
        go_bind (readBody msg st) (\<lambda>(err, st').
          if err \<noteq> None then Inr (Some (protocol_err msg), init_state)
          else if finished st' then
            Inr (Some \<lparr>Data =
                   (if msgType st' = CHR ''*'' then Some (MakeMultiBulkReply (args st'))
                    else if msgType st' = CHR ''$'' then Some (MakeMultiBulkReply (args st'))
                    else None), Err = None\<rparr>, init_state)
          else Inr (None, st')))"

datatype parse_end = Closed | Abandoned panic

text \<open>One iteration of the \<^verbatim>\<open>for\<close> loop: the last payload, or what to go on with.\<close>

datatype iteration =
    Last payload
  | Next "payload option" reader readState

definition parse_iter :: "reader \<Rightarrow> readState \<Rightarrow> iteration go" where
  "parse_iter rd st =
     go_bind (readLine rd st) (\<lambda>((msg, ioErr, err), rd', st').
       if err \<noteq> None then
         (if ioErr then Inr (Last \<lparr>Data = None, Err = err\<rparr>)
          else Inr (Next (Some \<lparr>Data = None, Err = err\<rparr>) rd' init_state))
       else go_bind (handle_line msg st') (\<lambda>(p, st''). Inr (Next p rd' st'')))"

definition send :: "payload option \<Rightarrow> payload list \<times> parse_end \<Rightarrow> payload list \<times> parse_end" where
  "send p out = (case p of None \<Rightarrow> out | Some x \<Rightarrow> (x # fst out, snd out))"

lemma readLine_progress:
  assumes "readLine rd st = Inr ((msg, io, err), rd', st')" and "\<not> (io \<and> err \<noteq> None)"
  shows "length (unread rd') < length (unread rd) \<or>
    (length (unread rd') = length (unread rd) \<and> bulkLen st \<noteq> 0 \<and> err \<noteq> None)"
proof (cases "bulkLen st = 0")
  case True
  with assms show ?thesis
    by (auto simp: readLine_def go_bind_eq_Inr dest!: ReadBytes_shorter
        split: prod.splits option.splits if_splits)
next
  case False
  obtain n where n: "make_bytes (sint (bulkLen st + 2)) = Inr n"
    using assms False by (cases "make_bytes (sint (bulkLen st + 2))") (auto simp: readLine_def)
  obtain m e rd2 where f: "ReadFull n rd = (m, e, rd2)" by (cases "ReadFull n rd")
  with assms False n have rf: "ReadFull n rd = (m, None, rd')"
    and b: "\<exists>bad. bad_terminator m = Inr bad \<and> (err \<noteq> None \<longleftrightarrow> bad)"
    by (auto simp: readLine_def go_bind_eq_Inr split: option.splits if_splits)
  from ReadFull_length [OF rf] have len: "length m = n" "length (unread rd) = n + length (unread rd')"
    by auto
  show ?thesis
  proof (cases "n = 0")
    case True
    with len b False show ?thesis by (auto simp: bad_terminator_def)
  next
    case False
    with len show ?thesis by simp
  qed
qed

lemma parse_iter_progress:
  assumes "parse_iter rd st = Inr (Next p rd' st')"
  shows "length (unread rd') < length (unread rd) \<or>
    (length (unread rd') = length (unread rd) \<and> bulkLen st \<noteq> 0 \<and> bulkLen st' = 0)"
proof -
  obtain msg io err rd1 st1 where rl: "readLine rd st = Inr ((msg, io, err), rd1, st1)"
    using assms by (cases "readLine rd st") (auto simp: parse_iter_def)
  with assms have c: "\<not> (io \<and> err \<noteq> None)" "err \<noteq> None \<longrightarrow> st' = init_state" and [simp]: "rd1 = rd'"
    by (auto simp: parse_iter_def go_bind_eq_Inr split: if_splits)
  from readLine_progress [OF rl c(1)] c(2) show ?thesis by (auto simp: init_state_def)
qed

function parse_loop :: "reader \<Rightarrow> readState \<Rightarrow> payload list \<times> parse_end" where
  "parse_loop rd st =
     (case parse_iter rd st of
        Inl p \<Rightarrow> ([], Abandoned p)
      | Inr (Last x) \<Rightarrow> ([x], Closed)
      | Inr (Next p rd' st') \<Rightarrow> send p (parse_loop rd' st'))"
  by pat_completeness auto
termination
proof (relation "measure (\<lambda>(rd, st). 2 * length (unread rd) + (if bulkLen st = 0 then 0 else 1))")
  fix rd st it p rd' st'
  assume "parse_iter rd st = Inr it" and "it = Next p rd' st'"
  then have "parse_iter rd st = Inr (Next p rd' st')" by simp
  from parse_iter_progress [OF this]
  show "((rd', st'), rd, st) \<in> measure (\<lambda>(rd, st). 2 * length (unread rd) + (if bulkLen st = 0 then 0 else 1))"
    by auto
qed simp

declare parse_loop.simps [simp del]

definition parse0 :: "reader \<Rightarrow> payload list \<times> parse_end" where
  "parse0 rd = parse_loop rd init_state"

definition ParseStream :: "reader \<Rightarrow> payload list \<times> parse_end" where
  "ParseStream rd = parse0 rd"

section \<open>Single steps on well-formed input\<close>

lemma parse_loop_Next:
  "parse_iter rd st = Inr (Next p rd' st') \<Longrightarrow> parse_loop rd st = send p (parse_loop rd' st')"
  by (subst parse_loop.simps) simp

lemma parse_loop_Last: "parse_iter rd st = Inr (Last x) \<Longrightarrow> parse_loop rd st = ([x], Closed)"
  by (subst parse_loop.simps) simp

lemma parse_loop_panic: "parse_iter rd st = Inl p \<Longrightarrow> parse_loop rd st = ([], Abandoned p)"
  by (subst parse_loop.simps) simp

lemma send_simps [simp]:
  "send None out = out"
  "send (Some x) out = (x # fst out, snd out)"
  by (simp_all add: send_def)

lemma bad_terminator_CRLF [simp]: "bad_terminator (line @ CRLF) = Inr False"
  using go_index_append2 [of line CR LF] by (simp add: bad_terminator_def)

lemma readLine_line:
  "bulkLen st = 0 \<Longrightarrow> LF \<notin> set line \<Longrightarrow>
   readLine \<lparr>unread = line @ CRLF @ rest, read_err = e\<rparr> st =
     Inr ((line @ CRLF, False, None), \<lparr>unread = rest, read_err = e\<rparr>, st)"
  using ReadBytes_line [of LF "line @ [CR]" rest e] bad_terminator_CRLF [of line]
  by (simp add: readLine_def)

lemma ParseInt_bulkLen [simp]: "int n + 2 \<le> maxAlloc \<Longrightarrow> ParseInt (Itoa (int n)) = (int n, None)"
  by (rule ParseInt_Itoa_nat) (simp add: maxAlloc_def)

lemma sint_bulkLen [simp]: "int n + 2 \<le> maxAlloc \<Longrightarrow> sint (of_nat n :: int64) = int n"
  using sint_word_of_int_64 [of "int n"] by (simp add: maxAlloc_def)

lemma sint_bulkLen_2 [simp]:
  "int n + 2 \<le> maxAlloc \<Longrightarrow> sint (of_nat n + 2 :: int64) = int n + 2"
  using sint_word_of_int_64 [of "int n + 2"] by (simp add: maxAlloc_def)

lemma bulkLen_nonzero:
  "0 < n \<Longrightarrow> int n + 2 \<le> maxAlloc \<Longrightarrow> (of_nat n :: int64) \<noteq> 0"
  by (metis sint_bulkLen sint_0 of_nat_0_less_iff less_irrefl)

lemma readLine_bulk:
  assumes "bulkLen st = of_nat (length b)" and "b \<noteq> []"
    and "int (length b) + 2 \<le> maxAlloc"
  shows "readLine \<lparr>unread = b @ CRLF @ rest, read_err = e\<rparr> st =
     Inr ((b @ CRLF, False, None), \<lparr>unread = rest, read_err = e\<rparr>, st\<lparr>bulkLen := 0\<rparr>)"
proof -
  have "bulkLen st \<noteq> 0" using assms bulkLen_nonzero [of "length b"] by simp
  moreover have "make_bytes (sint (bulkLen st + 2)) = Inr (length b + 2)"
    using assms by (simp add: sint_bulkLen_2 make_bytes_def nat_add_distrib)
  moreover have "ReadFull (length b + 2) \<lparr>unread = b @ CRLF @ rest, read_err = e\<rparr> =
      (b @ CRLF, None, \<lparr>unread = rest, read_err = e\<rparr>)"
    using ReadFull_exact [of "b @ CRLF" "length b + 2" rest e] by simp
  ultimately show ?thesis by (simp add: readLine_def)
qed

lemma parse_iter_line:
  "bulkLen st = 0 \<Longrightarrow> LF \<notin> set line \<Longrightarrow>
   parse_iter \<lparr>unread = line @ CRLF @ rest, read_err = e\<rparr> st =
     go_bind (handle_line (line @ CRLF) st) (\<lambda>(p, st'). Inr (Next p \<lparr>unread = rest, read_err = e\<rparr> st'))"
  using readLine_line [of st line rest e] by (simp add: parse_iter_def)

lemma parse_iter_end:
  "bulkLen st = 0 \<Longrightarrow> parse_iter \<lparr>unread = [], read_err = e\<rparr> st = Inr (Last \<lparr>Data = None, Err = Some e\<rparr>)"
  by (simp add: parse_iter_def readLine_def)

lemma parse_loop_Nil [simp]:
  "parse_loop \<lparr>unread = [], read_err = e\<rparr> init_state = ([\<lparr>Data = None, Err = Some e\<rparr>], Closed)"
  by (rule parse_loop_Last) (simp add: parse_iter_end init_state_def)

lemma line_slices [simp]:
  "go_slice (c # s @ [a, b]) 1 (1 + int (length s)) = Inr s"
  "go_slice (s @ [a, b]) 0 (int (length s)) = Inr s"
  using go_slice_tail_line [of c s a b] go_slice_line [of s a b] by (simp_all add: add.commute)

lemma readBody_header:
  "0 < n \<Longrightarrow> int n + 2 \<le> maxAlloc \<Longrightarrow>
   readBody (CHR ''$'' # Itoa (int n) @ CRLF) st = Inr (None, st\<lparr>bulkLen := of_nat n\<rparr>)"
  using go_slice_line [of "CHR ''$'' # Itoa (int n)" CR LF]
  by (simp add: readBody_def Let_def)

lemma readBody_data:
  "b \<noteq> [] \<Longrightarrow> hd b \<noteq> CHR ''$'' \<Longrightarrow> readBody (b @ CRLF) st = Inr (None, st\<lparr>args := args st @ [b]\<rparr>)"
  by (cases b) (use go_slice_line [of b CR LF] in \<open>auto simp: readBody_def\<close>)

section \<open>Commands as the writer emits them\<close>

text \<open>
  An argument survives the trip from \<^verbatim>\<open>MultiBulkReply.ToBytes\<close> to the parser when it is
  not empty, does not start with a dollar sign and fits in memory.
\<close>

definition clean_arg :: "bytes \<Rightarrow> bool" where
  "clean_arg a \<longleftrightarrow> a \<noteq> [] \<and> hd a \<noteq> CHR ''$'' \<and> int (length a) + 2 \<le> maxAlloc"

definition clean_cmd :: "CmdLine \<Rightarrow> bool" where
  "clean_cmd cmd \<longleftrightarrow> cmd \<noteq> [] \<and> length cmd < 2 ^ 32 \<and> (\<forall>a \<in> set cmd. clean_arg a)"

definition multi_state :: "nat \<Rightarrow> bytes list \<Rightarrow> readState" where
  "multi_state n done = \<lparr>readingMutiLine = True, expectedArgsCount = int n, msgType = CHR ''*'',
     args = done, bulkLen = 0\<rparr>"

definition command_payload :: "CmdLine \<Rightarrow> payload" where
  "command_payload cmd = \<lparr>Data = Some (MultiBulkReply cmd), Err = None\<rparr>"

lemma parse_multi_header:
  assumes "0 < n" and "n < 2 ^ 32"
  shows "parse_loop \<lparr>unread = ''*'' @ Itoa (int n) @ CRLF @ rest, read_err = e\<rparr> init_state =
    parse_loop \<lparr>unread = rest, read_err = e\<rparr> (multi_state n [])"
proof -
  let ?line = "CHR ''*'' # format_nat n"
  have "ParseUint (format_nat n) 32 = (n, None)"
    using assms by (intro ParseUint_format_nat)
  then have "handle_line (?line @ CRLF) init_state = Inr (None, multi_state n [])"
    using assms by (simp add: handle_line_def init_state_def parseMutiBulkHeader_def multi_state_def)
  then have "parse_iter \<lparr>unread = ?line @ CRLF @ rest, read_err = e\<rparr> init_state =
      Inr (Next None \<lparr>unread = rest, read_err = e\<rparr> (multi_state n []))"
    by (subst parse_iter_line) (simp_all add: init_state_def)
  from parse_loop_Next [OF this] show ?thesis by (simp add: Itoa_of_nat)
qed

lemma parse_arg_length:
  assumes "0 < n" and "int n + 2 \<le> maxAlloc" and "readingMutiLine st" and "bulkLen st = 0"
    and "int (length (args st)) \<noteq> expectedArgsCount st"
  shows "parse_loop \<lparr>unread = ''$'' @ Itoa (int n) @ CRLF @ rest, read_err = e\<rparr> st =
    parse_loop \<lparr>unread = rest, read_err = e\<rparr> (st\<lparr>bulkLen := of_nat n\<rparr>)"
proof -
  let ?line = "CHR ''$'' # Itoa (int n)"
  have "handle_line (?line @ CRLF) st = Inr (None, st\<lparr>bulkLen := of_nat n\<rparr>)"
    using assms by (simp add: handle_line_def readBody_header finished_def)
  then have "parse_iter \<lparr>unread = ?line @ CRLF @ rest, read_err = e\<rparr> st =
      Inr (Next None \<lparr>unread = rest, read_err = e\<rparr> (st\<lparr>bulkLen := of_nat n\<rparr>))"
    using assms by (subst parse_iter_line) simp_all
  from parse_loop_Next [OF this] show ?thesis by simp
qed

lemma parse_arg_body:
  assumes "clean_arg a" and "length done < n"
  shows "parse_loop \<lparr>unread = a @ CRLF @ rest, read_err = e\<rparr>
      ((multi_state n done)\<lparr>bulkLen := of_nat (length a)\<rparr>) =
    (if Suc (length done) = n
     then send (Some (command_payload (done @ [a])))
            (parse_loop \<lparr>unread = rest, read_err = e\<rparr> init_state)
     else parse_loop \<lparr>unread = rest, read_err = e\<rparr> (multi_state n (done @ [a])))"
proof -
  let ?st = "(multi_state n done)\<lparr>bulkLen := of_nat (length a)\<rparr>"
  have a: "a \<noteq> []" "hd a \<noteq> CHR ''$''" "int (length a) + 2 \<le> maxAlloc"
    using assms(1) by (auto simp: clean_arg_def)
  have "readLine \<lparr>unread = a @ CRLF @ rest, read_err = e\<rparr> ?st =
      Inr ((a @ CRLF, False, None), \<lparr>unread = rest, read_err = e\<rparr>, multi_state n done)"
    using readLine_bulk [of ?st a rest e] a by (simp add: multi_state_def)
  moreover have "handle_line (a @ CRLF) (multi_state n done) =
      Inr (if Suc (length done) = n then (Some (command_payload (done @ [a])), init_state)
           else (None, multi_state n (done @ [a])))"
    using a assms(2) by (simp add: handle_line_def multi_state_def readBody_data finished_def
        command_payload_def MakeMultiBulkReply_def)
  ultimately have "parse_iter \<lparr>unread = a @ CRLF @ rest, read_err = e\<rparr> ?st =
      Inr (Next (if Suc (length done) = n then Some (command_payload (done @ [a])) else None)
             \<lparr>unread = rest, read_err = e\<rparr>
             (if Suc (length done) = n then init_state else multi_state n (done @ [a])))"
    by (simp add: parse_iter_def)
  from parse_loop_Next [OF this] show ?thesis by simp
qed

lemma parse_arg:
  assumes "clean_arg a" and "length done < n"
  shows "parse_loop \<lparr>unread = write_arg a @ rest, read_err = e\<rparr> (multi_state n done) =
    (if Suc (length done) = n
     then send (Some (command_payload (done @ [a])))
            (parse_loop \<lparr>unread = rest, read_err = e\<rparr> init_state)
     else parse_loop \<lparr>unread = rest, read_err = e\<rparr> (multi_state n (done @ [a])))"
proof -
  have a: "a \<noteq> []" "0 < length a" "int (length a) + 2 \<le> maxAlloc"
    using assms(1) by (auto simp: clean_arg_def)
  have "parse_loop \<lparr>unread = write_arg a @ rest, read_err = e\<rparr> (multi_state n done) =
      parse_loop \<lparr>unread = a @ CRLF @ rest, read_err = e\<rparr>
        ((multi_state n done)\<lparr>bulkLen := of_nat (length a)\<rparr>)"
    using parse_arg_length [OF a(2,3), of "multi_state n done" "a @ CRLF @ rest" e] a assms(2)
    by (simp add: write_arg_nonempty multi_state_def)
  with parse_arg_body [OF assms] show ?thesis by simp
qed

lemma parse_args:
  "\<forall>a \<in> set as. clean_arg a \<Longrightarrow> as \<noteq> [] \<Longrightarrow> length done + length as = n \<Longrightarrow>
   parse_loop \<lparr>unread = concat (map write_arg as) @ rest, read_err = e\<rparr> (multi_state n done) =
     send (Some (command_payload (done @ as))) (parse_loop \<lparr>unread = rest, read_err = e\<rparr> init_state)"
proof (induction as arbitrary: "done")
  case Nil
  then show ?case by simp
next
  case (Cons a as)
  show ?case
  proof (cases "as = []")
    case True
    with Cons.prems show ?thesis by (simp add: parse_arg)
  next
    case False
    with Cons.prems have "Suc (length done) \<noteq> n" by (cases as) auto
    with False Cons.prems Cons.IH [of "done @ [a]"] show ?thesis by (simp add: parse_arg)
  qed
qed

lemma parse_command:
  assumes "clean_cmd cmd"
  shows "parse_loop \<lparr>unread = MultiBulkReply_ToBytes cmd @ rest, read_err = e\<rparr> init_state =
    send (Some (command_payload cmd)) (parse_loop \<lparr>unread = rest, read_err = e\<rparr> init_state)"
proof -
  have "parse_loop \<lparr>unread = MultiBulkReply_ToBytes cmd @ rest, read_err = e\<rparr> init_state =
      parse_loop \<lparr>unread = concat (map write_arg cmd) @ rest, read_err = e\<rparr> (multi_state (length cmd) [])"
    using assms parse_multi_header [of "length cmd" "concat (map write_arg cmd) @ rest" e]
    by (simp add: MultiBulkReply_ToBytes_concat clean_cmd_def)
  with parse_args [of cmd "[]" "length cmd" rest e] assms show ?thesis by (simp add: clean_cmd_def)
qed

lemma parse_commands:
  "\<forall>cmd \<in> set cmds. clean_cmd cmd \<Longrightarrow>
   parse_loop \<lparr>unread = concat (map MultiBulkReply_ToBytes cmds) @ rest, read_err = e\<rparr> init_state =
     (map command_payload cmds @ fst (parse_loop \<lparr>unread = rest, read_err = e\<rparr> init_state),
      snd (parse_loop \<lparr>unread = rest, read_err = e\<rparr> init_state))"
  by (induction cmds) (simp_all add: parse_command)

section \<open>Truncated input\<close>

text \<open>
  What is left when the input ends inside a command: the end is reported and the channel
  closed, and no part of the command is delivered.
\<close>

definition cut_off :: "payload list \<times> parse_end \<Rightarrow> bool" where
  "cut_off out \<longleftrightarrow>
     (\<exists>e \<in> {EOF, ErrUnexpectedEOF}. out = ([\<lparr>Data = None, Err = Some e\<rparr>], Closed))"

lemma parse_partial_line:
  "bulkLen st = 0 \<Longrightarrow> LF \<notin> set p \<Longrightarrow> cut_off (parse_loop \<lparr>unread = p, read_err = EOF\<rparr> st)"
  by (subst parse_loop_Last [where x = "\<lparr>Data = None, Err = Some EOF\<rparr>"])
    (simp_all add: parse_iter_def readLine_def ReadBytes_no_delim cut_off_def)

lemma parse_partial_bulk:
  assumes "bulkLen st = of_nat n" and "0 < n" and "int n + 2 \<le> maxAlloc" and "length p < n + 2"
  shows "cut_off (parse_loop \<lparr>unread = p, read_err = EOF\<rparr> st)"
proof -
  have "make_bytes (sint (bulkLen st + 2)) = Inr (n + 2)"
    using assms by (simp add: sint_bulkLen_2 make_bytes_def nat_add_distrib)
  moreover have "bulkLen st \<noteq> 0" using assms bulkLen_nonzero [of n] by simp
  ultimately have "parse_iter \<lparr>unread = p, read_err = EOF\<rparr> st =
      Inr (Last \<lparr>Data = None, Err = Some (if p \<noteq> [] then ErrUnexpectedEOF else EOF)\<rparr>)"
    using assms(4) by (simp add: parse_iter_def readLine_def ReadFull_def)
  from parse_loop_Last [OF this] show ?thesis by (simp add: cut_off_def)
qed

text \<open>A cut of a line and what follows it is inside the line or behind it.\<close>

lemma cut_line:
  assumes "p @ q = line @ CRLF @ rest" and "LF \<notin> set line"
  obtains (inside) "LF \<notin> set p" "length p < length line + 2"
  | (behind) p' where "p = line @ CRLF @ p'" "p' @ q = rest"
proof (cases "length p < length line + 2")
  case True
  have "p = take (length p) (line @ CRLF @ rest)" using assms(1) by (metis append_eq_conv_conj)
  then have "set p \<subseteq> set (take (Suc (length line)) (line @ CRLF @ rest))"
    using True by (metis set_take_subset_set_take less_Suc_eq_le add_2_eq_Suc')
  then have "LF \<notin> set p" using assms(2) by auto
  then show thesis using True by (rule inside)
next
  case False
  then obtain us where us: "p = line @ us" "us @ q = CRLF @ rest" "2 \<le> length us"
    using assms(1) by (auto simp: append_eq_append_conv2)
  then obtain a b p' where "us = a # b # p'" by (cases us; cases "tl us") auto
  with us show thesis using behind by simp
qed

lemma write_arg_cut:
  assumes "clean_arg a" and "length done < n" and "p @ q = write_arg a" and "q \<noteq> []"
  shows "cut_off (parse_loop \<lparr>unread = p, read_err = EOF\<rparr> (multi_state n done))"
proof -
  have a: "0 < length a" "int (length a) + 2 \<le> maxAlloc" and w: "a \<noteq> []"
    using assms(1) by (auto simp: clean_arg_def)
  have eq: "p @ q = (''$'' @ Itoa (int (length a))) @ CRLF @ (a @ CRLF)"
    using assms(3) w by (simp add: write_arg_nonempty)
  have noLF: "LF \<notin> set (''$'' @ Itoa (int (length a)))" by simp
  show ?thesis
  proof (cases rule: cut_line [OF eq noLF, case_names inside behind])
    case inside
    then show ?thesis by (intro parse_partial_line) (simp_all add: multi_state_def)
  next
    case (behind p')
    have "length p' < length a + 2"
      using arg_cong [OF behind(2), of length] assms(4) by (cases q) auto
    then have "cut_off (parse_loop \<lparr>unread = p', read_err = EOF\<rparr>
        ((multi_state n done)\<lparr>bulkLen := of_nat (length a)\<rparr>))"
      using a by (intro parse_partial_bulk [of _ "length a"]) simp_all
    then show ?thesis
      using parse_arg_length [OF a, of "multi_state n done" p' EOF] assms(2) behind(1)
      by (simp add: multi_state_def)
  qed
qed

lemma parse_args_cut:
  "\<forall>a \<in> set as. clean_arg a \<Longrightarrow> length done + length as = n \<Longrightarrow>
   p @ q = concat (map write_arg as) \<Longrightarrow> q \<noteq> [] \<Longrightarrow>
   cut_off (parse_loop \<lparr>unread = p, read_err = EOF\<rparr> (multi_state n done))"
proof (induction as arbitrary: "done" p)
  case Nil
  then show ?case by simp
next
  case (Cons a as)
  have clean: "clean_arg a" and room: "length done < n" using Cons.prems by auto
  from Cons.prems(3) have "p @ q = write_arg a @ concat (map write_arg as)" by simp
  then consider (inside) q' where "p @ q' = write_arg a" "q' \<noteq> []"
    | (behind) p' where "p = write_arg a @ p'" "p' @ q = concat (map write_arg as)"
    by (auto simp: append_eq_append_conv2) (metis append_Nil2)
  then show ?case
  proof cases
    case inside
    then show ?thesis by (rule write_arg_cut [OF clean room])
  next
    case (behind p')
    have "as \<noteq> []" using behind(2) Cons.prems(4) by auto
    then have "Suc (length done) \<noteq> n" using Cons.prems(2) by auto
    then show ?thesis
      using Cons.IH [of "done @ [a]" p'] Cons.prems behind parse_arg [OF clean room, of p' EOF] by simp
  qed
qed

lemma parse_command_cut:
  assumes "clean_cmd cmd" and "p @ q = MultiBulkReply_ToBytes cmd" and "q \<noteq> []"
  shows "cut_off (parse_loop \<lparr>unread = p, read_err = EOF\<rparr> init_state)"
proof -
  have eq: "p @ q = (''*'' @ Itoa (int (length cmd))) @ CRLF @ concat (map write_arg cmd)"
    using assms(2) by (simp add: MultiBulkReply_ToBytes_concat)
  have noLF: "LF \<notin> set (''*'' @ Itoa (int (length cmd)))" by simp
  show ?thesis
  proof (cases rule: cut_line [OF eq noLF, case_names inside behind])
    case inside
    then show ?thesis by (intro parse_partial_line) (simp_all add: init_state_def)
  next
    case (behind p')
    have "cut_off (parse_loop \<lparr>unread = p', read_err = EOF\<rparr> (multi_state (length cmd) []))"
      by (rule parse_args_cut [OF _ _ behind(2) assms(3)]) (use assms(1) in \<open>simp_all add: clean_cmd_def\<close>)
    then show ?thesis
      using parse_multi_header [of "length cmd" p' EOF] assms(1) behind(1) by (simp add: clean_cmd_def)
  qed
qed

section \<open>Inputs that silence the parser\<close>

text \<open>A bare line feed, and an empty line: both panic, so the channel is never closed.\<close>

lemma parse_bare_LF:
  "bulkLen st = 0 \<Longrightarrow>
   parse_loop \<lparr>unread = LF # rest, read_err = e\<rparr> st = ([], Abandoned IndexOutOfRange)"
proof -
  assume st: "bulkLen st = 0"
  have "ReadBytes LF \<lparr>unread = LF # rest, read_err = e\<rparr> =
      ([LF], None, \<lparr>unread = rest, read_err = e\<rparr>)"
    using ReadBytes_line [of LF "[]" rest e] by simp
  with st have "parse_iter \<lparr>unread = LF # rest, read_err = e\<rparr> st = Inl IndexOutOfRange"
    by (simp add: parse_iter_def readLine_def bad_terminator_def go_index_def)
  then show ?thesis by (rule parse_loop_panic)
qed

lemma parse_empty_line:
  assumes "bulkLen st = 0"
  shows "parse_loop \<lparr>unread = CRLF @ rest, read_err = e\<rparr> st = ([], Abandoned IndexOutOfRange)"
proof -
  have "TrimSuffix CRLF CRLF = []" using TrimSuffix_append [of "[]" CRLF] by simp
  moreover have "go_slice CRLF 0 0 = Inr []" by (simp add: go_slice_def)
  ultimately have "handle_line CRLF st = Inl IndexOutOfRange"
    by (simp add: handle_line_def parseSingleLineReply_def readBody_def)
  then have "parse_iter \<lparr>unread = CRLF @ rest, read_err = e\<rparr> st = Inl IndexOutOfRange"
    using parse_iter_line [of st "[]" rest e] assms by simp
  then show ?thesis by (rule parse_loop_panic)
qed

text \<open>
  The writer renders an empty argument as the null bulk followed by one more line end, which
  the parser reads as an argument and then an empty line.
\<close>

lemma parse_null_arg:
  assumes "length done < n"
  shows "parse_loop \<lparr>unread = nullBulkBytes @ rest, read_err = e\<rparr> (multi_state n done) =
    (if Suc (length done) = n
     then send (Some (command_payload (done @ [[]])))
            (parse_loop \<lparr>unread = rest, read_err = e\<rparr> init_state)
     else parse_loop \<lparr>unread = rest, read_err = e\<rparr> (multi_state n (done @ [[]])))"
proof -
  have "ParseInt ''-1'' = (-1, None)"
    by (simp add: ParseInt_def ParseInt_abs_def ParseUint_def is_digit_def digit_value_def)
  then have "handle_line (''$-1'' @ CRLF) (multi_state n done) =
      Inr (if Suc (length done) = n then (Some (command_payload (done @ [[]])), init_state)
           else (None, multi_state n (done @ [[]])))"
    using assms go_slice_line [of "''$-1''" CR LF]
    by (simp add: handle_line_def readBody_def multi_state_def finished_def
        command_payload_def MakeMultiBulkReply_def Let_def)
  then have "parse_iter \<lparr>unread = ''$-1'' @ CRLF @ rest, read_err = e\<rparr> (multi_state n done) =
      Inr (Next (if Suc (length done) = n then Some (command_payload (done @ [[]])) else None)
             \<lparr>unread = rest, read_err = e\<rparr>
             (if Suc (length done) = n then init_state else multi_state n (done @ [[]])))"
    by (subst parse_iter_line) (simp_all add: multi_state_def)
  from parse_loop_Next [OF this] show ?thesis by (simp add: nullBulkBytes_def)
qed

lemma write_arg_Nil [simp]: "write_arg [] = nullBulkBytes @ CRLF"
  by (simp add: write_arg_def)

lemma parse_args_prefix:
  "\<forall>a \<in> set as. clean_arg a \<Longrightarrow> length done + length as < n \<Longrightarrow>
   parse_loop \<lparr>unread = concat (map write_arg as) @ rest, read_err = e\<rparr> (multi_state n done) =
     parse_loop \<lparr>unread = rest, read_err = e\<rparr> (multi_state n (done @ as))"
proof (induction as arbitrary: "done")
  case Nil
  then show ?case by simp
next
  case (Cons a as)
  from Cons.prems Cons.IH [of "done @ [a]"] show ?case by (simp add: parse_arg)
qed

lemma parse_empty_arg_abandons:
  assumes "\<forall>a \<in> set pre. clean_arg a" and "length pre + length post + 1 < 2 ^ 32"
  shows "parse_loop \<lparr>unread = MultiBulkReply_ToBytes (pre @ [] # post) @ rest, read_err = e\<rparr> init_state =
    ((if post = [] then [command_payload (pre @ [[]])] else []), Abandoned IndexOutOfRange)"
proof -
  let ?n = "length pre + length post + 1"
  let ?tail = "CRLF @ concat (map write_arg post) @ rest"
  have "MultiBulkReply_ToBytes (pre @ [] # post) @ rest =
      ''*'' @ Itoa (int ?n) @ CRLF @ concat (map write_arg pre) @ nullBulkBytes @ ?tail"
    by (simp add: MultiBulkReply_ToBytes_concat)
  then have "parse_loop \<lparr>unread = MultiBulkReply_ToBytes (pre @ [] # post) @ rest, read_err = e\<rparr> init_state =
      parse_loop \<lparr>unread = concat (map write_arg pre) @ nullBulkBytes @ ?tail, read_err = e\<rparr> (multi_state ?n [])"
    using parse_multi_header [of ?n] assms(2) by simp
  also have "\<dots> = parse_loop \<lparr>unread = nullBulkBytes @ ?tail, read_err = e\<rparr> (multi_state ?n pre)"
    using parse_args_prefix [of pre "[]" ?n "nullBulkBytes @ ?tail" e] assms(1) by simp
  also have "\<dots> = ((if post = [] then [command_payload (pre @ [[]])] else []), Abandoned IndexOutOfRange)"
    using parse_null_arg [of pre ?n ?tail e]
      parse_empty_line [of init_state "concat (map write_arg post) @ rest" e]
      parse_empty_line [of "multi_state ?n (pre @ [[]])" "concat (map write_arg post) @ rest" e]
    by (cases post) (simp_all add: init_state_def multi_state_def)
  finally show ?thesis .
qed

section \<open>Invariant of the parser state\<close>

definition no_dollar :: "bytes \<Rightarrow> bool" where
  "no_dollar a \<longleftrightarrow> (case a of [] \<Rightarrow> True | c # _ \<Rightarrow> c \<noteq> CHR ''$'')"

definition state_inv :: "readState \<Rightarrow> bool" where
  "state_inv st \<longleftrightarrow>
     (if readingMutiLine st then
        0 < expectedArgsCount st \<and> expectedArgsCount st < 2 ^ 32 \<and>
        int (length (args st)) < expectedArgsCount st \<and>
        msgType st \<in> {CHR ''*'', CHR ''$''} \<and>
        (\<forall>a \<in> set (args st). no_dollar a) \<and> 0 \<le> sint (bulkLen st)
      else st = init_state)"

text \<open>What a payload may carry.\<close>

definition payload_ok :: "payload \<Rightarrow> bool" where
  "payload_ok p \<longleftrightarrow>
     (case Data p of
        None \<Rightarrow> True
      | Some r \<Rightarrow> Err p = None \<and>
          (case r of
             MultiBulkReply as \<Rightarrow> as \<noteq> [] \<and> length as < 2 ^ 32 \<and> (\<forall>a \<in> set as. no_dollar a)
           | EmptyMutiBulkReply \<Rightarrow> True | NullBulkReply \<Rightarrow> True
           | StatusReply s \<Rightarrow> True | StandardErrReply s \<Rightarrow> True | IntReply i \<Rightarrow> True
           | _ \<Rightarrow> False))"

lemma state_inv_init [simp]: "state_inv init_state"
  by (simp add: state_inv_def init_state_def)

lemma ParseUint_32_bound: "ParseUint s 32 = (n, None) \<Longrightarrow> n < 2 ^ 32"
proof -
  have "ParseUint_loop M m s = (n, None) \<Longrightarrow> m \<le> M \<Longrightarrow> n \<le> M" for M m
    by (induction M m s rule: ParseUint_loop.induct) (auto simp: Let_def split: if_splits)
  then show "ParseUint s 32 = (n, None) \<Longrightarrow> n < 2 ^ 32"
    by (fastforce simp: ParseUint_def split: if_splits)
qed

lemma parseMutiBulkHeader_inv:
  assumes "parseMutiBulkHeader msg st = Inr (None, st')" and "expectedArgsCount st' \<noteq> 0"
    and "st = init_state" and "hd msg = CHR ''*''"
  shows "state_inv st'"
proof -
  obtain num where "go_slice msg 1 (int (length msg) - 2) = Inr num"
    using assms(1) by (auto simp: parseMutiBulkHeader_def go_bind_eq_Inr)
  moreover obtain n e where pu: "ParseUint num 32 = (n, e)" by (cases "ParseUint num 32")
  ultimately have "e = None" using assms(1) by (cases e) (auto simp: parseMutiBulkHeader_def)
  with pu have "n < 2 ^ 32" using ParseUint_32_bound by blast
  with \<open>go_slice _ _ _ = _\<close> pu \<open>e = None\<close> assms show ?thesis
    by (cases msg) (auto simp: parseMutiBulkHeader_def state_inv_def init_state_def
        split: if_splits)
qed

lemma parseBulkHeader_inv:
  assumes "parseBulkHeader msg st = Inr (None, st')" and "sint (bulkLen st') \<noteq> -1"
    and "st = init_state" and "hd msg = CHR ''$''"
  shows "state_inv st'"
proof -
  obtain num where "go_slice msg 1 (int (length msg) - 2) = Inr num"
    using assms(1) by (auto simp: parseBulkHeader_def go_bind_eq_Inr)
  moreover obtain v e where "ParseInt num = (v, e)" by (cases "ParseInt num")
  ultimately show ?thesis using assms
    by (cases msg) (auto simp: parseBulkHeader_def state_inv_def init_state_def Let_def
        split: if_splits)
qed

text \<open>The two ways \<open>readBody\<close> succeeds: a length was read, or an argument was stored.\<close>

lemma readBody_cases:
  assumes "readBody msg st = Inr (None, st')"
  obtains (len) n where "0 < sint n" "st' = st\<lparr>bulkLen := n\<rparr>"
    | (arg) a n where "no_dollar a" "st' = st\<lparr>args := args st @ [a], bulkLen := n\<rparr>"
        "n = bulkLen st \<or> n = 0"
proof -
  obtain line where sl: "go_slice msg 0 (int (length msg) - 2) = Inr line"
    using assms by (auto simp: readBody_def go_bind_eq_Inr)
  obtain c0 where c0: "go_index line 0 = Inr c0"
    using assms sl by (auto simp: readBody_def go_bind_eq_Inr)
  show thesis
  proof (cases "c0 = CHR ''$''")
    case True
    obtain v e where pi: "ParseInt (tl line) = (v, e)" by (cases "ParseInt (tl line)")
    show thesis
    proof (cases "sint (word_of_int v :: int64) \<le> 0")
      case le: True
      with assms sl c0 True pi have "st' = st\<lparr>args := args st @ [[]], bulkLen := 0\<rparr>"
        by (auto simp: readBody_def Let_def split: if_splits)
      then show thesis by (intro arg [of "[]" 0]) (simp_all add: no_dollar_def)
    next
      case gt: False
      with assms sl c0 True pi show thesis
        by (intro len [of "word_of_int v"]) (auto simp: readBody_def Let_def split: if_splits)
    qed
  next
    case False
    with assms sl c0 have "st' = st\<lparr>args := args st @ [line]\<rparr>" by (simp add: readBody_def)
    moreover have "no_dollar line" using c0 False by (cases line) (auto simp: no_dollar_def)
    ultimately show thesis by (intro arg [of line "bulkLen st"]) simp_all
  qed
qed

lemma readBody_inv:
  assumes "readBody msg st = Inr (None, st')" and "state_inv st" and "readingMutiLine st"
    and "\<not> finished st'"
  shows "state_inv st'"
  using assms(1)
proof (cases rule: readBody_cases)
  case (len n)
  with assms show ?thesis by (simp add: state_inv_def)
next
  case (arg a n)
  with assms show ?thesis by (auto simp: state_inv_def finished_def)
qed

lemma readBody_finished:
  assumes "readBody msg st = Inr (None, st')" and "state_inv st" and "readingMutiLine st"
    and "finished st'"
  shows "payload_ok \<lparr>Data = Some (MultiBulkReply (args st')), Err = None\<rparr>"
  using assms(1)
proof (cases rule: readBody_cases)
  case (len n)
  with assms show ?thesis by (auto simp: state_inv_def finished_def payload_ok_def)
next
  case (arg a n)
  with assms show ?thesis by (auto simp: state_inv_def finished_def payload_ok_def)
qed

lemma payload_ok_simps [simp]:
  "payload_ok \<lparr>Data = None, Err = e\<rparr>"
  "payload_ok \<lparr>Data = Some EmptyMutiBulkReply, Err = None\<rparr>"
  "payload_ok \<lparr>Data = Some NullBulkReply, Err = None\<rparr>"
  by (simp_all add: payload_ok_def)

lemma parseSingleLineReply_ok:
  "parseSingleLineReply msg = Inr (r, err) \<Longrightarrow> payload_ok \<lparr>Data = r, Err = err\<rparr>"
  by (auto simp: parseSingleLineReply_def go_bind_eq_Inr payload_ok_def Let_def MakeErrReply_def
      MakeIntReply_def split: prod.splits option.splits if_splits)

lemma handle_line_inv:
  assumes "handle_line msg st = Inr (p, st')" and "state_inv st"
  shows "state_inv st' \<and> (\<forall>x. p = Some x \<longrightarrow> payload_ok x)"
proof (cases "readingMutiLine st")
  case True
  obtain e st1 where "readBody msg st = Inr (e, st1)"
    using assms(1) True by (auto simp: handle_line_def go_bind_eq_Inr)
  with True assms show ?thesis
    by (auto simp: handle_line_def protocol_err_def MakeMultiBulkReply_def
        dest: readBody_inv readBody_finished split: if_splits)
next
  case False
  then have "st = init_state" using assms(2) by (simp add: state_inv_def)
  moreover obtain c msg' where "msg = c # msg'"
    using assms(1) False by (cases msg) (auto simp: handle_line_def)
  ultimately show ?thesis using assms(1) False
    by (auto simp: handle_line_def go_bind_eq_Inr protocol_err_def
        dest: parseMutiBulkHeader_inv parseBulkHeader_inv parseSingleLineReply_ok
        split: if_splits)
qed

section \<open>Every iteration\<close>

lemma bad_terminator_False:
  "bad_terminator msg = Inr False \<Longrightarrow> \<exists>line. msg = line @ CRLF"
proof -
  assume ok: "bad_terminator msg = Inr False"
  then have "2 \<le> length msg"
    by (cases msg rule: rev_cases; cases "butlast msg" rule: rev_cases)
      (auto simp: bad_terminator_def go_index_def split: if_splits)
  then obtain line a b where msg: "msg = line @ [a, b]" using split_last2 by blast
  with ok show ?thesis using go_index_append2 [of line a b]
    by (auto simp: bad_terminator_def split: if_splits)
qed

text \<open>What one iteration that does not panic can do.\<close>

lemma parse_iter_Inr_cases:
  assumes "parse_iter rd st = Inr it" and "state_inv st"
  obtains (io) x where "it = Last x" "Data x = None"
      "Err x = Some (read_err rd) \<or> Err x = Some ErrUnexpectedEOF"
    | (bad) rd' e where "it = Next (Some \<lparr>Data = None, Err = Some e\<rparr>) rd' init_state"
        "e = err_crlf \<or> e = err_bulk_crlf" "read_err rd' = read_err rd"
    | (line) line rd' st1 p st' where "it = Next p rd' st'" "state_inv st1"
        "handle_line (line @ CRLF) st1 = Inr (p, st')" "read_err rd' = read_err rd"
proof -
  obtain msg ioE err rd1 st1 where rl: "readLine rd st = Inr ((msg, ioE, err), rd1, st1)"
    using assms(1) by (cases "readLine rd st") (auto simp: parse_iter_def)
  have err1: "read_err rd1 = read_err rd"
    using rl by (auto simp: readLine_def go_bind_eq_Inr ReadBytes_def ReadFull_def Let_def
        split: if_splits)
  show thesis
  proof (cases err)
    case None
    then have "bad_terminator msg = Inr False" "st1 = st \<or> st1 = st\<lparr>bulkLen := 0\<rparr>"
      using rl by (auto simp: readLine_def go_bind_eq_Inr ReadBytes_def ReadFull_def Let_def
          split: if_splits)
    moreover from this have "state_inv st1"
      using assms(2) by (auto simp: state_inv_def init_state_def split: if_splits)
    ultimately show thesis using rl None assms(1) err1 bad_terminator_False [of msg]
      by (auto simp: parse_iter_def go_bind_eq_Inr intro: line)
  next
    case (Some e)
    show thesis
    proof (cases ioE)
      case True
      then have "e = read_err rd \<or> e = ErrUnexpectedEOF"
        using rl Some by (auto simp: readLine_def go_bind_eq_Inr ReadBytes_def ReadFull_def Let_def
            split: if_splits)
      with True Some rl assms(1) show thesis by (auto simp: parse_iter_def intro: io)
    next
      case False
      then have "e = err_crlf \<or> e = err_bulk_crlf"
        using rl Some by (auto simp: readLine_def go_bind_eq_Inr ReadBytes_def ReadFull_def Let_def
            split: if_splits)
      with False Some rl assms(1) err1 show thesis by (auto simp: parse_iter_def intro: bad)
    qed
  qed
qed

lemma parse_iter_inv:
  assumes "parse_iter rd st = Inr (Next p rd' st')" and "state_inv st"
  shows "state_inv st' \<and> (\<forall>x. p = Some x \<longrightarrow> payload_ok x)"
  using assms by (cases rule: parse_iter_Inr_cases) (auto dest: handle_line_inv)

lemma parse_loop_payloads:
  "state_inv st \<Longrightarrow> parse_loop rd st = (ps, fin) \<Longrightarrow> x \<in> set ps \<Longrightarrow> payload_ok x"
proof (induction rd st arbitrary: ps fin rule: parse_loop.induct)
  case (1 rd st)
  show ?case
  proof (cases "parse_iter rd st")
    case (Inl p)
    with "1.prems" parse_loop_panic [OF Inl] show ?thesis by simp
  next
    case it: (Inr it)
    show ?thesis
    proof (cases it)
      case (Last y)
      have "payload_ok y"
        using it Last "1.prems"(1) by (auto elim: parse_iter_Inr_cases simp: payload_ok_def)
      with it Last "1.prems" parse_loop_Last [of rd st y] show ?thesis by auto
    next
      case (Next p rd' st')
      obtain ps' fin' where rec: "parse_loop rd' st' = (ps', fin')" by (cases "parse_loop rd' st'")
      have inv: "state_inv st'" "\<forall>y. p = Some y \<longrightarrow> payload_ok y"
        using parse_iter_inv [of rd st p rd' st'] it Next "1.prems"(1) by auto
      have "x \<in> set ps' \<Longrightarrow> payload_ok x" using "1.IH" [OF it Next inv(1) rec] by blast
      with it Next rec inv "1.prems" parse_loop_Next [of rd st p rd' st'] show ?thesis
        by (cases p) auto
    qed
  qed
qed

section \<open>Exactly which inputs panic\<close>

text \<open>The states the loop can be in at the top of an iteration, for one input stream.\<close>

inductive parse_reach :: "reader \<Rightarrow> reader \<Rightarrow> readState \<Rightarrow> bool" for rd0 where
  start: "parse_reach rd0 rd0 init_state"
| step: "parse_reach rd0 rd st \<Longrightarrow> parse_iter rd st = Inr (Next p rd' st') \<Longrightarrow> parse_reach rd0 rd' st'"

lemma parse_reach_inv: "parse_reach rd0 rd st \<Longrightarrow> state_inv st"
proof (induction rule: parse_reach.induct)
  case start
  show ?case by simp
next
  case (step rd st p rd' st')
  with parse_iter_inv [OF step.hyps(2)] show ?case by simp
qed

lemma handle_line_panic_iff:
  assumes "state_inv st"
  shows "handle_line (line @ CRLF) st = Inl p \<longleftrightarrow> line = [] \<and> p = IndexOutOfRange"
proof (cases line)
  case Nil
  have "TrimSuffix CRLF CRLF = []" using TrimSuffix_append [of "[]" CRLF] by simp
  moreover have "go_slice CRLF 0 0 = Inr []" by (simp add: go_slice_def)
  ultimately show ?thesis using Nil
    by (auto simp: handle_line_def parseSingleLineReply_def readBody_def)
next
  case (Cons c cs)
  have trim: "TrimSuffix (c # cs @ CRLF) CRLF = c # cs"
    using TrimSuffix_append [of "c # cs" CRLF] by simp
  have slice: "go_slice (c # cs @ CRLF) 0 (1 + int (length cs)) = Inr (c # cs)"
    using line_slices(2) [of "c # cs" CR LF] by (simp add: add.commute)
  show ?thesis
    using Cons trim slice
    by (auto simp: handle_line_def go_bind_eq_Inl parseMutiBulkHeader_def parseBulkHeader_def
        parseSingleLineReply_def readBody_def Let_def split: prod.splits option.splits if_splits)
qed

lemma make_bulk:
  assumes "0 < sint (n :: int64)"
  shows "make_bytes (sint (n + 2)) =
    (if sint n + 2 \<le> maxAlloc then Inr (nat (sint n) + 2) else Inl MakeSliceLen)"
proof -
  define i where "i = sint n"
  have n: "n = word_of_int i" by (simp add: i_def)
  have i: "0 < i" "i < 2 ^ 63" using assms sint_lt [of n] by (simp_all add: i_def)
  have n2: "n + 2 = word_of_int (i + 2)" by (simp add: n)
  show ?thesis
  proof (cases "i + 2 < 2 ^ 63")
    case True
    with i n2 sint_word_of_int_64 [of "i + 2"] have "sint (n + 2) = i + 2" by simp
    with i show ?thesis by (simp add: make_bytes_def i_def [symmetric] nat_add_distrib)
  next
    case False
    have "word_of_int (i + 2) = (word_of_int (i + 2 - 2 ^ 64) :: int64)"
      by (simp add: word_of_int_eq_iff take_bit_eq_mod)
    with n2 have "n + 2 = word_of_int (i + 2 - 2 ^ 64)" by (rule trans)
    then have "sint (n + 2) = i + 2 - 2 ^ 64"
      using i False by (simp only:) (rule sint_word_of_int_64, simp_all)
    with i False show ?thesis by (simp add: make_bytes_def i_def [symmetric] maxAlloc_def)
  qed
qed

lemma bad_terminator_panic_iff: "bad_terminator msg = Inl p \<longleftrightarrow> length msg = 1 \<and> p = IndexOutOfRange"
  by (cases msg; cases "tl msg") (auto simp: bad_terminator_def go_index_def split: if_splits)

lemma not_LF_first: "LF \<notin> set l \<Longrightarrow> c \<noteq> LF \<Longrightarrow> l @ c # r \<noteq> LF # r'"
  by (cases l) auto

lemma parse_iter_panic_iff:
  assumes "state_inv st"
  shows "parse_iter rd st = Inl p \<longleftrightarrow>
    (if bulkLen st = 0
     then p = IndexOutOfRange \<and> (\<exists>rest. unread rd = LF # rest \<or> unread rd = CRLF @ rest)
     else p = MakeSliceLen \<and> maxAlloc < sint (bulkLen st) + 2)"
proof (cases "bulkLen st = 0")
  case bulk0: True
  obtain inp e where rd: "rd = \<lparr>unread = inp, read_err = e\<rparr>" by (cases rd)
  show ?thesis
  proof (cases "LF \<in> set inp")
    case False
    then have "ReadBytes LF rd = (inp, Some e, \<lparr>unread = [], read_err = e\<rparr>)"
      by (simp add: ReadBytes_no_delim rd)
    then have "parse_iter rd st \<noteq> Inl p"
      using bulk0 by (simp add: parse_iter_def readLine_def)
    moreover have "inp \<noteq> LF # rest \<and> inp \<noteq> CRLF @ rest" for rest using False by auto
    ultimately show ?thesis using bulk0 rd by simp
  next
    case True
    then obtain pre rest where inp: "inp = pre @ LF # rest" "LF \<notin> set pre"
      using split_list_first by metis
    then have read: "ReadBytes LF rd = (pre @ [LF], None, \<lparr>unread = rest, read_err = e\<rparr>)"
      using ReadBytes_line rd by blast
    show ?thesis
    proof (cases pre rule: rev_cases)
      case Nil
      with inp rd bulk0 parse_loop_panic show ?thesis using read
        by (auto simp: parse_iter_def readLine_def bad_terminator_def go_index_def)
    next
      case (snoc line c)
      show ?thesis
      proof (cases "c = CR")
        case True
        with snoc inp rd have "rd = \<lparr>unread = line @ CRLF @ rest, read_err = e\<rparr>" "LF \<notin> set line"
          by auto
        then show ?thesis
          using not_LF_first [of _ CR "LF # rest"] bulk0 parse_iter_line [of st line rest e] handle_line_panic_iff [OF assms, of line p]
          by (cases line) (auto simp: go_bind_eq_Inl)
      next
        case False
        with snoc have "bad_terminator (pre @ [LF]) = Inr True"
          using go_index_append2 [of line c LF] by (simp add: bad_terminator_def)
        with snoc False inp rd bulk0 read not_LF_first [of _ c "LF # rest"] show ?thesis
          by (cases line) (auto simp: parse_iter_def readLine_def)
      qed
    qed
  qed
next
  case False
  then have "sint (bulkLen st) \<noteq> 0" by (metis sint_0 signed_word_eqI)
  with False have pos: "0 < sint (bulkLen st)"
    using assms by (auto simp: state_inv_def init_state_def order_le_less split: if_splits)
  show ?thesis
  proof (cases "sint (bulkLen st) + 2 \<le> maxAlloc")
    case False
    with \<open>bulkLen st \<noteq> 0\<close> pos show ?thesis
      by (auto simp: parse_iter_def readLine_def make_bulk)
  next
    case True
    obtain m e rd' where rf: "ReadFull (nat (sint (bulkLen st)) + 2) rd = (m, e, rd')"
      by (cases "ReadFull (nat (sint (bulkLen st)) + 2) rd")
    have "parse_iter rd st \<noteq> Inl p"
    proof (cases e)
      case (Some x)
      with rf True pos False show ?thesis by (simp add: parse_iter_def readLine_def make_bulk)
    next
      case None
      with rf have len: "length m = nat (sint (bulkLen st)) + 2" using ReadFull_length by blast
      then have "bad_terminator m \<noteq> Inl q" for q by (simp add: bad_terminator_panic_iff)
      then obtain bad where bad: "bad_terminator m = Inr bad" by (cases "bad_terminator m") auto
      have "state_inv (st\<lparr>bulkLen := 0\<rparr>)"
        using assms by (auto simp: state_inv_def init_state_def split: if_splits)
      from handle_line_panic_iff [OF this] len pos bad bad_terminator_False [of m]
      have "\<not> bad \<Longrightarrow> handle_line m (st\<lparr>bulkLen := 0\<rparr>) \<noteq> Inl p" by auto
      with rf None True pos False bad show ?thesis
        by (auto simp: parse_iter_def readLine_def make_bulk go_bind_eq_Inl)
    qed
    with True False show ?thesis by simp
  qed
qed

lemma parseMutiBulkHeader_err:
  assumes "parseMutiBulkHeader msg st = Inr (Some e, st')"
  shows "\<exists>s. e = ErrorString s"
proof -
  obtain num where "go_slice msg 1 (int (length msg) - 2) = Inr num"
    using assms by (auto simp: parseMutiBulkHeader_def go_bind_eq_Inr)
  moreover obtain n err where "ParseUint num 32 = (n, err)" by (cases "ParseUint num 32")
  ultimately show ?thesis using assms
    by (cases err) (auto simp: parseMutiBulkHeader_def go_bind_eq_Inr split: if_splits)
qed

lemma parseSingleLineReply_err:
  assumes "parseSingleLineReply msg = Inr (r, Some e)"
  shows "\<exists>s. e = ErrorString s"
proof -
  obtain v err where "ParseInt (tl (TrimSuffix msg CRLF)) = (v, err)"
    by (cases "ParseInt (tl (TrimSuffix msg CRLF))")
  then show ?thesis using assms
    by (cases err) (auto simp: parseSingleLineReply_def go_bind_eq_Inr Let_def split: if_splits)
qed

lemma handle_line_Err:
  assumes "handle_line msg st = Inr (Some y, st')"
  shows "Err y = None \<or> (\<exists>s. Err y = Some (ErrorString s))"
  using assms
  by (cases "Err y") (auto simp: handle_line_def go_bind_eq_Inr protocol_err_def
      dest!: parseMutiBulkHeader_err parseSingleLineReply_err split: if_splits)

lemma parse_loop_end:
  "state_inv st \<Longrightarrow> parse_loop rd st = (ps, Closed) \<Longrightarrow>
   ps \<noteq> [] \<and> Err (last ps) \<in> {Some (read_err rd), Some ErrUnexpectedEOF} \<and>
   (\<forall>x \<in> set (butlast ps). Err x = None \<or> (\<exists>s. Err x = Some (ErrorString s)))"
proof (induction rd st arbitrary: ps rule: parse_loop.induct)
  case (1 rd st)
  show ?case
  proof (cases "parse_iter rd st")
    case (Inl p)
    with "1.prems" parse_loop_panic [OF Inl] show ?thesis by simp
  next
    case it: (Inr it)
    show ?thesis
    proof (cases it)
      case (Last y)
      with it "1.prems"(1) have "Err y \<in> {Some (read_err rd), Some ErrUnexpectedEOF}"
        by (auto elim: parse_iter_Inr_cases)
      with it Last "1.prems" parse_loop_Last [of rd st y] show ?thesis by auto
    next
      case (Next p rd' st')
      obtain ps' fin' where rec: "parse_loop rd' st' = (ps', fin')" by (cases "parse_loop rd' st'")
      have eq: "parse_loop rd st = send p (ps', fin')"
        using it Next rec parse_loop_Next by simp
      with "1.prems"(2) have fin: "fin' = Closed" by (cases p) simp_all
      have inv: "state_inv st'" using parse_iter_inv [of rd st p rd' st'] it Next "1.prems"(1) by auto
      have "read_err rd' = read_err rd \<and>
          (\<forall>y. p = Some y \<longrightarrow> Err y = None \<or> (\<exists>s. Err y = Some (ErrorString s)))"
        using it Next "1.prems"(1)
        by (auto elim!: parse_iter_Inr_cases simp: err_crlf_def err_bulk_crlf_def
            dest: handle_line_Err)
      with "1.IH" [OF it Next inv rec [unfolded fin]] eq "1.prems"(2) show ?thesis
        by (cases p) auto
    qed
  qed
qed

section \<open>Replies read back by the client side\<close>

text \<open>
  The node-to-node client uses the same parser on the other server's replies.  \<open>received\<close>
  is the value it obtains for a reply of the other side, for the replies that are safe to
  send; a bulk string comes back as a one-element array.
\<close>

fun received :: "reply \<Rightarrow> reply" where
  "received PongReply = StatusReply ''PONG''"
| "received OkReply = StatusReply ''OK''"
| "received NullBulkReply = NullBulkReply"
| "received UnknowErrReply = StandardErrReply ''Err unknown''"
| "received (ArgNumErrReply cmd) = StandardErrReply (tl (ArgNumErr_text cmd))"
| "received SyntaxErrReply = StandardErrReply ''Err syntax error''"
| "received WrongTypeErrReply =
     StandardErrReply ''WRONGTYPE Operation against a key holding the wrong kind of value''"
| "received (ProtocolErrReply msg) = StandardErrReply (tl (ProtocolErr_text msg))"
| "received (BulkReply arg) = MultiBulkReply [arg]"
| "received (MultiBulkReply as) = (if as = [] then EmptyMutiBulkReply else MultiBulkReply as)"
| "received r = r"

fun wire_safe :: "reply \<Rightarrow> bool" where
  "wire_safe NoReply = False"
| "wire_safe EmptyMutiBulkReply = False"
| "wire_safe (ArgNumErrReply cmd) = (LF \<notin> set cmd)"
| "wire_safe (ProtocolErrReply msg) = (LF \<notin> set msg)"
| "wire_safe (BulkReply arg) = clean_arg arg"
| "wire_safe (MultiBulkReply as) = (as = [] \<or> clean_cmd as)"
| "wire_safe (StatusReply s) = (LF \<notin> set s)"
| "wire_safe (StandardErrReply s) = (LF \<notin> set s)"
| "wire_safe _ = True"

lemma parse_single_line:
  assumes "parseSingleLineReply (c # s @ CRLF) = Inr (r, err)" and "LF \<notin> set (c # s)"
    and "c \<noteq> CHR ''*''" and "c \<noteq> CHR ''$''"
  shows "parse_loop \<lparr>unread = c # s @ CRLF @ rest, read_err = e\<rparr> init_state =
    send (Some \<lparr>Data = r, Err = err\<rparr>) (parse_loop \<lparr>unread = rest, read_err = e\<rparr> init_state)"
proof -
  have "handle_line ((c # s) @ CRLF) init_state = Inr (Some \<lparr>Data = r, Err = err\<rparr>, init_state)"
    using assms by (simp add: handle_line_def init_state_def)
  then have "parse_iter \<lparr>unread = (c # s) @ CRLF @ rest, read_err = e\<rparr> init_state =
      Inr (Next (Some \<lparr>Data = r, Err = err\<rparr>) \<lparr>unread = rest, read_err = e\<rparr> init_state)"
    using assms(2) by (subst parse_iter_line) (simp_all add: init_state_def)
  from parse_loop_Next [OF this] show ?thesis by simp
qed

lemma TrimSuffix_Cons [simp]: "TrimSuffix (c # s @ CRLF) CRLF = c # s"
  using TrimSuffix_append [of "c # s" CRLF] by simp

lemma single_line_values:
  "parseSingleLineReply (CHR ''+'' # s @ CRLF) = Inr (Some (StatusReply s), None)"
  "parseSingleLineReply (CHR ''-'' # s @ CRLF) = Inr (Some (StandardErrReply s), None)"
  "parseSingleLineReply (CHR '':'' # FormatInt (sint i) @ CRLF) = Inr (Some (IntReply i), None)"
proof -
  have "ParseInt (FormatInt (sint i)) = (sint i, None)"
    using sint_ge [of i] sint_lt [of i] by (intro ParseInt_FormatInt) simp_all
  then show "parseSingleLineReply (CHR '':'' # FormatInt (sint i) @ CRLF) = Inr (Some (IntReply i), None)"
    by (simp add: parseSingleLineReply_def MakeIntReply_def)
qed (simp_all add: parseSingleLineReply_def MakeErrReply_def)

lemma FormatInt_no_LF [simp]: "LF \<notin> set (FormatInt i)"
  using Itoa_no_LF by (simp add: Itoa_def)

lemmas parse_status = parse_single_line [OF single_line_values(1)]
  and parse_error = parse_single_line [OF single_line_values(2)]
  and parse_int = parse_single_line [OF single_line_values(3)]

lemma parse_null_bulk:
  "parse_loop \<lparr>unread = nullBulkBytes @ rest, read_err = e\<rparr> init_state =
   send (Some \<lparr>Data = Some NullBulkReply, Err = None\<rparr>) (parse_loop \<lparr>unread = rest, read_err = e\<rparr> init_state)"
proof -
  have "ParseInt ''-1'' = (-1, None)"
    by (simp add: ParseInt_def ParseInt_abs_def ParseUint_def is_digit_def digit_value_def)
  then have "handle_line (''$-1'' @ CRLF) init_state =
      Inr (Some \<lparr>Data = Some NullBulkReply, Err = None\<rparr>, init_state)"
    using go_slice_tail_line [of "CHR ''$''" "''-1''" CR LF]
    by (simp add: handle_line_def parseBulkHeader_def init_state_def Let_def)
  then have "parse_iter \<lparr>unread = ''$-1'' @ CRLF @ rest, read_err = e\<rparr> init_state =
      Inr (Next (Some \<lparr>Data = Some NullBulkReply, Err = None\<rparr>) \<lparr>unread = rest, read_err = e\<rparr> init_state)"
    by (subst parse_iter_line) (simp_all add: init_state_def)
  from parse_loop_Next [OF this] show ?thesis by (simp add: nullBulkBytes_def)
qed

lemma parse_empty_array:
  "parse_loop \<lparr>unread = MultiBulkReply_ToBytes [] @ rest, read_err = e\<rparr> init_state =
   send (Some \<lparr>Data = Some EmptyMutiBulkReply, Err = None\<rparr>) (parse_loop \<lparr>unread = rest, read_err = e\<rparr> init_state)"
proof -
  have "ParseUint (format_nat 0) 32 = (0, None)" by (rule ParseUint_format_nat) simp
  then have "handle_line (CHR ''*'' # format_nat 0 @ CRLF) init_state =
      Inr (Some \<lparr>Data = Some EmptyMutiBulkReply, Err = None\<rparr>, init_state)"
    by (simp add: handle_line_def parseMutiBulkHeader_def init_state_def)
  then have "parse_iter \<lparr>unread = (CHR ''*'' # format_nat 0) @ CRLF @ rest, read_err = e\<rparr> init_state =
      Inr (Next (Some \<lparr>Data = Some EmptyMutiBulkReply, Err = None\<rparr>) \<lparr>unread = rest, read_err = e\<rparr> init_state)"
    by (subst parse_iter_line) (simp_all add: init_state_def)
  from parse_loop_Next [OF this] show ?thesis
    using Itoa_of_nat [of 0] by (simp add: MultiBulkReply_ToBytes_concat)
qed

lemma parse_bulk:
  assumes "clean_arg a"
  shows "parse_loop \<lparr>unread = BulkReply_ToBytes a @ rest, read_err = e\<rparr> init_state =
   send (Some (command_payload [a])) (parse_loop \<lparr>unread = rest, read_err = e\<rparr> init_state)"
proof -
  let ?n = "length a"
  have a: "a \<noteq> []" "hd a \<noteq> CHR ''$''" "int ?n + 2 \<le> maxAlloc"
    using assms by (auto simp: clean_arg_def)
  let ?st = "init_state\<lparr>readingMutiLine := True, msgType := CHR ''$'', expectedArgsCount := 1,
    bulkLen := of_nat ?n\<rparr>"
  have "handle_line ((CHR ''$'' # Itoa (int ?n)) @ CRLF) init_state = Inr (None, ?st)"
    using a by (simp add: handle_line_def parseBulkHeader_def init_state_def Let_def)
  then have "parse_iter \<lparr>unread = (CHR ''$'' # Itoa (int ?n)) @ CRLF @ a @ CRLF @ rest, read_err = e\<rparr> init_state =
      Inr (Next None \<lparr>unread = a @ CRLF @ rest, read_err = e\<rparr> ?st)"
    by (subst parse_iter_line) (simp_all add: init_state_def)
  from parse_loop_Next [OF this]
  have 1: "parse_loop \<lparr>unread = BulkReply_ToBytes a @ rest, read_err = e\<rparr> init_state =
      parse_loop \<lparr>unread = a @ CRLF @ rest, read_err = e\<rparr> ?st"
    using a by (simp add: BulkReply_ToBytes_def)
  have "readLine \<lparr>unread = a @ CRLF @ rest, read_err = e\<rparr> ?st =
      Inr ((a @ CRLF, False, None), \<lparr>unread = rest, read_err = e\<rparr>, ?st\<lparr>bulkLen := 0\<rparr>)"
    using readLine_bulk [of ?st a rest e] a by simp
  moreover have "handle_line (a @ CRLF) (?st\<lparr>bulkLen := 0\<rparr>) = Inr (Some (command_payload [a]), init_state)"
    using a by (simp add: handle_line_def readBody_data finished_def init_state_def
        command_payload_def MakeMultiBulkReply_def)
  ultimately have "parse_iter \<lparr>unread = a @ CRLF @ rest, read_err = e\<rparr> ?st =
      Inr (Next (Some (command_payload [a])) \<lparr>unread = rest, read_err = e\<rparr> init_state)"
    by (simp add: parse_iter_def)
  from parse_loop_Next [OF this] 1 show ?thesis by simp
qed

lemma parse_reply:
  assumes "wire_safe r"
  shows "parse_loop \<lparr>unread = ToBytes r @ rest, read_err = e\<rparr> init_state =
    send (Some \<lparr>Data = Some (received r), Err = None\<rparr>)
      (parse_loop \<lparr>unread = rest, read_err = e\<rparr> init_state)"
proof (cases r)
  case PongReply
  then show ?thesis using parse_status [of "''PONG''" rest e] by (simp add: pongBytes_def)
next
  case OkReply
  then show ?thesis using parse_status [of "''OK''" rest e] by (simp add: okBytes_def)
next
  case NullBulkReply
  then show ?thesis using parse_null_bulk [of rest e] by simp
next
  case UnknowErrReply
  then show ?thesis using parse_error [of "''Err unknown''" rest e] by (simp add: unknownErrBytes_def)
next
  case (ArgNumErrReply s)
  then show ?thesis using assms parse_error [of "tl (ArgNumErr_text s)" rest e]
    by (simp add: ArgNumErr_text_def)
next
  case SyntaxErrReply
  then show ?thesis using parse_error [of "''Err syntax error''" rest e] by (simp add: syntaxErrBytes_def)
next
  case WrongTypeErrReply
  then show ?thesis
    using parse_error [of "''WRONGTYPE Operation against a key holding the wrong kind of value''" rest e]
    by (simp add: wrongTypeErrBytes_def)
next
  case (ProtocolErrReply s)
  then show ?thesis using assms parse_error [of "tl (ProtocolErr_text s)" rest e]
    by (simp add: ProtocolErr_text_def)
next
  case (BulkReply a)
  then show ?thesis using assms parse_bulk [of a rest e] by (simp add: command_payload_def)
next
  case (MultiBulkReply as)
  then show ?thesis using assms parse_command [of as rest e] parse_empty_array [of rest e]
    by (auto simp: command_payload_def)
next
  case (StatusReply s)
  then show ?thesis using assms parse_status [of s rest e] by (simp add: StatusReply_ToBytes_def)
next
  case (IntReply i)
  then show ?thesis using parse_int [of i rest e] by (simp add: IntReply_ToBytes_def)
next
  case (StandardErrReply s)
  then show ?thesis using assms parse_error [of s rest e] by (simp add: StandardErrReply_ToBytes_def)
qed (use assms in simp_all)

section \<open>Properties\<close>

text \<open>
  C9 (pipelined_commands_parse). Any sequence of commands written with
  \<^verbatim>\<open>MultiBulkReply.ToBytes\<close>, back to back, is parsed into exactly those commands, in
  order, then the reader's end is reported and the channel closed; every argument must be
  non-empty, must not start with a dollar sign, and its buffer must be allocatable.
\<close>

theorem pipelined_commands_parse:
  assumes "\<forall>cmd \<in> set cmds. clean_cmd cmd"
  shows "ParseStream \<lparr>unread = concat (map (\<lambda>cmd. ToBytes (MultiBulkReply cmd)) cmds), read_err = e\<rparr> =
    (map command_payload cmds @ [\<lparr>Data = None, Err = Some e\<rparr>], Closed)"
  using parse_commands [OF assms, of "[]" e] by (simp add: ParseStream_def parse0_def)

theorem pipelined_commands_parse_witness:
  "ParseStream \<lparr>unread = concat (map (\<lambda>cmd. ToBytes (MultiBulkReply cmd))
       [[''SET'', ''k'', ''v w''], [''GET'', ''k'']]), read_err = EOF\<rparr> =
    (map command_payload [[''SET'', ''k'', ''v w''], [''GET'', ''k'']] @
       [\<lparr>Data = None, Err = Some EOF\<rparr>], Closed)"
  by (rule pipelined_commands_parse) (simp add: clean_cmd_def clean_arg_def maxAlloc_def)

text \<open>
  C31 (replies_parse_back). A server reply that is safe to send is read by the other node's parser
  as \<open>received\<close>, and the parser goes on with the bytes behind it in its initial state.
  Status lines, errors and integers keep their value, a bulk string turns into a one-element
  array.
\<close>

theorem replies_parse_back:
  assumes "wire_safe r"
  shows "parse_loop \<lparr>unread = ToBytes r @ rest, read_err = e\<rparr> init_state =
    (\<lparr>Data = Some (received r), Err = None\<rparr> # fst (parse_loop \<lparr>unread = rest, read_err = e\<rparr> init_state),
     snd (parse_loop \<lparr>unread = rest, read_err = e\<rparr> init_state))"
  using parse_reply [OF assms] by simp

theorem replies_parse_back_witness:
  "parse_loop \<lparr>unread = ToBytes (BulkReply ''hello'') @ [], read_err = EOF\<rparr> init_state =
    ([\<lparr>Data = Some (MultiBulkReply [''hello'']), Err = None\<rparr>, \<lparr>Data = None, Err = Some EOF\<rparr>], Closed)"
  by (subst replies_parse_back) (simp_all add: clean_arg_def maxAlloc_def)

text \<open>
  C26 (payloads_well_formed). Whatever bytes arrive, no payload the parser sends has both a reply and an
  error, its reply, when it has one, is one of the six kinds the protocol can produce, and a command has
  at least one argument, fewer than \<open>2 ^ 32\<close>, none of which starts with a dollar sign.
\<close>

theorem payloads_well_formed: "list_all payload_ok (fst (ParseStream rd))"
  using parse_loop_payloads [of init_state rd]
  by (cases "parse_loop rd init_state") (auto simp: list_all_iff ParseStream_def parse0_def)

text \<open>
  C16 (parser_panics_exactly). At the top of any iteration the loop can reach, the parser panics in exactly three
  situations: a line that is only a line feed, a line that is empty, or a bulk length whose
  buffer cannot be allocated.  Every other input is handled without a panic.
\<close>

theorem parser_panics_exactly:
  assumes "parse_reach rd0 rd st"
  shows "parse_iter rd st = Inl p \<longleftrightarrow>
    (if bulkLen st = 0
     then p = IndexOutOfRange \<and> (\<exists>rest. unread rd = LF # rest \<or> unread rd = CRLF @ rest)
     else p = MakeSliceLen \<and> maxAlloc < sint (bulkLen st) + 2)"
  using assms by (intro parse_iter_panic_iff parse_reach_inv)

theorem parser_panics_exactly_witness:
  "parse_iter \<lparr>unread = CRLF, read_err = EOF\<rparr> init_state = Inl IndexOutOfRange"
  using parser_panics_exactly [OF parse_reach.start, of "\<lparr>unread = CRLF, read_err = EOF\<rparr>" IndexOutOfRange]
  by (simp add: init_state_def)

text \<open>
  When the channel is closed, the last payload is the reader's own error (or the
  unexpected-EOF error inside a bulk), and every payload before it carries no error or a
  protocol error of the parser: an I/O error is reported once, and last.
\<close>

theorem closed_stream_ends_with_io_error:
  assumes "ParseStream rd = (ps, Closed)"
  shows "ps \<noteq> [] \<and> Err (last ps) \<in> {Some (read_err rd), Some ErrUnexpectedEOF} \<and>
    list_all (\<lambda>x. Err x = None \<or> (\<exists>s. Err x = Some (ErrorString s))) (butlast ps)"
  using parse_loop_end [of init_state rd ps] assms
  by (simp add: ParseStream_def parse0_def list_all_iff)

theorem closed_stream_ends_with_io_error_witness:
  "[\<lparr>Data = None, Err = Some EOF\<rparr>] \<noteq> [] \<and>
   Err (last [\<lparr>Data = None, Err = Some EOF\<rparr>]) \<in> {Some (read_err \<lparr>unread = [], read_err = EOF\<rparr>), Some ErrUnexpectedEOF} \<and>
   list_all (\<lambda>x. Err x = None \<or> (\<exists>s. Err x = Some (ErrorString s))) (butlast [\<lparr>Data = None, Err = Some EOF\<rparr>])"
  by (rule closed_stream_ends_with_io_error) (simp add: ParseStream_def parse0_def)

text \<open>
  A command with an empty argument does not survive \<^verbatim>\<open>ToBytes\<close>: the writer emits
  the null bulk and one line end too many, the parser panics on it, and everything behind
  the command is lost on a channel that is never closed.
\<close>

theorem empty_argument_silences_parser:
  assumes "\<forall>a \<in> set pre. clean_arg a" and "length pre + length post + 1 < 2 ^ 32"
  shows "ParseStream \<lparr>unread = ToBytes (MultiBulkReply (pre @ [] # post)) @ rest, read_err = e\<rparr> =
    ((if post = [] then [command_payload (pre @ [[]])] else []), Abandoned IndexOutOfRange)"
  using parse_empty_arg_abandons [OF assms] by (simp add: ParseStream_def parse0_def)

theorem empty_argument_silences_parser_witness:
  "ParseStream \<lparr>unread = ToBytes (MultiBulkReply ([''set'', ''k''] @ [] # [])) @
      ToBytes (MultiBulkReply [''set'', ''a'', ''b'']), read_err = EOF\<rparr> =
    (if ([] :: bytes list) = [] then [command_payload ([''set'', ''k''] @ [[]])] else [],
     Abandoned IndexOutOfRange)"
  by (rule empty_argument_silences_parser) (simp_all add: clean_arg_def maxAlloc_def)

end
