(* ===== verification/Wildcard.thy ===== *)
theory Wildcard
  imports GoLib
begin

text \<open>
  \<^verbatim>\<open>lib/wildcard/wildcard.go\<close>: patterns with \<open>*\<close>, \<open>?\<close> and bracketed sets, as KEYS uses
  them.  \<open>CompilePattern\<close> turns the pattern text into items, one code point at a time,
  and \<open>IsMatch\<close> fills the dynamic-programming table of the source cell by cell.  The
  reference meaning is \<open>matches\<close>: the string is cut into one segment per item, where a
  star takes any segment and every other item takes one byte it accepts.
\<close>

section \<open>Items\<close>

datatype typeCode = normal | all | any | setSymbol | rangSymbol | negSymbol

text \<open>The constants are numbered by \<^verbatim>\<open>iota\<close>, and the source compares them.\<close>

primrec iota :: "typeCode \<Rightarrow> nat" where
  "iota normal = 0"
| "iota all = 1"
| "iota any = 2"
| "iota setSymbol = 3"
| "iota rangSymbol = 4"
| "iota negSymbol = 5"

lemma iota_inject: "iota a = iota b \<longleftrightarrow> a = b"
  by (cases a; cases b) simp_all

instantiation typeCode :: linorder
begin

definition less_eq_typeCode :: "typeCode \<Rightarrow> typeCode \<Rightarrow> bool" where
  "less_eq_typeCode a b \<longleftrightarrow> iota a \<le> iota b"

definition less_typeCode :: "typeCode \<Rightarrow> typeCode \<Rightarrow> bool" where
  "less_typeCode a b \<longleftrightarrow> iota a < iota b"

instance
  by standard (auto simp: less_eq_typeCode_def less_typeCode_def iota_inject)

end

text \<open>
  A \<^verbatim>\<open>map[byte]bool\<close> is used as a set of bytes: the list of its keys, in the order the
  \<^verbatim>\<open>range\<close> loop happens to visit them.
\<close>

record item =
  character :: byte
  cset :: "byte list"
  code :: typeCode

definition min_step :: "byte \<Rightarrow> nat \<times> nat \<Rightarrow> nat \<times> nat" where
  "min_step k b =
     (let (mn, mx) = b;
          mn = (if mn > of_char k then of_char k else mn);
          mx = (if mx < of_char k then of_char k else mx)
      in (mn, mx))"

definition contains :: "item \<Rightarrow> byte \<Rightarrow> bool" where
  "contains i c =
     (if code i = setSymbol then c \<in> set (cset i)
      else if code i = rangSymbol then
        (if c \<in> set (cset i) then True
         else (let (mn, mx) = fold min_step (cset i) (255, 0)
               in mn \<le> of_char c \<and> of_char c \<le> mx))
      else c \<notin> set (cset i))"

section \<open>CompilePattern\<close>

record compiling =
  items :: "item list"
  escape :: bool
  inSet :: bool
  cur :: "byte list"

definition plain_item :: "typeCode \<Rightarrow> byte \<Rightarrow> item" where
  "plain_item t c = \<lparr>character = c, cset = [], code = t\<rparr>"

definition close_set :: "byte list \<Rightarrow> item" where
  "close_set s =
     (let (t, s) = (if CHR ''-'' \<in> set s then (rangSymbol, removeAll (CHR ''-'') s) else (setSymbol, s));
          (t, s) = (if CHR ''^'' \<in> set s then (negSymbol, removeAll (CHR ''^'') s) else (t, s))
      in \<lparr>character = CHR 0x00, cset = s, code = t\<rparr>)"

definition compile_byte :: "byte \<Rightarrow> compiling \<Rightarrow> compiling" where
  "compile_byte c st =
     (let add = (\<lambda>i. st\<lparr>items := items st @ [i]\<rparr>) in
      if escape st then (add (plain_item normal c))\<lparr>escape := False\<rparr>
      else if c = CHR ''*'' then add (plain_item all (CHR 0x00))
      else if c = CHR ''?'' then add (plain_item any (CHR 0x00))
      else if c = BACKSLASH then st\<lparr>escape := True\<rparr>
      else if c = CHR ''['' then
        (if \<not> inSet st then st\<lparr>inSet := True, cur := []\<rparr>
         else st\<lparr>cur := List.insert c (cur st)\<rparr>)
      else if c = CHR '']'' then
        (if inSet st then (add (close_set (cur st)))\<lparr>inSet := False\<rparr>
         else add (plain_item normal c))
      else (if inSet st then st\<lparr>cur := List.insert c (cur st)\<rparr>
            else add (plain_item normal c)))"

text \<open>The code point is converted with \<^verbatim>\<open>byte(v)\<close>, which keeps its low eight bits.\<close>

definition compile_step :: "nat \<Rightarrow> compiling \<Rightarrow> compiling" where
  "compile_step v st = compile_byte (char_of v) st"

definition CompilePattern :: "string \<Rightarrow> item list" where
  "CompilePattern src =
     items (fold compile_step (runes src)
       \<lparr>items = [], escape = False, inSet = False, cur = []\<rparr>)"

section \<open>IsMatch\<close>

type_synonym table = "bool list list"

definition cell :: "table \<Rightarrow> nat \<Rightarrow> nat \<Rightarrow> bool" where
  "cell t i j = t ! i ! j"

definition set_cell :: "nat \<Rightarrow> nat \<Rightarrow> bool \<Rightarrow> table \<Rightarrow> table" where
  "set_cell i j v t = t[i := (t ! i)[j := v]]"

definition item_accepts :: "item \<Rightarrow> byte \<Rightarrow> bool" where
  "item_accepts p c \<longleftrightarrow>
     code p = any \<or> (code p = normal \<and> c = character p) \<or> (code p \<ge> setSymbol \<and> contains p c)"

definition first_row_step :: "item list \<Rightarrow> nat \<Rightarrow> table \<Rightarrow> table" where
  "first_row_step its j t = set_cell 0 j (cell t 0 (j - 1) \<and> code (its ! (j - 1)) = all) t"

definition cell_step :: "item list \<Rightarrow> string \<Rightarrow> nat \<Rightarrow> nat \<Rightarrow> table \<Rightarrow> table" where
  "cell_step its s i j t =
     (if code (its ! (j - 1)) = all
      then set_cell i j (cell t (i - 1) j \<or> cell t i (j - 1)) t
      else set_cell i j (cell t (i - 1) (j - 1) \<and> item_accepts (its ! (j - 1)) (s ! (i - 1))) t)"

definition IsMatch :: "item list \<Rightarrow> string \<Rightarrow> bool" where
  "IsMatch its s =
     (if length its = 0 then length s = 0
      else
        let m = length s; n = length its;
            t = replicate (m + 1) (replicate (n + 1) False);
            t = set_cell 0 0 True t;
            t = fold (first_row_step its) [1..<n + 1] t;
            t = fold (\<lambda>i t. fold (cell_step its s i) [1..<n + 1] t) [1..<m + 1] t
        in cell t m n)"

section \<open>The reference meaning\<close>

definition seg_ok :: "item \<Rightarrow> string \<Rightarrow> bool" where
  "seg_ok p seg \<longleftrightarrow> (if code p = all then True else \<exists>c. seg = [c] \<and> item_accepts p c)"

definition matches :: "item list \<Rightarrow> string \<Rightarrow> bool" where
  "matches its s \<longleftrightarrow> (\<exists>segs. list_all2 seg_ok its segs \<and> concat segs = s)"

lemma matches_Nil [simp]: "matches [] s \<longleftrightarrow> s = []"
  by (auto simp: matches_def)

lemma matches_Cons: "matches (p # ps) s \<longleftrightarrow> (\<exists>u v. s = u @ v \<and> seg_ok p u \<and> matches ps v)"
proof
  assume "matches (p # ps) s"
  then obtain segs where "list_all2 seg_ok (p # ps) segs" "concat segs = s"
    by (auto simp: matches_def)
  then show "\<exists>u v. s = u @ v \<and> seg_ok p u \<and> matches ps v"
    by (cases segs) (auto simp: matches_def)
next
  assume "\<exists>u v. s = u @ v \<and> seg_ok p u \<and> matches ps v"
  then obtain u segs where "s = u @ concat segs" "seg_ok p u" "list_all2 seg_ok ps segs"
    by (auto simp: matches_def)
  then show "matches (p # ps) s"
    unfolding matches_def by (intro exI [of _ "u # segs"]) simp
qed

lemma matches_snoc: "matches (ps @ [p]) s \<longleftrightarrow> (\<exists>u v. s = u @ v \<and> matches ps u \<and> seg_ok p v)"
proof (induction ps arbitrary: s)
  case Nil
  then show ?case by (auto simp: matches_Cons)
next
  case (Cons q ps)
  have "matches ((q # ps) @ [p]) s \<longleftrightarrow>
      (\<exists>x y z. s = x @ y @ z \<and> seg_ok q x \<and> matches ps y \<and> seg_ok p z)"
    by (auto simp: matches_Cons Cons.IH)
  also have "\<dots> \<longleftrightarrow> (\<exists>u v. s = u @ v \<and> matches (q # ps) u \<and> seg_ok p v)"
    by (auto simp: matches_Cons) (metis append_assoc)+
  finally show ?case .
qed

text \<open>The recurrence of the table, on prefixes.\<close>

definition prefix_match :: "item list \<Rightarrow> string \<Rightarrow> nat \<Rightarrow> nat \<Rightarrow> bool" where
  "prefix_match its s i j \<longleftrightarrow> matches (take j its) (take i s)"

lemma prefix_match_00 [simp]: "prefix_match its s 0 0"
  by (simp add: prefix_match_def)

lemma prefix_match_Suc_0: "i < length s \<Longrightarrow> \<not> prefix_match its s (Suc i) 0"
  by (auto simp: prefix_match_def)

lemma prefix_match_0_Suc:
  "j < length its \<Longrightarrow>
   prefix_match its s 0 (Suc j) \<longleftrightarrow> prefix_match its s 0 j \<and> code (its ! j) = all"
  by (auto simp: prefix_match_def take_Suc_conv_app_nth matches_snoc seg_ok_def)

lemma prefix_match_all:
  assumes "i < length s" and "j < length its" and "code (its ! j) = all"
  shows "prefix_match its s (Suc i) (Suc j) \<longleftrightarrow>
    prefix_match its s i (Suc j) \<or> prefix_match its s (Suc i) j"
proof -
  have snoc: "matches (take (Suc j) its) x \<longleftrightarrow> (\<exists>u v. x = u @ v \<and> matches (take j its) u)" for x
    using assms by (simp add: take_Suc_conv_app_nth matches_snoc seg_ok_def)
  have "(\<exists>u v. take i s @ [s ! i] = u @ v \<and> matches (take j its) u) \<longleftrightarrow>
      (\<exists>u v. take i s = u @ v \<and> matches (take j its) u) \<or> matches (take j its) (take i s @ [s ! i])"
    (is "?L \<longleftrightarrow> ?R")
  proof
    assume ?L
    then obtain u v where uv: "take i s @ [s ! i] = u @ v" "matches (take j its) u" by blast
    then show ?R by (cases v rule: rev_cases) auto
  next
    assume ?R
    then show ?L by (metis append_Nil2 append_assoc)
  qed
  then show ?thesis
    unfolding prefix_match_def snoc take_Suc_conv_app_nth [OF assms(1)] .
qed

lemma prefix_match_one:
  assumes "i < length s" and "j < length its" and "code (its ! j) \<noteq> all"
  shows "prefix_match its s (Suc i) (Suc j) \<longleftrightarrow>
    prefix_match its s i j \<and> item_accepts (its ! j) (s ! i)"
  using assms
  by (auto simp: prefix_match_def take_Suc_conv_app_nth matches_snoc seg_ok_def)

section \<open>The table computes it\<close>

definition dims :: "nat \<Rightarrow> nat \<Rightarrow> table \<Rightarrow> bool" where
  "dims m n t \<longleftrightarrow> length t = m + 1 \<and> (\<forall>r \<in> set t. length r = n + 1)"

lemma dims_iff: "dims m n t \<longleftrightarrow> length t = m + 1 \<and> (\<forall>i < length t. length (t ! i) = n + 1)"
  by (simp add: dims_def all_set_conv_all_nth)

lemma dims_set_cell [simp]: "dims m n t \<Longrightarrow> dims m n (set_cell i j v t)"
  by (cases "i < length t") (simp_all add: dims_iff set_cell_def nth_list_update list_update_beyond)

lemma cell_set_cell:
  assumes "dims m n t" and "i \<le> m" and "j \<le> n"
  shows "cell (set_cell i j v t) i' j' = (if i' = i \<and> j' = j then v else cell t i' j')"
proof -
  have "i < length t" "j < length (t ! i)"
    using assms by (auto simp: dims_def)
  then show ?thesis by (simp add: cell_def set_cell_def nth_list_update)
qed

text \<open>Rows below \<open>i\<close> are done, row \<open>i\<close> is done below column \<open>j\<close>, and column 0 is cleared.\<close>

definition filled :: "item list \<Rightarrow> string \<Rightarrow> nat \<Rightarrow> nat \<Rightarrow> table \<Rightarrow> bool" where
  "filled its s i j t \<longleftrightarrow>
     dims (length s) (length its) t \<and>
     (\<forall>i' j'. i' \<le> length s \<longrightarrow> j' \<le> length its \<longrightarrow> i' < i \<or> (i' = i \<and> j' < j) \<or> (j' = 0) \<longrightarrow>
        cell t i' j' = prefix_match its s i' j')"

lemma filledI:
  assumes "dims (length s) (length its) t"
    and "\<And>i' j'. i' \<le> length s \<Longrightarrow> j' \<le> length its \<Longrightarrow> i' < i \<or> (i' = i \<and> j' < j) \<or> j' = 0 \<Longrightarrow>
      cell t i' j' = prefix_match its s i' j'"
  shows "filled its s i j t"
  using assms unfolding filled_def by blast

lemma filled_dims: "filled its s i j t \<Longrightarrow> dims (length s) (length its) t"
  by (simp add: filled_def)

lemma filled_cell:
  "filled its s i j t \<Longrightarrow> i' \<le> length s \<Longrightarrow> j' \<le> length its \<Longrightarrow>
   i' < i \<or> (i' = i \<and> j' < j) \<or> j' = 0 \<Longrightarrow> cell t i' j' = prefix_match its s i' j'"
  unfolding filled_def by blast

lemma filled_start: "filled its s 0 1
  (set_cell 0 0 True (replicate (length s + 1) (replicate (length its + 1) False)))"
proof (rule filledI)
  let ?t = "replicate (length s + 1) (replicate (length its + 1) False)"
  have d: "dims (length s) (length its) ?t" by (simp add: dims_def)
  then show "dims (length s) (length its) (set_cell 0 0 True ?t)" by simp
  fix i' j'
  assume *: "i' \<le> length s" "j' \<le> length its" "i' < 0 \<or> (i' = 0 \<and> j' < 1) \<or> j' = 0"
  have "\<not> cell ?t i' 0" using *(1) by (simp add: cell_def less_Suc_eq_le del: replicate.simps)
  with * cell_set_cell [OF d, of 0 0 True i' j']
  show "cell (set_cell 0 0 True ?t) i' j' = prefix_match its s i' j'"
    by (cases i') (simp_all add: prefix_match_Suc_0 less_Suc_eq_le)
qed

lemma filled_set_cell:
  assumes f: "filled its s i j t" and "i \<le> length s" and "j \<le> length its" and "j \<noteq> 0"
    and v: "v = prefix_match its s i j"
  shows "filled its s i (Suc j) (set_cell i j v t)"
proof (rule filledI)
  note d = filled_dims [OF f]
  then show "dims (length s) (length its) (set_cell i j v t)" by simp
  fix i' j'
  assume *: "i' \<le> length s" "j' \<le> length its" "i' < i \<or> (i' = i \<and> j' < Suc j) \<or> j' = 0"
  show "cell (set_cell i j v t) i' j' = prefix_match its s i' j'"
  proof (cases "i' = i \<and> j' = j")
    case True
    with v show ?thesis using cell_set_cell [OF d assms(2,3)] by simp
  next
    case False
    with * have "i' < i \<or> (i' = i \<and> j' < j) \<or> j' = 0" by auto
    with * False show ?thesis using cell_set_cell [OF d assms(2,3)] filled_cell [OF f] by auto
  qed
qed

lemma filled_first_row_step:
  assumes "filled its s 0 j t" and "1 \<le> j" and "j < length its + 1"
  shows "filled its s 0 (Suc j) (first_row_step its j t)"
proof -
  obtain k where j: "j = Suc k" using assms(2) by (cases j) auto
  have "cell t 0 k = prefix_match its s 0 k"
    using assms j by (intro filled_cell [OF assms(1)]) auto
  then show ?thesis unfolding first_row_step_def
    using assms j by (intro filled_set_cell) (auto simp: prefix_match_0_Suc)
qed

lemma filled_cell_step:
  assumes "filled its s i j t" and "1 \<le> i" and "i < length s + 1" and "1 \<le> j" and "j < length its + 1"
  shows "filled its s i (Suc j) (cell_step its s i j t)"
proof -
  obtain k l where ij: "i = Suc k" "j = Suc l" using assms(2,4) by (cases i; cases j) auto
  have "cell t k j = prefix_match its s k j" "cell t i l = prefix_match its s i l"
    "cell t k l = prefix_match its s k l"
    using assms ij by (simp_all add: filled_cell [OF assms(1)])
  then show ?thesis unfolding cell_step_def
    using assms ij
    by (auto intro!: filled_set_cell simp: prefix_match_all prefix_match_one)
qed

lemma filled_next_row:
  assumes "filled its s i (length its + 1) t"
  shows "filled its s (Suc i) 1 t"
proof (rule filledI)
  show "dims (length s) (length its) t" by (rule filled_dims [OF assms])
  fix i' j'
  assume "i' \<le> length s" "j' \<le> length its" "i' < Suc i \<or> (i' = Suc i \<and> j' < 1) \<or> j' = 0"
  then show "cell t i' j' = prefix_match its s i' j'"
    by (intro filled_cell [OF assms]) auto
qed

lemma IsMatch_matches: "IsMatch its s \<longleftrightarrow> matches its s"
proof (cases "its = []")
  case True
  then show ?thesis by (simp add: IsMatch_def)
next
  case False
  define n where "n = length its"
  define m where "m = length s"
  define t0 where "t0 = set_cell 0 0 True (replicate (m + 1) (replicate (n + 1) False))"
  define t1 where "t1 = fold (first_row_step its) [1..<n + 1] t0"
  define t2 where "t2 = fold (\<lambda>i t. fold (cell_step its s i) [1..<n + 1] t) [1..<m + 1] t1"
  have "filled its s 0 1 t0" unfolding t0_def m_def n_def by (rule filled_start)
  then have "filled its s 0 (n + 1) t1"
    unfolding t1_def by (intro fold_upt_invariant [where I = "filled its s 0"])
      (auto simp: n_def intro: filled_first_row_step)
  then have "filled its s 1 1 t1" using filled_next_row [of its s 0 t1] by (simp add: n_def)
  then have "filled its s (m + 1) 1 t2"
    unfolding t2_def
  proof (intro fold_upt_invariant [where I = "\<lambda>i. filled its s i 1"])
    fix i t assume i: "1 \<le> i" "i < m + 1" and "filled its s i 1 t"
    then have "filled its s i (n + 1) (fold (cell_step its s i) [1..<n + 1] t)"
      by (intro fold_upt_invariant [where I = "filled its s i"])
        (auto simp: n_def m_def intro: filled_cell_step)
    then show "filled its s (Suc i) 1 (fold (cell_step its s i) [1..<n + 1] t)"
      unfolding n_def by (rule filled_next_row)
  qed simp
  then have "cell t2 m n = prefix_match its s m n" by (simp add: filled_def m_def n_def)
  moreover have "IsMatch its s = cell t2 m n"
    using False by (simp add: IsMatch_def Let_def t2_def t1_def t0_def m_def n_def)
  ultimately show ?thesis by (simp add: prefix_match_def m_def n_def)
qed

section \<open>What a range accepts\<close>

lemma fold_min_step_bounds:
  "fst (fold min_step ks (mn, mx)) \<le> n \<longleftrightarrow> mn \<le> n \<or> (\<exists>k \<in> set ks. of_char k \<le> n)"
  "n \<le> snd (fold min_step ks (mn, mx)) \<longleftrightarrow> n \<le> mx \<or> (\<exists>k \<in> set ks. n \<le> of_char k)"
  by (induction ks arbitrary: mn mx) (auto simp: min_step_def)

lemma contains_range:
  assumes "code i = rangSymbol"
  shows "contains i c \<longleftrightarrow>
    (\<exists>x \<in> set (cset i). \<exists>y \<in> set (cset i). (of_char x :: nat) \<le> of_char c \<and> (of_char c :: nat) \<le> of_char y)"
proof -
  have le255: "(of_char x :: nat) \<le> 255" for x :: byte using nat_of_char_less_256 [of x] by linarith
  obtain mn mx where f: "fold min_step (cset i) (255, 0) = (mn, mx)"
    by (cases "fold min_step (cset i) (255, 0)")
  have lo: "mn \<le> n \<longleftrightarrow> 255 \<le> n \<or> (\<exists>k \<in> set (cset i). of_char k \<le> n)"
    and hi: "n \<le> mx \<longleftrightarrow> n \<le> 0 \<or> (\<exists>k \<in> set (cset i). n \<le> of_char k)" for n
    using fold_min_step_bounds [where ks = "cset i" and mn = 255 and mx = 0 and n = n] f by simp_all
  let ?n = "of_char c :: nat"
  have "mn \<le> ?n \<and> ?n \<le> mx \<longleftrightarrow>
      (\<exists>x \<in> set (cset i). \<exists>y \<in> set (cset i). of_char x \<le> ?n \<and> ?n \<le> of_char y)"
  proof
    assume L: "mn \<le> ?n \<and> ?n \<le> mx"
    show "\<exists>x \<in> set (cset i). \<exists>y \<in> set (cset i). of_char x \<le> ?n \<and> ?n \<le> of_char y"
    proof (cases "255 \<le> ?n")
      case True
      then have "\<not> ?n \<le> 0" by simp
      with L hi [of ?n] obtain y where y: "y \<in> set (cset i)" "?n \<le> of_char y" by blast
      with True le255 [of y] have "of_char y \<le> ?n" by linarith
      with y show ?thesis by blast
    next
      case False
      with L lo [of ?n] obtain x where x: "x \<in> set (cset i)" "of_char x \<le> ?n" by blast
      show ?thesis
      proof (cases "?n \<le> 0")
        case True
        with x have "?n \<le> of_char x" by linarith
        with x show ?thesis by blast
      next
        case False
        with L hi [of ?n] obtain y where "y \<in> set (cset i)" "?n \<le> of_char y" by blast
        with x show ?thesis by blast
      qed
    qed
  next
    assume "\<exists>x \<in> set (cset i). \<exists>y \<in> set (cset i). of_char x \<le> ?n \<and> ?n \<le> of_char y"
    with lo [of ?n] hi [of ?n] show "mn \<le> ?n \<and> ?n \<le> mx" by blast
  qed
  then show ?thesis using assms f by (auto simp: contains_def)
qed

section \<open>Pattern texts and what they mean\<close>

text \<open>
  A pattern as its author means it: literal bytes, star, question mark, a set, a negated set
  or a range, over ASCII.  \<open>render\<close> is the text one writes for it.
\<close>

datatype pelem = PLit byte | PStar | PAny | PSet "byte list" | PNeg "byte list" | PRange byte byte

definition special :: "byte set" where
  "special = {CHR ''*'', CHR ''?'', BACKSLASH, CHR ''['', CHR '']''}"

definition set_byte :: "byte \<Rightarrow> bool" where
  "set_byte c \<longleftrightarrow> ascii c \<and> c \<notin> special \<and> c \<noteq> CHR ''-'' \<and> c \<noteq> CHR ''^''"

fun render_elem :: "pelem \<Rightarrow> string" where
  "render_elem (PLit c) = (if c \<in> special then [BACKSLASH, c] else [c])"
| "render_elem PStar = ''*''"
| "render_elem PAny = ''?''"
| "render_elem (PSet cs) = ''['' @ cs @ '']''"
| "render_elem (PNeg cs) = ''[^'' @ cs @ '']''"
| "render_elem (PRange a b) = ''['' @ [a] @ ''-'' @ [b] @ '']''"

fun elem_wf :: "pelem \<Rightarrow> bool" where
  "elem_wf (PLit c) = ascii c"
| "elem_wf (PSet cs) = (\<forall>c \<in> set cs. set_byte c)"
| "elem_wf (PNeg cs) = (\<forall>c \<in> set cs. set_byte c)"
| "elem_wf (PRange a b) = (set_byte a \<and> set_byte b)"
| "elem_wf _ = True"

fun elem_takes :: "pelem \<Rightarrow> string \<Rightarrow> bool" where
  "elem_takes (PLit c) seg = (seg = [c])"
| "elem_takes PStar seg = True"
| "elem_takes PAny seg = (length seg = 1)"
| "elem_takes (PSet cs) seg = (\<exists>c \<in> set cs. seg = [c])"
| "elem_takes (PNeg cs) seg = (\<exists>c. c \<notin> set cs \<and> seg = [c])"
| "elem_takes (PRange a b) seg =
     (\<exists>c. seg = [c] \<and> min (of_char a) (of_char b :: nat) \<le> of_char c \<and>
          of_char c \<le> max (of_char a) (of_char b :: nat))"

definition pattern_takes :: "pelem list \<Rightarrow> string \<Rightarrow> bool" where
  "pattern_takes es s \<longleftrightarrow> (\<exists>segs. list_all2 elem_takes es segs \<and> concat segs = s)"

fun item_of :: "pelem \<Rightarrow> item" where
  "item_of (PLit c) = plain_item normal c"
| "item_of PStar = plain_item all (CHR 0x00)"
| "item_of PAny = plain_item any (CHR 0x00)"
| "item_of (PSet cs) = close_set (fold List.insert cs [])"
| "item_of (PNeg cs) = close_set (fold List.insert (CHR ''^'' # cs) [])"
| "item_of (PRange a b) = close_set (fold List.insert [a, CHR ''-'', b] [])"

lemma set_fold_insert [simp]: "set (fold List.insert cs acc) = set cs \<union> set acc"
  by (induction cs arbitrary: acc) auto

lemma ge_setSymbol [simp]:
  "setSymbol \<le> setSymbol" "setSymbol \<le> rangSymbol" "setSymbol \<le> negSymbol"
  "\<not> setSymbol \<le> normal" "\<not> setSymbol \<le> any" "\<not> setSymbol \<le> all"
  by (simp_all add: less_eq_typeCode_def)

lemma item_of_takes: "elem_wf e \<Longrightarrow> seg_ok (item_of e) seg \<longleftrightarrow> elem_takes e seg"
proof (cases e)
  case (PRange a b)
  assume "elem_wf e"
  with PRange have "code (item_of e) = rangSymbol" "set (cset (item_of e)) = {a, b}"
    by (auto simp: close_set_def set_byte_def Let_def)
  then show ?thesis using PRange
    by (auto simp: seg_ok_def item_accepts_def contains_range min_le_iff_disj le_max_iff_disj)
next
  case (PLit c)
  then show ?thesis by (auto simp: seg_ok_def item_accepts_def plain_item_def)
next
  case PStar
  then show ?thesis by (simp add: seg_ok_def plain_item_def)
next
  case PAny
  then show ?thesis by (auto simp: seg_ok_def item_accepts_def plain_item_def length_Suc_conv)
next
  case (PSet cs)
  assume "elem_wf e"
  with PSet have "code (item_of e) = setSymbol" "set (cset (item_of e)) = set cs"
    by (auto simp: close_set_def set_byte_def Let_def)
  then show ?thesis using PSet by (auto simp: seg_ok_def item_accepts_def contains_def)
next
  case (PNeg cs)
  assume "elem_wf e"
  with PNeg have "code (item_of e) = negSymbol" "set (cset (item_of e)) = set cs"
    by (auto simp: close_set_def set_byte_def Let_def)
  then show ?thesis using PNeg by (auto simp: seg_ok_def item_accepts_def contains_def)
qed

text \<open>Compiling the text of a pattern gives the items of its elements.\<close>

definition outside :: "item list \<Rightarrow> byte list \<Rightarrow> compiling" where
  "outside its cs = \<lparr>items = its, escape = False, inSet = False, cur = cs\<rparr>"

definition inside :: "item list \<Rightarrow> byte list \<Rightarrow> compiling" where
  "inside its cs = \<lparr>items = its, escape = False, inSet = True, cur = cs\<rparr>"

lemma compile_open: "compile_byte (CHR ''['') (outside its cs) = inside its []"
  by (simp add: compile_byte_def outside_def inside_def)

lemma compile_close: "compile_byte (CHR '']'') (inside its cs) = outside (its @ [close_set cs]) cs"
  by (simp add: compile_byte_def outside_def inside_def)

lemma compile_member:
  "c \<notin> special \<Longrightarrow> compile_byte c (inside its cs) = inside its (List.insert c cs)"
  by (simp add: compile_byte_def inside_def special_def)

lemma compile_members:
  "\<forall>c \<in> set ms. c \<notin> special \<Longrightarrow>
   fold compile_byte ms (inside its cs) = inside its (fold List.insert ms cs)"
  by (induction ms arbitrary: cs) (simp_all add: compile_member)

lemma compile_set:
  "\<forall>c \<in> set ms. c \<notin> special \<Longrightarrow>
   fold compile_byte (''['' @ ms @ '']'') (outside its cs) =
     outside (its @ [close_set (fold List.insert ms [])]) (fold List.insert ms [])"
  by (simp add: compile_open compile_close compile_members)

lemma compile_elem:
  assumes "elem_wf e"
  shows "\<exists>cs'. fold compile_byte (render_elem e) (outside its cs) = outside (its @ [item_of e]) cs'"
proof (cases e)
  case (PLit c)
  then show ?thesis by (auto simp: compile_byte_def outside_def special_def plain_item_def)
next
  case PStar
  then show ?thesis by (simp add: compile_byte_def outside_def)
next
  case PAny
  then show ?thesis by (simp add: compile_byte_def outside_def)
next
  case (PSet ms)
  with assms have "\<forall>c \<in> set ms. c \<notin> special" by (auto simp: set_byte_def)
  with compile_set [of ms its cs] PSet show ?thesis by auto
next
  case (PNeg ms)
  with assms have "\<forall>c \<in> set (CHR ''^'' # ms). c \<notin> special" by (auto simp: set_byte_def special_def)
  with compile_set [of "CHR ''^'' # ms" its cs] PNeg show ?thesis by auto
next
  case (PRange a b)
  with assms have "\<forall>c \<in> set [a, CHR ''-'', b]. c \<notin> special" by (auto simp: set_byte_def special_def)
  with compile_set [of "[a, CHR ''-'', b]" its cs] PRange show ?thesis by auto
qed

lemma compile_elems:
  "list_all elem_wf es \<Longrightarrow>
   \<exists>cs'. fold compile_byte (concat (map render_elem es)) (outside its cs) =
     outside (its @ map item_of es) cs'"
proof (induction es arbitrary: its cs)
  case Nil
  then show ?case by auto
next
  case (Cons e es)
  obtain cs1 where "fold compile_byte (render_elem e) (outside its cs) = outside (its @ [item_of e]) cs1"
    using compile_elem [of e its cs] Cons.prems by auto
  moreover obtain cs2 where "fold compile_byte (concat (map render_elem es)) (outside (its @ [item_of e]) cs1) =
      outside ((its @ [item_of e]) @ map item_of es) cs2"
    using Cons.IH [of "its @ [item_of e]" cs1] Cons.prems by auto
  ultimately show ?case by auto
qed

lemma ascii_special: "c \<in> special \<Longrightarrow> ascii c"
  by (auto simp: special_def ascii_def)

lemma render_elem_ascii: "elem_wf e \<Longrightarrow> \<forall>c \<in> set (render_elem e). ascii c"
  by (cases e) (auto simp: ascii_def set_byte_def)

lemma fold_compile_ascii:
  "\<forall>c \<in> set s. ascii c \<Longrightarrow> fold compile_step (runes s) st = fold compile_byte s st"
proof -
  assume "\<forall>c \<in> set s. ascii c"
  then have "runes s = map of_char s" by (rule runes_ascii)
  moreover have "compile_step \<circ> of_char = compile_byte" by (simp add: fun_eq_iff compile_step_def)
  ultimately show ?thesis by (simp add: fold_map)
qed

lemma CompilePattern_render:
  assumes "list_all elem_wf es"
  shows "CompilePattern (concat (map render_elem es)) = map item_of es"
proof -
  have "\<forall>c \<in> set (concat (map render_elem es)). ascii c"
    using assms render_elem_ascii by (auto simp: list_all_iff)
  with compile_elems [OF assms, of "[]" "[]"] show ?thesis
    by (auto simp: CompilePattern_def fold_compile_ascii outside_def)
qed

lemma pattern_meaning:
  assumes "list_all elem_wf es"
  shows "IsMatch (CompilePattern (concat (map render_elem es))) s \<longleftrightarrow> pattern_takes es s"
proof -
  have "list_all2 seg_ok (map item_of es) segs \<longleftrightarrow> list_all2 elem_takes es segs" for segs
    using assms
    by (auto simp: list_all2_conv_all_nth list_all_length item_of_takes)
  then show ?thesis
    by (simp add: IsMatch_matches CompilePattern_render [OF assms] matches_def pattern_takes_def)
qed

section \<open>Properties\<close>

text \<open>
  C15 (IsMatch_is_segmentation). The dynamic-programming table decides the reference meaning: \<open>IsMatch\<close> holds exactly when
  the string can be cut into one segment per item such that a star's segment is arbitrary and
  every other item's segment is a single byte it accepts.
\<close>

theorem IsMatch_is_segmentation:
  "IsMatch its s \<longleftrightarrow> (\<exists>segs. list_all2 seg_ok its segs \<and> concat segs = s)"
  by (simp add: IsMatch_matches matches_def)

text \<open>
  C27 (pattern_text_meaning). For ASCII patterns written with literals, \<open>*\<close>, \<open>?\<close>, sets, negated sets and ranges,
  compiling the text and matching gives the meaning the pattern's author has in mind.
\<close>

theorem pattern_text_meaning:
  assumes "list_all elem_wf es"
  shows "IsMatch (CompilePattern (concat (map render_elem es))) s \<longleftrightarrow>
    (\<exists>segs. list_all2 elem_takes es segs \<and> concat segs = s)"
  using pattern_meaning [OF assms] by (simp add: pattern_takes_def)

theorem pattern_text_meaning_witness:
  "IsMatch (CompilePattern ''k[a-c]*'') ''kbz'' \<longleftrightarrow>
    (\<exists>segs. list_all2 elem_takes [PLit (CHR ''k''), PRange (CHR ''a'') (CHR ''c''), PStar] segs \<and>
       concat segs = ''kbz'')"
  using pattern_text_meaning [of "[PLit (CHR ''k''), PRange (CHR ''a'') (CHR ''c''), PStar]" "''kbz''"]
  by (simp add: set_byte_def ascii_def special_def)

text \<open>
  A bracketed set that holds a dash accepts every byte between its smallest and its
  largest member, whatever order the map is visited in, and an empty one accepts nothing.
\<close>

theorem range_is_interval:
  "contains \<lparr>character = x, cset = cs, code = rangSymbol\<rparr> c \<longleftrightarrow>
    (\<exists>a \<in> set cs. \<exists>b \<in> set cs. (of_char a :: nat) \<le> of_char c \<and> (of_char c :: nat) \<le> of_char b)"
  by (simp add: contains_range)

text \<open>
  Code points are cut to their low byte: the two-byte text of U+012A is compiled to a star
  and matches every key, while the two-byte text of U+00E9 does not match the key with the
  same bytes.
\<close>

theorem code_points_are_truncated:
  "IsMatch (CompilePattern [CHR 0xC4, CHR 0xAA]) s \<and>
   \<not> IsMatch (CompilePattern [CHR 0xC3, CHR 0xA9]) [CHR 0xC3, CHR 0xA9]"
proof -
  have "runes [CHR 0xC4, CHR 0xAA] = [0x12A]" "runes [CHR 0xC3, CHR 0xA9] = [0xE9]"
    by (simp_all add: runes.simps second_range_def in_range_def low6_def Let_def)
  moreover have "char_of (0x12A :: nat) = (CHR ''*'')" "char_of (0xE9 :: nat) = (CHR 0xE9)"
    by (simp_all add: char_of_eq_iff)
  ultimately have "CompilePattern [CHR 0xC4, CHR 0xAA] = [plain_item all (CHR 0x00)]"
    "CompilePattern [CHR 0xC3, CHR 0xA9] = [plain_item normal (CHR 0xE9)]"
    by (simp_all add: CompilePattern_def compile_step_def compile_byte_def)
  then show ?thesis
    by (simp add: IsMatch_matches matches_Cons seg_ok_def plain_item_def item_accepts_def)
qed

end
