(* ===== verification/Utils.thy ===== *)
theory Utils
  imports GoLib
begin

text \<open>
  \<^verbatim>\<open>lib/utils/utils.go\<close>: building command lines, comparing byte slices, converting an
  inclusive Redis range to a Go slice range, and dropping duplicate slices.  A \<^verbatim>\<open>[]byte\<close>
  that may be nil is a \<open>bytes option\<close>.
\<close>

section \<open>Command lines\<close>

definition ToCmdLine :: "string list \<Rightarrow> CmdLine" where
  "ToCmdLine cmd = map (\<lambda>s. s) cmd"

definition ToCmdLine2 :: "string \<Rightarrow> string list \<Rightarrow> CmdLine" where
  "ToCmdLine2 commandName args = commandName # map (\<lambda>s. s) args"

definition ToCmdLine3 :: "string \<Rightarrow> bytes list \<Rightarrow> CmdLine" where
  "ToCmdLine3 commandName args = commandName # args"

section \<open>Equality\<close>

fun equal_from :: "bytes \<Rightarrow> bytes \<Rightarrow> nat \<Rightarrow> nat \<Rightarrow> bool" where
  "equal_from a b i 0 = True"
| "equal_from a b i (Suc k) = (if a ! i \<noteq> b ! i then False else equal_from a b (Suc i) k)"

definition BytesEquals :: "bytes option \<Rightarrow> bytes option \<Rightarrow> bool" where
  "BytesEquals a b =
     (case (a, b) of
        (None, Some _) \<Rightarrow> False
      | (Some _, None) \<Rightarrow> False
      | (None, None) \<Rightarrow> True
      | (Some x, Some y) \<Rightarrow>
          if length x \<noteq> length y then False else equal_from x y 0 (length x))"

text \<open>An \<^verbatim>\<open>interface{}\<close> value: a byte slice, or a value of a comparable type.\<close>

datatype 'a iface = Slice "bytes option" | Comparable 'a

fun Equals :: "'a iface \<Rightarrow> 'a iface \<Rightarrow> bool" where
  "Equals (Slice a) (Slice b) = BytesEquals a b"
| "Equals a b = (a = b)"

lemma equal_from_iff:
  "i + k \<le> length a \<Longrightarrow> i + k \<le> length b \<Longrightarrow>
   equal_from a b i k \<longleftrightarrow> take k (drop i a) = take k (drop i b)"
proof (induction k arbitrary: i)
  case 0
  then show ?case by simp
next
  case (Suc k)
  then have "take (Suc k) (drop i a) = a ! i # take k (drop (Suc i) a)"
    "take (Suc k) (drop i b) = b ! i # take k (drop (Suc i) b)"
    by (simp_all add: Cons_nth_drop_Suc [symmetric])
  with Suc show ?case by simp
qed

lemma equal_from_all: "length a = length b \<Longrightarrow> equal_from a b 0 (length b) \<longleftrightarrow> a = b"
  using equal_from_iff [of 0 "length b" a b] by simp

lemma BytesEquals_iff: "BytesEquals a b \<longleftrightarrow> a = b"
  by (auto simp: BytesEquals_def equal_from_all split: option.splits)

section \<open>RemoveDuplicates\<close>

fun dedup_loop :: "(string \<rightharpoonup> unit) \<Rightarrow> bytes list \<Rightarrow> bytes list \<Rightarrow> bytes list" where
  "dedup_loop uniqueMap result [] = result"
| "dedup_loop uniqueMap result (item # input) =
     (if uniqueMap item = None
      then dedup_loop (uniqueMap(item \<mapsto> ())) (result @ [item]) input
      else dedup_loop uniqueMap result input)"

definition RemoveDuplicates :: "bytes list \<Rightarrow> bytes list" where
  "RemoveDuplicates input = dedup_loop Map.empty [] input"

text \<open>The first occurrences, in order.\<close>

definition first_occurrences :: "'a list \<Rightarrow> 'a list" where
  "first_occurrences xs = rev (remdups (rev xs))"

lemma first_occurrences_Cons:
  "first_occurrences (x # xs) = x # filter (\<lambda>y. y \<noteq> x) (first_occurrences xs)"
proof -
  have "remdups (ys @ [x]) = filter (\<lambda>y. y \<noteq> x) (remdups ys) @ [x]" for ys
    by (induction ys) auto
  then show ?thesis by (simp add: first_occurrences_def rev_filter)
qed

lemma dedup_loop_spec:
  "dedup_loop m res xs = res @ filter (\<lambda>x. m x = None) (first_occurrences xs)"
proof (induction xs arbitrary: m res)
  case Nil
  then show ?case by (simp add: first_occurrences_def)
next
  case (Cons x xs)
  then show ?case
    by (auto simp: first_occurrences_Cons intro!: filter_cong)
qed

lemma RemoveDuplicates_spec: "RemoveDuplicates xs = first_occurrences xs"
  by (simp add: RemoveDuplicates_def dedup_loop_spec)

section \<open>ConvertRange\<close>

definition ConvertRange :: "int64 \<Rightarrow> int64 \<Rightarrow> int64 \<Rightarrow> int64 \<times> int64" where
  "ConvertRange start end' len =
     (let r1 =
        (if sint start < sint (- len) then None
         else if sint start < 0 then Some (len + start)
         else if sint start \<ge> sint len then None
         else Some start)
      in case r1 of None \<Rightarrow> (-1, -1) | Some start \<Rightarrow>
     (let r2 =
        (if sint end' < sint (- len) then None
         else if sint end' < 0 then Some (len + end' + 1)
         else if sint end' < sint len then Some (end' + 1)
         else Some len)
      in case r2 of None \<Rightarrow> (-1, -1) | Some end' \<Rightarrow>
        (if sint start > sint end' then (-1, -1) else (start, end'))))"

lemma sint_add_64:
  fixes a b :: int64
  assumes "- (2 ^ 63) \<le> sint a + sint b" and "sint a + sint b < 2 ^ 63"
  shows "sint (a + b) = sint a + sint b"
  using sint_word_of_int_64 [OF assms] by simp

lemma sint_minus_64:
  fixes a :: int64
  assumes "0 \<le> sint a"
  shows "sint (- a) = - sint a"
proof -
  have "sint (word_of_int (- sint a) :: int64) = - sint a"
    using assms sint_lt [of a] by (intro sint_word_of_int_64) simp_all
  then show ?thesis by simp
qed

text \<open>The index a Redis range bound stands for.\<close>

definition range_index :: "int \<Rightarrow> int \<Rightarrow> int" where
  "range_index len i = (if i < 0 then len + i else i)"

lemma ConvertRange_spec:
  fixes start end' len :: int64
  assumes "0 \<le> sint len"
  defines "n \<equiv> sint len" and "s \<equiv> range_index (sint len) (sint start)"
    and "e \<equiv> range_index (sint len) (sint end')"
  shows "(let (a, b) = ConvertRange start end' len in (sint a, sint b)) =
    (if 0 \<le> s \<and> s < n \<and> 0 \<le> e \<and> s \<le> min (e + 1) n then (s, min (e + 1) n) else (-1, -1))"
proof -
  note b = sint_lt [of len] sint_lt [of start] sint_lt [of end'] sint_ge [of start] sint_ge [of end']
  have m: "sint (- len) = - n" using assms by (simp add: sint_minus_64)
  have 1: "sint start < 0 \<Longrightarrow> - n \<le> sint start \<Longrightarrow> sint (len + start) = n + sint start"
    using b assms by (simp add: sint_add_64)
  have 2: "sint end' < n \<Longrightarrow> sint end' \<ge> 0 \<Longrightarrow> sint (end' + 1) = sint end' + 1"
    using b assms by (simp add: sint_add_64)
  have 3: "sint end' < 0 \<Longrightarrow> - n \<le> sint end' \<Longrightarrow> sint (len + end' + 1) = n + sint end' + 1"
    using b assms sint_add_64 [of "len + end'" 1] sint_add_64 [of len end'] by simp
  show ?thesis
    using assms(1) m 1 2 3
    by (auto simp: ConvertRange_def Let_def n_def s_def e_def range_index_def min_def)
qed

end
