(* ===== verification/Dict.thy ===== *)
theory Dict
  imports Prelude "HOL-Library.AList"
begin

text \<open>
  \<^verbatim>\<open>datastruct/dict\<close>.  \<open>SyncDict\<close> wraps a \<^verbatim>\<open>sync.Map\<close>, here an association list
  from keys to values; its order is the order \<^verbatim>\<open>Range\<close> visits the keys in, which Go leaves
  unspecified, so facts about iteration hold for any order of the list.  The operations are
  those of one goroutine running alone; each is built from the atomic operations of
  \<^verbatim>\<open>sync.Map\<close> in the source's order.

  The interface \<^verbatim>\<open>Dict\<close> that the database is written against is the locale
  \<open>dict_interface\<close>: what each operation returns and does to the map the dictionary stands
  for.  Its clients (lookups after updates, and the counting loops of DEL and EXISTS) are
  proved there, and \<open>SyncDict\<close> interprets it.
\<close>

section \<open>sync.Map\<close>

type_synonym 'v sync_map = "(string \<times> 'v) list"

definition Load :: "string \<Rightarrow> 'v sync_map \<Rightarrow> 'v option" where
  "Load key mp = map_of mp key"

definition Store :: "string \<Rightarrow> 'v \<Rightarrow> 'v sync_map \<Rightarrow> 'v sync_map" where
  "Store key val mp = AList.update key val mp"

definition Delete :: "string \<Rightarrow> 'v sync_map \<Rightarrow> 'v sync_map" where
  "Delete key mp = AList.delete key mp"

text \<open>Returns the value present or stored, and whether it was already there.\<close>

definition LoadOrStore :: "string \<Rightarrow> 'v \<Rightarrow> 'v sync_map \<Rightarrow> ('v \<times> bool) \<times> 'v sync_map" where
  "LoadOrStore key val mp =
     (case Load key mp of
        Some old \<Rightarrow> ((old, True), mp)
      | None \<Rightarrow> ((val, False), Store key val mp))"

text \<open>\<^verbatim>\<open>Range\<close> calls \<open>f\<close> on each entry until it returns false; \<open>s\<close> is the caller's state.\<close>

fun Range :: "(string \<Rightarrow> 'v \<Rightarrow> 's \<Rightarrow> bool \<times> 's) \<Rightarrow> 'v sync_map \<Rightarrow> 's \<Rightarrow> 's" where
  "Range f [] s = s"
| "Range f ((key, val) # mp) s =
     (case f key val s of (cont, s') \<Rightarrow> if cont then Range f mp s' else s')"

text \<open>The same, for a callback that may panic.\<close>

fun Range_go :: "(string \<Rightarrow> 'v \<Rightarrow> 's \<Rightarrow> (bool \<times> 's) go) \<Rightarrow> 'v sync_map \<Rightarrow> 's \<Rightarrow> 's go" where
  "Range_go f [] s = Inr s"
| "Range_go f ((key, val) # mp) s =
     go_bind (f key val s) (\<lambda>(cont, s'). if cont then Range_go f mp s' else Inr s')"

section \<open>SyncDict\<close>

record 'v SyncDict =
  m :: "'v sync_map"

definition MakeSyncDict :: "'v SyncDict" where
  "MakeSyncDict = \<lparr>m = []\<rparr>"

definition Get :: "string \<Rightarrow> 'v SyncDict \<Rightarrow> 'v option" where
  "Get key dict = Load key (m dict)"

definition Len :: "'v SyncDict \<Rightarrow> int" where
  "Len dict = Range (\<lambda>key val length. (True, length + 1)) (m dict) 0"

definition Put :: "string \<Rightarrow> 'v \<Rightarrow> 'v SyncDict \<Rightarrow> int \<times> 'v SyncDict" where
  "Put key val dict =
     (let existed = Load key (m dict) \<noteq> None;
          dict = dict\<lparr>m := Store key val (m dict)\<rparr>
      in (if existed then 0 else 1, dict))"

definition PutIfAbsent :: "string \<Rightarrow> 'v \<Rightarrow> 'v SyncDict \<Rightarrow> int \<times> 'v SyncDict" where
  "PutIfAbsent key val dict =
     (case LoadOrStore key val (m dict) of
        ((_, existed), m') \<Rightarrow>
          if existed then (0, dict\<lparr>m := m'\<rparr>)
          else (1, dict\<lparr>m := Store key val m'\<rparr>))"

definition PutIfExists :: "string \<Rightarrow> 'v \<Rightarrow> 'v SyncDict \<Rightarrow> int \<times> 'v SyncDict" where
  "PutIfExists key val dict =
     (if Load key (m dict) = None then (0, dict) else (1, dict\<lparr>m := Store key val (m dict)\<rparr>))"

definition Remove :: "string \<Rightarrow> 'v SyncDict \<Rightarrow> int \<times> 'v SyncDict" where
  "Remove key dict =
     (if Load key (m dict) = None then (0, dict) else (1, dict\<lparr>m := Delete key (m dict)\<rparr>))"

text \<open>The consumer's answer is ignored: the traversal always goes on.\<close>

definition ForEach :: "(string \<Rightarrow> 'v \<Rightarrow> 's \<Rightarrow> bool \<times> 's) \<Rightarrow> 'v SyncDict \<Rightarrow> 's \<Rightarrow> 's" where
  "ForEach consumer dict s = Range (\<lambda>key val s. (True, snd (consumer key val s))) (m dict) s"

definition set_index :: "'a list \<Rightarrow> nat \<Rightarrow> 'a \<Rightarrow> 'a list go" where
  "set_index xs i x = (if i < length xs then Inr (xs[i := x]) else Inl IndexOutOfRange)"

definition Keys :: "'v SyncDict \<Rightarrow> string list go" where
  "Keys dict =
     go_bind (Range_go (\<lambda>key val (keys, index).
         go_bind (set_index keys index key) (\<lambda>keys. Inr (True, (keys, index + 1))))
       (m dict) (replicate (nat (Len dict)) [], 0)) (\<lambda>(keys, _). Inr keys)"

text \<open>\<^verbatim>\<open>make([]string, n)\<close>: a string header has 16 bytes.\<close>

definition make_strings :: "int \<Rightarrow> string list go" where
  "make_strings n = go_bind (make_slice 16 n) (\<lambda>k. Inr (replicate k []))"

definition RandomKeys :: "int \<Rightarrow> 'v SyncDict \<Rightarrow> string list go" where
  "RandomKeys n dict =
     go_bind (make_strings n) (\<lambda>result.
       Inr (fold (\<lambda>i result. Range (\<lambda>key val result. (False, result[i := key])) (m dict) result)
              [0..<nat n] result))"

definition RandomDistinctKeys :: "int \<Rightarrow> 'v SyncDict \<Rightarrow> string list go" where
  "RandomDistinctKeys n dict =
     go_bind (make_strings n) (\<lambda>result.
       go_bind (Range_go (\<lambda>key val (result, index).
           go_bind (set_index result index key) (\<lambda>result.
             if int (index + 1) \<ge> n then Inr (False, (result, index + 1))
             else Inr (True, (result, index + 1))))
         (m dict) (result, 0)) (\<lambda>(result, _). Inr result))"

definition Clear :: "'v SyncDict \<Rightarrow> 'v SyncDict" where
  "Clear dict = MakeSyncDict"

section \<open>The interface\<close>

text \<open>
  A counting loop over keys, as \<^verbatim>\<open>DB.Removes\<close> and \<^verbatim>\<open>execExists\<close> write it, over whatever
  operation the dictionary offers.
\<close>

fun removes_loop :: "(string \<Rightarrow> 'd \<Rightarrow> int \<times> 'd) \<Rightarrow> string list \<Rightarrow> int \<times> 'd \<Rightarrow> int \<times> 'd" where
  "removes_loop remove [] (deleted, d) = (deleted, d)"
| "removes_loop remove (key # keys) (deleted, d) =
     (case remove key d of (r, d') \<Rightarrow>
        removes_loop remove keys (if r > 0 then deleted + 1 else deleted, d'))"

fun exists_loop :: "(string \<Rightarrow> bool) \<Rightarrow> string list \<Rightarrow> int \<Rightarrow> int" where
  "exists_loop present [] result = result"
| "exists_loop present (key # keys) result =
     exists_loop present keys (if present key then result + 1 else result)"

lemma exists_loop_count:
  "exists_loop present keys result = result + int (length (filter present keys))"
  by (induction keys arbitrary: result) simp_all

locale dict_interface =
  fixes get :: "string \<Rightarrow> 'd \<Rightarrow> 'v option"
    and put :: "string \<Rightarrow> 'v \<Rightarrow> 'd \<Rightarrow> int \<times> 'd"
    and put_if_absent :: "string \<Rightarrow> 'v \<Rightarrow> 'd \<Rightarrow> int \<times> 'd"
    and put_if_exists :: "string \<Rightarrow> 'v \<Rightarrow> 'd \<Rightarrow> int \<times> 'd"
    and remove :: "string \<Rightarrow> 'd \<Rightarrow> int \<times> 'd"
    and clear :: "'d \<Rightarrow> 'd"
    and len :: "'d \<Rightarrow> int"
    and abs :: "'d \<Rightarrow> string \<rightharpoonup> 'v"
    and invar :: "'d \<Rightarrow> bool"
  assumes get_abs: "invar d \<Longrightarrow> get k d = abs d k"
    and put_abs: "invar d \<Longrightarrow> put k v d = (r, d') \<Longrightarrow>
      abs d' = (abs d)(k \<mapsto> v) \<and> invar d' \<and> r = (if k \<in> dom (abs d) then 0 else 1)"
    and put_if_absent_abs: "invar d \<Longrightarrow> put_if_absent k v d = (r, d') \<Longrightarrow>
      abs d' = (if k \<in> dom (abs d) then abs d else (abs d)(k \<mapsto> v)) \<and> invar d' \<and>
      r = (if k \<in> dom (abs d) then 0 else 1)"
    and put_if_exists_abs: "invar d \<Longrightarrow> put_if_exists k v d = (r, d') \<Longrightarrow>
      abs d' = (if k \<in> dom (abs d) then (abs d)(k \<mapsto> v) else abs d) \<and> invar d' \<and>
      r = (if k \<in> dom (abs d) then 1 else 0)"
    and remove_abs: "invar d \<Longrightarrow> remove k d = (r, d') \<Longrightarrow>
      abs d' = (abs d)(k := None) \<and> invar d' \<and> r = (if k \<in> dom (abs d) then 1 else 0)"
    and clear_abs: "invar d \<Longrightarrow> abs (clear d) = Map.empty \<and> invar (clear d)"
    and len_abs: "invar d \<Longrightarrow> len d = int (card (dom (abs d)))"
begin

lemma get_put: "invar d \<Longrightarrow> get k' (snd (put k v d)) = (if k' = k then Some v else get k' d)"
  using put_abs [of d k v "fst (put k v d)" "snd (put k v d)"] by (simp add: get_abs)

lemma get_remove: "invar d \<Longrightarrow> get k' (snd (remove k d)) = (if k' = k then None else get k' d)"
  using remove_abs [of d k "fst (remove k d)" "snd (remove k d)"] by (simp add: get_abs)

lemma put_if_absent_keeps:
  "invar d \<Longrightarrow> get k d = Some w \<Longrightarrow> put_if_absent k v d = (r, d') \<Longrightarrow> r = 0 \<and> get k d' = Some w"
  using put_if_absent_abs [of d k v r d'] by (auto simp: get_abs dom_def)

text \<open>Moving a value: what RENAME does with two calls.\<close>

lemma move_abs:
  assumes "invar d" and "put k v d = (r1, d1)" and "remove k' d1 = (r2, d2)"
  shows "abs d2 = ((abs d)(k \<mapsto> v))(k' := None) \<and> invar d2"
  using put_abs [OF assms(1,2)] remove_abs [OF _ assms(3)] by simp

text \<open>The loop of DEL counts the distinct keys that were present, and unmaps them all.\<close>

lemma removes_loop_abs:
  "invar d \<Longrightarrow> removes_loop remove keys (n, d) = (deleted, d') \<Longrightarrow>
   invar d' \<and> abs d' = (abs d) |` (- set keys) \<and>
   deleted = n + int (card (set keys \<inter> dom (abs d)))"
proof (induction keys arbitrary: n d)
  case Nil
  then show ?case by (simp add: restrict_map_def)
next
  case (Cons k keys)
  obtain r d1 where r: "remove k d = (r, d1)" by (cases "remove k d")
  from remove_abs [OF Cons.prems(1) r]
  have d1: "abs d1 = (abs d)(k := None)" "invar d1" "r = (if k \<in> dom (abs d) then 1 else 0)"
    by simp_all
  define n1 where "n1 = (if k \<in> dom (abs d) then n + 1 else n)"
  have "removes_loop remove keys (n1, d1) = (deleted, d')"
    using Cons.prems(2) r d1(3) by (auto simp: n1_def split: if_splits)
  from Cons.IH [OF d1(2) this]
  have IH: "invar d'" "abs d' = (abs d1) |` (- set keys)"
    "deleted = n1 + int (card (set keys \<inter> dom (abs d1)))"
    by simp_all
  have "(abs d1) |` (- set keys) = (abs d) |` (- set (k # keys))"
    unfolding d1(1) by (auto simp: restrict_map_def)
  moreover have "dom (abs d1) = dom (abs d) - {k}" unfolding d1(1) by simp
  moreover have "int (card (set (k # keys) \<inter> dom (abs d))) =
      int (card (set keys \<inter> (dom (abs d) - {k}))) + (if k \<in> dom (abs d) then 1 else 0)"
  proof (cases "k \<in> dom (abs d)")
    case True
    then have "set (k # keys) \<inter> dom (abs d) = insert k (set keys \<inter> (dom (abs d) - {k}))" by auto
    then show ?thesis using True by simp
  next
    case False
    then have "set (k # keys) \<inter> dom (abs d) = set keys \<inter> (dom (abs d) - {k})" by auto
    then show ?thesis using False by simp
  qed
  ultimately show ?case unfolding IH(2,3) n1_def using IH(1) by simp
qed

end

section \<open>SyncDict implements it\<close>

definition dict_abs :: "'v SyncDict \<Rightarrow> string \<rightharpoonup> 'v" where
  "dict_abs dict = map_of (m dict)"

definition dict_invar :: "'v SyncDict \<Rightarrow> bool" where
  "dict_invar dict \<longleftrightarrow> distinct (map fst (m dict))"

lemmas sync_map_defs = Load_def Store_def Delete_def LoadOrStore_def

lemmas dict_defs = Get_def Put_def PutIfAbsent_def PutIfExists_def Remove_def Clear_def
  MakeSyncDict_def

lemma update_update: "AList.update k v (AList.update k v mp) = AList.update k v mp"
  by (induction mp) auto

lemma Range_length: "Range (\<lambda>key val length. (True, length + 1)) mp (n :: int) = n + int (length mp)"
  by (induction mp arbitrary: n) auto

lemma Len_length: "Len dict = int (length (m dict))"
  by (simp add: Len_def Range_length)

lemma Len_abs: "dict_invar d \<Longrightarrow> Len d = int (card (dom (dict_abs d)))"
  using distinct_card [of "map fst (m d)"]
  by (simp add: Len_length dict_invar_def dict_abs_def dom_map_of_conv_image_fst)

interpretation sync: dict_interface Get Put PutIfAbsent PutIfExists Remove Clear Len dict_abs dict_invar
proof (unfold_locales, goal_cases)
  case (1 d k)
  then show ?case by (simp add: Get_def Load_def dict_abs_def)
next
  case (2 d k v r d')
  then show ?case
    by (auto simp: Put_def dict_abs_def dict_invar_def sync_map_defs update_conv' distinct_update
        Let_def domIff)
next
  case (3 d k v r d')
  then show ?case
    by (auto simp: PutIfAbsent_def dict_abs_def dict_invar_def sync_map_defs update_conv'
        distinct_update update_update domIff split: option.splits)
next
  case (4 d k v r d')
  then show ?case
    by (auto simp: PutIfExists_def dict_abs_def dict_invar_def sync_map_defs update_conv'
        distinct_update domIff split: if_splits)
next
  case (5 d k r d')
  then show ?case
    by (auto simp: Remove_def dict_abs_def dict_invar_def sync_map_defs delete_conv'
        distinct_delete domIff split: if_splits)
next
  case (6 d)
  then show ?case by (simp add: Clear_def MakeSyncDict_def dict_abs_def dict_invar_def)
next
  case (7 d)
  then show ?case by (rule Len_abs)
qed

text \<open>A counting loop that counts nothing has changed nothing, not even the representation.\<close>

lemma removes_loop_none:
  "removes_loop Remove keys (n, d) = (deleted, d') \<Longrightarrow> n \<le> deleted \<and> (deleted = n \<longrightarrow> d' = d)"
proof (induction keys arbitrary: n d)
  case Nil
  then show ?case by simp
next
  case (Cons k keys)
  show ?case
  proof (cases "Load k (m d) = None")
    case True
    with Cons.prems have "removes_loop Remove keys (n, d) = (deleted, d')" by (simp add: Remove_def [of k d])
    then show ?thesis by (rule Cons.IH)
  next
    case False
    with Cons.prems have "removes_loop Remove keys (n + 1, d\<lparr>m := Delete k (m d)\<rparr>) = (deleted, d')"
      by (simp add: Remove_def [of k d])
    from Cons.IH [OF this] show ?thesis by simp
  qed
qed

section \<open>Iteration\<close>

lemma set_index_append: "set_index (pre @ x # post) (length pre) y = Inr (pre @ y # post)"
  by (simp add: set_index_def)

lemma ForEach_fold:
  "ForEach consumer dict s = fold (\<lambda>(key, val) s. snd (consumer key val s)) (m dict) s"
proof -
  have "Range (\<lambda>key val s. (True, snd (consumer key val s))) mp s =
      fold (\<lambda>(key, val) s. snd (consumer key val s)) mp s" for mp
    by (induction mp arbitrary: s) auto
  then show ?thesis by (simp add: ForEach_def)
qed

lemma Keys_loop:
  "Range_go (\<lambda>key val (keys, index).
      go_bind (set_index keys index key) (\<lambda>keys. Inr (True, (keys, index + 1))))
    mp (pre @ replicate (length mp) [], length pre) =
   Inr (pre @ map fst mp, length pre + length mp)"
proof (induction mp arbitrary: pre)
  case Nil
  then show ?case by simp
next
  case (Cons e mp)
  obtain k v where "e = (k, v)" by (cases e)
  with Cons.IH [of "pre @ [k]"] show ?case by (simp add: set_index_append)
qed

lemma Keys_keys: "Keys dict = Inr (map fst (m dict))"
  using Keys_loop [of "m dict" "[]"] by (simp add: Keys_def Len_length)

lemma RandomDistinctKeys_loop:
  "0 < k \<Longrightarrow> int (length pre + k) = n \<Longrightarrow>
   \<exists>i. Range_go (\<lambda>key val (result, index).
      go_bind (set_index result index key) (\<lambda>result.
        if int (index + 1) \<ge> n then Inr (False, (result, index + 1))
        else Inr (True, (result, index + 1))))
    mp (pre @ replicate k [], length pre) =
   Inr (pre @ take k (map fst mp) @ replicate (k - length mp) [], i)"
proof (induction mp arbitrary: pre k)
  case Nil
  then show ?case by simp
next
  case (Cons e mp)
  obtain key v where e: "e = (key, v)" by (cases e)
  obtain l where k: "k = Suc l" using Cons.prems by (cases k) auto
  show ?case
  proof (cases l)
    case 0
    with Cons.prems e k show ?thesis by (simp add: set_index_append)
  next
    case (Suc l')
    with Cons.IH [of l "pre @ [key]"] Cons.prems e k show ?thesis
      by (auto simp: set_index_append)
  qed
qed

lemma RandomDistinctKeys_keys:
  assumes "0 < n" and "n \<le> 2 ^ 44"
  shows "RandomDistinctKeys n dict =
    Inr (take (nat n) (map fst (m dict)) @ replicate (nat n - length (m dict)) [])"
  using RandomDistinctKeys_loop [of "nat n" "[]" n "m dict"] assms
  by (auto simp: RandomDistinctKeys_def make_strings_def make_slice_def maxAlloc_def)

lemma RandomDistinctKeys_zero:
  "RandomDistinctKeys 0 dict = (if m dict = [] then Inr [] else Inl IndexOutOfRange)"
  by (cases "m dict") (auto simp: RandomDistinctKeys_def make_strings_def make_slice_def maxAlloc_def set_index_def)

section \<open>Properties\<close>

text \<open>
  After \<^verbatim>\<open>Put\<close> a lookup returns the stored value for that key and what it returned
  before for every other key, and the result counts the keys added (1) or updated (0).
\<close>

theorem dict_put_then_get:
  assumes "dict_invar d"
  shows "Get k' (snd (Put k v d)) = (if k' = k then Some v else Get k' d) \<and>
    fst (Put k v d) = (if Get k d = None then 1 else 0) \<and> dict_invar (snd (Put k v d))"
  using sync.get_put [OF assms, of k' k v]
    sync.put_abs [OF assms, of k v "fst (Put k v d)" "snd (Put k v d)"] sync.get_abs [OF assms, of k]
  by (auto simp: domIff)

theorem dict_put_then_get_witness:
  "Get ''b'' (snd (Put ''a'' (7::nat) \<lparr>m = [(''b'', 5)]\<rparr>)) =
     (if ''b'' = ''a'' then Some 7 else Get ''b'' \<lparr>m = [(''b'', 5 :: nat)]\<rparr>) \<and>
   fst (Put ''a'' (7::nat) \<lparr>m = [(''b'', 5)]\<rparr>) = (if Get ''a'' \<lparr>m = [(''b'', 5 :: nat)]\<rparr> = None then 1 else 0) \<and>
   dict_invar (snd (Put ''a'' (7::nat) \<lparr>m = [(''b'', 5)]\<rparr>))"
  by (rule dict_put_then_get) (simp add: dict_invar_def)

text \<open>
  \<^verbatim>\<open>RandomDistinctKeys(n)\<close> does not panic for a positive \<open>n\<close> a slice can have: it gives the first \<open>n\<close>
  keys of the traversal, padded with empty strings when the dictionary is smaller.  For
  \<open>n = 0\<close> it panics on every dictionary that is not empty.
\<close>

theorem random_distinct_keys_result:
  "(if 0 < n \<and> n \<le> 2 ^ 44 then RandomDistinctKeys n dict =
      Inr (take (nat n) (map fst (m dict)) @ replicate (nat n - length (m dict)) [])
    else if n = 0 then RandomDistinctKeys n dict =
      (if m dict = [] then Inr [] else Inl IndexOutOfRange)
    else RandomDistinctKeys n dict = Inl MakeSliceLen)"
  by (simp add: RandomDistinctKeys_keys RandomDistinctKeys_zero)
    (auto simp: RandomDistinctKeys_def make_strings_def make_slice_def maxAlloc_def)

text \<open>
  \<^verbatim>\<open>ForEach\<close> visits every entry whatever the consumer answers, although the interface
  says that false stops the traversal.
\<close>

theorem foreach_ignores_consumer:
  "ForEach (\<lambda>key val acc. (False, acc @ [(key, val)])) dict [] = m dict"
proof -
  have "fold (\<lambda>(key, val) s. s @ [(key, val)]) mp acc = acc @ mp" for mp and acc :: "(string \<times> 'a) list"
    by (induction mp arbitrary: acc) auto
  then show ?thesis by (simp add: ForEach_fold case_prod_unfold)
qed

end
