(* ===== verification/Database.thy ===== *)
theory Database
  imports Dict Reply Utils Wildcard
begin

text \<open>
  One numbered database of the \<^verbatim>\<open>database\<close> package: \<^verbatim>\<open>db.go\<close>, the command table of
  \<^verbatim>\<open>commend.go\<close>, and the commands of \<^verbatim>\<open>string.go\<close>, \<^verbatim>\<open>keys.go\<close> and
  \<^verbatim>\<open>ping.go\<close>.  A command is an \<open>ExecFunc\<close>: it takes the database and the arguments and
  gives the reply, the database afterwards and the command lines it passed to \<^verbatim>\<open>addAof\<close>,
  in order; indexing an argument that is not there is a panic.

  The contract of the package is \<open>redis_step\<close>, a step relation on an abstract map from keys
  to byte strings with one rule per outcome of a command; the refinement theorem says that
  executing any non-empty command line is such a step, whatever the state.
\<close>

section \<open>Entities and databases\<close>

text \<open>The dynamic type of an entity's \<^verbatim>\<open>Data\<close>: \<^verbatim>\<open>[]byte\<close>, or something else.\<close>

datatype entity_data = ByteSlice bytes | OtherData

datatype DataEntity = DataEntity (entity_data: entity_data)

text \<open>
  The field \<^verbatim>\<open>addAof\<close> is a function: the no-op of \<open>makeDB\<close>, or the closure that calls
  \<^verbatim>\<open>AofHandler.AddAof\<close> with the index the loop of \<^verbatim>\<open>NewStandaloneDatabase\<close> captured.
\<close>

datatype aof_hook = NoAof | AddAofAt int

record DB =
  index :: int
  data :: "DataEntity SyncDict"
  addAof :: aof_hook

definition makeDB :: DB where
  "makeDB = \<lparr>index = 0, data = MakeSyncDict, addAof = NoAof\<rparr>"

type_synonym exec_result = "(reply \<times> DB \<times> CmdLine list) go"
type_synonym ExecFunc = "DB \<Rightarrow> bytes list \<Rightarrow> exec_result"

definition GetEntity :: "string \<Rightarrow> DB \<Rightarrow> DataEntity option" where
  "GetEntity key db = Get key (data db)"

definition PutEntity :: "string \<Rightarrow> DataEntity \<Rightarrow> DB \<Rightarrow> int \<times> DB" where
  "PutEntity key entity db =
     (case Put key entity (data db) of (r, d) \<Rightarrow> (r, db\<lparr>data := d\<rparr>))"

definition DB_PutIfExists :: "string \<Rightarrow> DataEntity \<Rightarrow> DB \<Rightarrow> int \<times> DB" where
  "DB_PutIfExists key entity db =
     (case PutIfExists key entity (data db) of (r, d) \<Rightarrow> (r, db\<lparr>data := d\<rparr>))"

definition DB_PutIfAbsent :: "string \<Rightarrow> DataEntity \<Rightarrow> DB \<Rightarrow> int \<times> DB" where
  "DB_PutIfAbsent key entity db =
     (case PutIfAbsent key entity (data db) of (r, d) \<Rightarrow> (r, db\<lparr>data := d\<rparr>))"

definition DB_Remove :: "string \<Rightarrow> DB \<Rightarrow> DB" where
  "DB_Remove key db = db\<lparr>data := snd (Remove key (data db))\<rparr>"

definition Removes :: "string list \<Rightarrow> DB \<Rightarrow> int \<times> DB" where
  "Removes keys db =
     (case removes_loop Remove keys (0, data db) of (deleted, d) \<Rightarrow> (deleted, db\<lparr>data := d\<rparr>))"

definition Flush :: "DB \<Rightarrow> DB" where
  "Flush db = db\<lparr>data := Clear (data db)\<rparr>"

section \<open>keys.go\<close>

definition execDel :: ExecFunc where
  "execDel db args =
     (let keys = map (\<lambda>arg. arg) args;
          (deleted, db) = Removes keys db;
          log = (if deleted > 0 then [ToCmdLine3 ''del'' args] else [])
      in Inr (MakeIntReply (word_of_int deleted), db, log))"

definition execExists :: ExecFunc where
  "execExists db args =
     (let keys = map (\<lambda>arg. arg) args;
          result = exists_loop (\<lambda>key. GetEntity key db \<noteq> None) keys 0
      in Inr (MakeIntReply (word_of_int result), db, []))"

definition execFlushDB :: ExecFunc where
  "execFlushDB db args = Inr (OkReply, Flush db, [ToCmdLine3 ''flushdb'' args])"

definition execType :: ExecFunc where
  "execType db args =
     go_bind (go_index args 0) (\<lambda>key.
       case GetEntity key db of
         None \<Rightarrow> Inr (StatusReply ''none'', db, [])
       | Some entity \<Rightarrow>
           (case entity_data entity of
              ByteSlice v \<Rightarrow> Inr (StatusReply ''string'', db, [])
            | OtherData \<Rightarrow> Inr (UnknowErrReply, db, [])))"

definition execRename :: ExecFunc where
  "execRename db args =
     go_bind (go_index args 0) (\<lambda>oldKey. go_bind (go_index args 1) (\<lambda>newKey.
       case GetEntity oldKey db of
         None \<Rightarrow> Inr (MakeErrReply ''no such key'', db, [])
       | Some entity \<Rightarrow>
           (let db = snd (PutEntity newKey entity db);
                db = DB_Remove oldKey db
            in Inr (OkReply, db, [ToCmdLine3 ''rename'' args]))))"

definition execRenamenx :: ExecFunc where
  "execRenamenx db args =
     go_bind (go_index args 0) (\<lambda>oldKey. go_bind (go_index args 1) (\<lambda>newKey.
       if GetEntity newKey db \<noteq> None then Inr (MakeIntReply 0, db, [])
       else
         (case GetEntity oldKey db of
            None \<Rightarrow> Inr (MakeErrReply ''no such key'', db, [])
          | Some entity \<Rightarrow>
              (let db = snd (PutEntity newKey entity db);
                   db = DB_Remove oldKey db
               in Inr (MakeIntReply 1, db, [ToCmdLine3 ''renamenx'' args])))))"

definition execKeys :: ExecFunc where
  "execKeys db args =
     go_bind (go_index args 0) (\<lambda>arg.
       (let pattern = CompilePattern arg;
            result = ForEach (\<lambda>key value result.
                (True, if IsMatch pattern key then result @ [key] else result)) (data db) []
        in Inr (MakeMultiBulkReply result, db, [])))"

section \<open>string.go and ping.go\<close>

definition wrong_type :: reply where
  "wrong_type = MakeErrReply ''WRONGTYPE Operation against a key holding the wrong kind of value''"

definition execGet :: ExecFunc where
  "execGet db args =
     go_bind (go_index args 0) (\<lambda>key.
       case GetEntity key db of
         None \<Rightarrow> Inr (NullBulkReply, db, [])
       | Some entity \<Rightarrow>
           (case entity_data entity of
              ByteSlice val \<Rightarrow> Inr (BulkReply val, db, [])
            | OtherData \<Rightarrow> Inr (wrong_type, db, [])))"

definition execSet :: ExecFunc where
  "execSet db args =
     go_bind (go_index args 0) (\<lambda>key. go_bind (go_index args 1) (\<lambda>value.
       (let entity = DataEntity (ByteSlice value);
            db = snd (PutEntity key entity db)
        in Inr (OkReply, db, [ToCmdLine3 ''set'' args]))))"

definition execSetnx :: ExecFunc where
  "execSetnx db args =
     go_bind (go_index args 0) (\<lambda>key. go_bind (go_index args 1) (\<lambda>value.
       (let entity = DataEntity (ByteSlice value);
            (result, db) = DB_PutIfAbsent key entity db
        in Inr (MakeIntReply (word_of_int result), db, [ToCmdLine3 ''setnx'' args]))))"

definition execGetset :: ExecFunc where
  "execGetset db args =
     go_bind (go_index args 0) (\<lambda>key. go_bind (go_index args 1) (\<lambda>value.
       (let newEntity = DataEntity (ByteSlice value);
            old = GetEntity key db;
            db = snd (PutEntity key newEntity db);
            log = [ToCmdLine3 ''getset'' args]
        in case old of
             None \<Rightarrow> Inr (NullBulkReply, db, log)
           | Some oldEntity \<Rightarrow>
               (case entity_data oldEntity of
                  ByteSlice oldValue \<Rightarrow> Inr (BulkReply oldValue, db, log)
                | OtherData \<Rightarrow> Inr (wrong_type, db, log)))))"

definition execStrlen :: ExecFunc where
  "execStrlen db args =
     go_bind (go_index args 0) (\<lambda>key.
       case GetEntity key db of
         None \<Rightarrow> Inr (NullBulkReply, db, [])
       | Some entity \<Rightarrow>
           (case entity_data entity of
              ByteSlice val \<Rightarrow> Inr (MakeIntReply (word_of_int (int (length val))), db, [])
            | OtherData \<Rightarrow> Inr (wrong_type, db, [])))"

definition Ping :: ExecFunc where
  "Ping db args = Inr (PongReply, db, [])"

section \<open>The command table\<close>

record command =
  exector :: ExecFunc
  arity :: int

type_synonym cmd_table = "string \<rightharpoonup> command"

definition RegisterCommand :: "(nat \<Rightarrow> nat) \<Rightarrow> string \<Rightarrow> ExecFunc \<Rightarrow> int \<Rightarrow> cmd_table \<Rightarrow> cmd_table" where
  "RegisterCommand u name ex ar tbl = tbl(ToLower u name \<mapsto> \<lparr>exector = ex, arity = ar\<rparr>)"

definition init_keys :: "(nat \<Rightarrow> nat) \<Rightarrow> cmd_table \<Rightarrow> cmd_table" where
  "init_keys u tbl =
     (let tbl = RegisterCommand u ''del'' execDel (-2) tbl;
          tbl = RegisterCommand u ''exists'' execExists (-2) tbl;
          tbl = RegisterCommand u ''flushdb'' execFlushDB (-1) tbl;
          tbl = RegisterCommand u ''type'' execType 2 tbl;
          tbl = RegisterCommand u ''rename'' execRename 3 tbl;
          tbl = RegisterCommand u ''renamenx'' execRenamenx 3 tbl;
          tbl = RegisterCommand u ''keys'' execKeys 2 tbl
      in tbl)"

definition init_ping :: "(nat \<Rightarrow> nat) \<Rightarrow> cmd_table \<Rightarrow> cmd_table" where
  "init_ping u tbl = RegisterCommand u ''ping'' Ping 1 tbl"

definition init_string :: "(nat \<Rightarrow> nat) \<Rightarrow> cmd_table \<Rightarrow> cmd_table" where
  "init_string u tbl =
     (let tbl = RegisterCommand u ''SET'' execSet 3 tbl;
          tbl = RegisterCommand u ''GET'' execGet 2 tbl;
          tbl = RegisterCommand u ''SETNX'' execSetnx 3 tbl;
          tbl = RegisterCommand u ''GETSET'' execGetset 3 tbl;
          tbl = RegisterCommand u ''STRLEN'' execStrlen 2 tbl
      in tbl)"

text \<open>The package's \<^verbatim>\<open>init\<close> functions run in the order of the file names.\<close>

definition cmdTable :: "(nat \<Rightarrow> nat) \<Rightarrow> cmd_table" where
  "cmdTable u = init_string u (init_ping u (init_keys u Map.empty))"

definition validateArity :: "int \<Rightarrow> CmdLine \<Rightarrow> bool" where
  "validateArity ar cmdArgs =
     (let len = int (length cmdArgs) in if ar \<ge> 0 then ar = len else len \<ge> - ar)"

definition DB_Exec :: "(nat \<Rightarrow> nat) \<Rightarrow> DB \<Rightarrow> CmdLine \<Rightarrow> exec_result" where
  "DB_Exec u db line =
     go_bind (go_index line 0) (\<lambda>name.
       (let cmdName = ToLower u name in
        case cmdTable u cmdName of
          None \<Rightarrow> Inr (MakeErrReply (''ERR unknown command '' @ [QUOTE] @ cmdName @ [QUOTE]), db, [])
        | Some cmd \<Rightarrow>
            if \<not> validateArity (arity cmd) line then Inr (ArgNumErrReply cmdName, db, [])
            else exector cmd db (tl line)))"

section \<open>Looking commands up\<close>

lemma ToLower_names [simp]:
  "ToLower u ''del'' = ''del''" "ToLower u ''exists'' = ''exists''"
  "ToLower u ''flushdb'' = ''flushdb''" "ToLower u ''type'' = ''type''"
  "ToLower u ''rename'' = ''rename''" "ToLower u ''renamenx'' = ''renamenx''"
  "ToLower u ''keys'' = ''keys''" "ToLower u ''ping'' = ''ping''"
  "ToLower u ''SET'' = ''set''" "ToLower u ''GET'' = ''get''"
  "ToLower u ''SETNX'' = ''setnx''" "ToLower u ''GETSET'' = ''getset''"
  "ToLower u ''STRLEN'' = ''strlen''" "ToLower u ''set'' = ''set''" "ToLower u ''get'' = ''get''"
  "ToLower u ''setnx'' = ''setnx''" "ToLower u ''getset'' = ''getset''"
  "ToLower u ''strlen'' = ''strlen''" "ToLower u ''select'' = ''select''"
  by (simp_all add: ToLower_def ascii_def ascii_lower_def char_of_eq_iff)

lemma cmdTable_eq:
  "cmdTable u =
     [''del'' \<mapsto> \<lparr>exector = execDel, arity = -2\<rparr>, ''exists'' \<mapsto> \<lparr>exector = execExists, arity = -2\<rparr>,
      ''flushdb'' \<mapsto> \<lparr>exector = execFlushDB, arity = -1\<rparr>, ''type'' \<mapsto> \<lparr>exector = execType, arity = 2\<rparr>,
      ''rename'' \<mapsto> \<lparr>exector = execRename, arity = 3\<rparr>, ''renamenx'' \<mapsto> \<lparr>exector = execRenamenx, arity = 3\<rparr>,
      ''keys'' \<mapsto> \<lparr>exector = execKeys, arity = 2\<rparr>, ''ping'' \<mapsto> \<lparr>exector = Ping, arity = 1\<rparr>,
      ''set'' \<mapsto> \<lparr>exector = execSet, arity = 3\<rparr>, ''get'' \<mapsto> \<lparr>exector = execGet, arity = 2\<rparr>,
      ''setnx'' \<mapsto> \<lparr>exector = execSetnx, arity = 3\<rparr>, ''getset'' \<mapsto> \<lparr>exector = execGetset, arity = 3\<rparr>,
      ''strlen'' \<mapsto> \<lparr>exector = execStrlen, arity = 2\<rparr>]"
  by (simp add: cmdTable_def init_string_def init_ping_def init_keys_def RegisterCommand_def)

text \<open>Every registered command, with its argument count: the case analysis of \<open>DB_Exec\<close>.\<close>

definition known_commands :: "string set" where
  "known_commands = {''del'', ''exists'', ''flushdb'', ''type'', ''rename'', ''renamenx'', ''keys'',
     ''ping'', ''set'', ''get'', ''setnx'', ''getset'', ''strlen''}"

lemma dom_cmdTable: "dom (cmdTable u) = known_commands"
  by (auto simp: cmdTable_eq known_commands_def)

text \<open>Whether a command with that many arguments (its name not counted) is accepted.\<close>

definition arity_ok :: "string \<Rightarrow> nat \<Rightarrow> bool" where
  "arity_ok c n \<longleftrightarrow>
     (if c \<in> {''del'', ''exists''} then 1 \<le> n
      else if c = ''flushdb'' then True
      else if c = ''ping'' then n = 0
      else if c \<in> {''set'', ''setnx'', ''getset'', ''rename'', ''renamenx''} then n = 2
      else n = 1)"

lemma validateArity_arity_ok:
  "cmdTable u c = Some cmd \<Longrightarrow> validateArity (arity cmd) (name # as) \<longleftrightarrow> arity_ok c (length as)"
  by (auto simp: cmdTable_eq validateArity_def arity_ok_def split: if_splits)

lemma DB_Exec_unknown:
  "ToLower u name \<notin> known_commands \<Longrightarrow>
   DB_Exec u db (name # as) =
     Inr (MakeErrReply (''ERR unknown command '' @ [QUOTE] @ ToLower u name @ [QUOTE]), db, [])"
proof -
  assume "ToLower u name \<notin> known_commands"
  then have "cmdTable u (ToLower u name) = None" using dom_cmdTable [of u] by blast
  then show ?thesis by (simp only: DB_Exec_def Let_def go_simps option.case)
qed

lemma DB_Exec_arity:
  assumes "ToLower u name \<in> known_commands" and "\<not> arity_ok (ToLower u name) (length as)"
  shows "DB_Exec u db (name # as) = Inr (ArgNumErrReply (ToLower u name), db, [])"
proof -
  obtain cmd where "cmdTable u (ToLower u name) = Some cmd"
    using assms(1) dom_cmdTable [of u] by auto
  with assms(2) validateArity_arity_ok [OF this, of name as] show ?thesis by (simp add: DB_Exec_def)
qed

lemma DB_Exec_run:
  assumes "cmdTable u (ToLower u name) = Some cmd" and "arity_ok (ToLower u name) (length as)"
  shows "DB_Exec u db (name # as) = exector cmd db as"
  using assms validateArity_arity_ok [OF assms(1), of name as] by (simp add: DB_Exec_def)

section \<open>The abstract store\<close>

type_synonym store = "string \<rightharpoonup> bytes"

definition entity_bytes :: "DataEntity \<Rightarrow> bytes option" where
  "entity_bytes e = (case entity_data e of ByteSlice v \<Rightarrow> Some v | OtherData \<Rightarrow> None)"

definition db_abs :: "DB \<Rightarrow> store" where
  "db_abs db = (\<lambda>k. Option.bind (dict_abs (data db) k) entity_bytes)"

text \<open>Keys are distinct and every entity holds a byte slice.\<close>

definition db_inv :: "DB \<Rightarrow> bool" where
  "db_inv db \<longleftrightarrow> dict_invar (data db) \<and>
     (\<forall>k e. dict_abs (data db) k = Some e \<longrightarrow> entity_bytes e \<noteq> None)"

text \<open>One rule per outcome of a command.\<close>

inductive redis_step :: "store \<Rightarrow> string \<Rightarrow> bytes list \<Rightarrow> reply \<Rightarrow> store \<Rightarrow> bool" where
  unknown: "c \<notin> known_commands \<Longrightarrow>
    redis_step s c as (StandardErrReply (''ERR unknown command '' @ [QUOTE] @ c @ [QUOTE])) s"
| arity_error: "c \<in> known_commands \<Longrightarrow> \<not> arity_ok c (length as) \<Longrightarrow>
    redis_step s c as (ArgNumErrReply c) s"
| ping: "redis_step s ''ping'' [] PongReply s"
| get_hit: "s k = Some v \<Longrightarrow> redis_step s ''get'' [k] (BulkReply v) s"
| get_miss: "s k = None \<Longrightarrow> redis_step s ''get'' [k] NullBulkReply s"
| set: "redis_step s ''set'' [k, v] OkReply (s(k \<mapsto> v))"
| setnx_old: "s k = Some w \<Longrightarrow> redis_step s ''setnx'' [k, v] (IntReply 0) s"
| setnx_new: "s k = None \<Longrightarrow> redis_step s ''setnx'' [k, v] (IntReply 1) (s(k \<mapsto> v))"
| getset_hit: "s k = Some w \<Longrightarrow> redis_step s ''getset'' [k, v] (BulkReply w) (s(k \<mapsto> v))"
| getset_miss: "s k = None \<Longrightarrow> redis_step s ''getset'' [k, v] NullBulkReply (s(k \<mapsto> v))"
| strlen_hit: "s k = Some v \<Longrightarrow> redis_step s ''strlen'' [k] (IntReply (of_nat (length v))) s"
| strlen_miss: "s k = None \<Longrightarrow> redis_step s ''strlen'' [k] NullBulkReply s"
| del: "ks \<noteq> [] \<Longrightarrow>
    redis_step s ''del'' ks (IntReply (of_nat (card (set ks \<inter> dom s)))) (s |` (- set ks))"
| exists: "ks \<noteq> [] \<Longrightarrow>
    redis_step s ''exists'' ks (IntReply (of_nat (length (filter (\<lambda>k. k \<in> dom s) ks)))) s"
| type_hit: "s k = Some v \<Longrightarrow> redis_step s ''type'' [k] (StatusReply ''string'') s"
| type_miss: "s k = None \<Longrightarrow> redis_step s ''type'' [k] (StatusReply ''none'') s"
| rename_hit: "s k = Some v \<Longrightarrow> redis_step s ''rename'' [k, k'] OkReply ((s(k' \<mapsto> v))(k := None))"
| rename_miss: "s k = None \<Longrightarrow> redis_step s ''rename'' [k, k'] (StandardErrReply ''no such key'') s"
| renamenx_taken: "s k' = Some w \<Longrightarrow> redis_step s ''renamenx'' [k, k'] (IntReply 0) s"
| renamenx_miss: "s k' = None \<Longrightarrow> s k = None \<Longrightarrow>
    redis_step s ''renamenx'' [k, k'] (StandardErrReply ''no such key'') s"
| renamenx_hit: "s k' = None \<Longrightarrow> s k = Some v \<Longrightarrow>
    redis_step s ''renamenx'' [k, k'] (IntReply 1) ((s(k' \<mapsto> v))(k := None))"
| flushdb: "redis_step s ''flushdb'' as OkReply Map.empty"
| keys: "distinct ks \<Longrightarrow> set ks = {k \<in> dom s. IsMatch (CompilePattern p) k} \<Longrightarrow>
    redis_step s ''keys'' [p] (MultiBulkReply ks) s"

section \<open>The operations on the abstract store\<close>

lemma GetEntity_None: "db_inv db \<Longrightarrow> GetEntity k db = None \<longleftrightarrow> db_abs db k = None"
  unfolding GetEntity_def db_inv_def db_abs_def
  using sync.get_abs [of "data db" k] by (cases "dict_abs (data db) k") auto

lemma GetEntity_Some:
  "db_inv db \<Longrightarrow> GetEntity k db = Some e \<Longrightarrow> \<exists>v. e = DataEntity (ByteSlice v) \<and> db_abs db k = Some v"
  using sync.get_abs [of "data db" k]
  by (cases e) (fastforce simp: GetEntity_def db_inv_def db_abs_def entity_bytes_def
      split: entity_data.splits)

lemma db_inv_update:
  assumes "db_inv db" and "dict_invar d"
    and "dict_abs d = f (dict_abs (data db))"
    and "\<And>k e. f (dict_abs (data db)) k = Some e \<Longrightarrow> entity_bytes e \<noteq> None"
  shows "db_inv (db\<lparr>data := d\<rparr>)"
  using assms by (simp add: db_inv_def)

lemma PutEntity_step:
  assumes "db_inv db" and "PutEntity k (DataEntity (ByteSlice v)) db = (r, db')"
  shows "db_inv db' \<and> db_abs db' = (db_abs db)(k \<mapsto> v) \<and> r = (if db_abs db k = None then 1 else 0)"
proof -
  obtain d where d: "Put k (DataEntity (ByteSlice v)) (data db) = (r, d)" "db' = db\<lparr>data := d\<rparr>"
    using assms(2) by (auto simp: PutEntity_def split: prod.splits)
  have inv: "dict_invar (data db)" using assms(1) by (simp add: db_inv_def)
  note p = sync.put_abs [OF inv d(1)]
  have "db_abs db k = None \<longleftrightarrow> dict_abs (data db) k = None"
    using assms(1) by (cases "dict_abs (data db) k") (auto simp: db_abs_def db_inv_def)
  with p assms(1) d(2) show ?thesis
    by (auto simp: db_inv_def db_abs_def entity_bytes_def fun_eq_iff domIff split: if_splits)
qed

lemma DB_PutIfAbsent_step:
  assumes "db_inv db" and "DB_PutIfAbsent k (DataEntity (ByteSlice v)) db = (r, db')"
  shows "db_inv db' \<and>
    (if db_abs db k = None then db_abs db' = (db_abs db)(k \<mapsto> v) \<and> r = 1
     else db_abs db' = db_abs db \<and> r = 0)"
proof -
  obtain d where d: "PutIfAbsent k (DataEntity (ByteSlice v)) (data db) = (r, d)" "db' = db\<lparr>data := d\<rparr>"
    using assms(2) by (auto simp: DB_PutIfAbsent_def split: prod.splits)
  have inv: "dict_invar (data db)" using assms(1) by (simp add: db_inv_def)
  note p = sync.put_if_absent_abs [OF inv d(1)]
  have "db_abs db k = None \<longleftrightarrow> dict_abs (data db) k = None"
    using assms(1) by (cases "dict_abs (data db) k") (auto simp: db_abs_def db_inv_def)
  with p assms(1) d(2) show ?thesis
    by (auto simp: db_inv_def db_abs_def entity_bytes_def fun_eq_iff domIff split: if_splits)
qed

lemma DB_Remove_step:
  assumes "db_inv db"
  shows "db_inv (DB_Remove k db) \<and> db_abs (DB_Remove k db) = (db_abs db)(k := None)"
proof -
  have inv: "dict_invar (data db)" using assms by (simp add: db_inv_def)
  note p = sync.remove_abs [OF inv, of k "fst (Remove k (data db))" "snd (Remove k (data db))"]
  with assms show ?thesis
    by (auto simp: DB_Remove_def db_inv_def db_abs_def fun_eq_iff split: if_splits)
qed

lemma Removes_step:
  assumes "db_inv db" and "Removes ks db = (deleted, db')"
  shows "db_inv db' \<and> db_abs db' = (db_abs db) |` (- set ks) \<and>
    deleted = int (card (set ks \<inter> dom (db_abs db)))"
proof -
  obtain d where d: "removes_loop Remove ks (0, data db) = (deleted, d)" "db' = db\<lparr>data := d\<rparr>"
    using assms(2) by (auto simp: Removes_def split: prod.splits)
  have inv: "dict_invar (data db)" using assms(1) by (simp add: db_inv_def)
  note p = sync.removes_loop_abs [OF inv d(1)]
  have "db_abs db k = None \<longleftrightarrow> dict_abs (data db) k = None" for k
    using assms(1) by (cases "dict_abs (data db) k") (auto simp: db_abs_def db_inv_def)
  then have "dom (db_abs db) = dom (dict_abs (data db))" by (simp add: dom_def)
  with p assms(1) d(2) show ?thesis
    by (auto simp: db_inv_def db_abs_def fun_eq_iff restrict_map_def split: if_splits)
qed

lemma Flush_step: "db_inv db \<Longrightarrow> db_inv (Flush db) \<and> db_abs (Flush db) = Map.empty"
  using sync.clear_abs [of "data db"] by (simp add: Flush_def db_inv_def db_abs_def)

section \<open>Every command is a step\<close>

text \<open>
  A computation refines the step relation for a command: it does not panic, keeps the
  invariant, and its reply and new state are one of the outcomes; it reports at most one line
  to the append-only file, namely the command itself, and changes nothing when it reports none.
\<close>

definition refines :: "DB \<Rightarrow> string \<Rightarrow> bytes list \<Rightarrow> exec_result \<Rightarrow> bool" where
  "refines db c as res \<longleftrightarrow>
     (case res of
        Inl p \<Rightarrow> False
      | Inr (r, db', log) \<Rightarrow>
          db_inv db' \<and> redis_step (db_abs db) c as r (db_abs db') \<and>
          index db' = index db \<and> addAof db' = addAof db \<and>
          (log = [] \<and> db' = db \<or> log = [c # as]))"

lemma refines_Inr [simp]:
  "refines db c as (Inr (r, db', log)) \<longleftrightarrow>
     db_inv db' \<and> redis_step (db_abs db) c as r (db_abs db') \<and>
     index db' = index db \<and> addAof db' = addAof db \<and>
     (log = [] \<and> db' = db \<or> log = [c # as])"
  by (simp add: refines_def)

lemma hooks_kept [simp]:
  "index (snd (PutEntity k e db)) = index db" "addAof (snd (PutEntity k e db)) = addAof db"
  "index (snd (DB_PutIfAbsent k e db)) = index db" "addAof (snd (DB_PutIfAbsent k e db)) = addAof db"
  "index (DB_Remove k db) = index db" "addAof (DB_Remove k db) = addAof db"
  "index (snd (Removes ks db)) = index db" "addAof (snd (Removes ks db)) = addAof db"
  "index (Flush db) = index db" "addAof (Flush db) = addAof db"
  by (simp_all add: PutEntity_def DB_PutIfAbsent_def DB_Remove_def Removes_def Flush_def
      split: prod.splits)

lemma length_1: "length xs = 1 \<longleftrightarrow> (\<exists>a. xs = [a])"
  by (cases xs) auto

lemma length_2: "length xs = 2 \<longleftrightarrow> (\<exists>a b. xs = [a, b])"
  by (cases xs; cases "tl xs") auto

lemma PutEntity_snd:
  assumes "db_inv db"
  shows "db_inv (snd (PutEntity k (DataEntity (ByteSlice v)) db))"
    and "db_abs (snd (PutEntity k (DataEntity (ByteSlice v)) db)) = (db_abs db)(k \<mapsto> v)"
  using PutEntity_step [OF assms, of k v "fst (PutEntity k (DataEntity (ByteSlice v)) db)"
      "snd (PutEntity k (DataEntity (ByteSlice v)) db)"] by simp_all

text \<open>The cases of a lookup in a database that keeps the invariant.\<close>

lemma lookup_cases:
  assumes "db_inv db"
  obtains (miss) "GetEntity k db = None" "db_abs db k = None"
  | (hit) v where "GetEntity k db = Some (DataEntity (ByteSlice v))" "db_abs db k = Some v"
  using GetEntity_None [OF assms, of k] GetEntity_Some [OF assms, of k]
  by (cases "GetEntity k db") auto

lemma execGet_refines: "db_inv db \<Longrightarrow> refines db ''get'' [k] (execGet db [k])"
  by (rule lookup_cases [of db k]) (auto simp: execGet_def intro: redis_step.intros)

lemma execSet_refines: "db_inv db \<Longrightarrow> refines db ''set'' [k, v] (execSet db [k, v])"
  by (simp add: execSet_def Let_def ToCmdLine3_def PutEntity_snd redis_step.set)

lemma execSetnx_refines:
  assumes "db_inv db"
  shows "refines db ''setnx'' [k, v] (execSetnx db [k, v])"
proof -
  obtain n db' where p: "DB_PutIfAbsent k (DataEntity (ByteSlice v)) db = (n, db')"
    by (cases "DB_PutIfAbsent k (DataEntity (ByteSlice v)) db")
  from hooks_kept(3,4) [of k "DataEntity (ByteSlice v)" db] p
  have "index db' = index db" "addAof db' = addAof db" by simp_all
  with DB_PutIfAbsent_step [OF assms p] p show ?thesis
    by (cases "db_abs db k")
      (auto simp: execSetnx_def ToCmdLine3_def MakeIntReply_def intro: redis_step.setnx_old redis_step.setnx_new)
qed

lemma execGetset_refines: "db_inv db \<Longrightarrow> refines db ''getset'' [k, v] (execGetset db [k, v])"
  by (rule lookup_cases [of db k])
    (auto simp: execGetset_def Let_def ToCmdLine3_def PutEntity_snd
      intro: redis_step.getset_hit redis_step.getset_miss)

lemma execStrlen_refines: "db_inv db \<Longrightarrow> refines db ''strlen'' [k] (execStrlen db [k])"
  by (rule lookup_cases [of db k])
    (auto simp: execStrlen_def MakeIntReply_def intro: redis_step.strlen_miss redis_step.strlen_hit)

lemma execType_refines: "db_inv db \<Longrightarrow> refines db ''type'' [k] (execType db [k])"
  by (rule lookup_cases [of db k]) (auto simp: execType_def intro: redis_step.intros)

lemma execRename_refines: "db_inv db \<Longrightarrow> refines db ''rename'' [k, k'] (execRename db [k, k'])"
  by (rule lookup_cases [of db k])
    (auto simp: execRename_def Let_def ToCmdLine3_def PutEntity_snd DB_Remove_step MakeErrReply_def
      intro: redis_step.rename_hit redis_step.rename_miss)

lemma execRenamenx_refines:
  assumes "db_inv db"
  shows "refines db ''renamenx'' [k, k'] (execRenamenx db [k, k'])"
proof (cases rule: lookup_cases [OF assms, of k', case_names miss hit])
  case miss
  with assms show ?thesis
    by (cases rule: lookup_cases [OF assms, of k])
      (auto simp: execRenamenx_def Let_def ToCmdLine3_def PutEntity_snd DB_Remove_step
        MakeErrReply_def MakeIntReply_def intro: redis_step.renamenx_hit redis_step.renamenx_miss)
next
  case (hit w)
  with assms show ?thesis
    by (auto simp: execRenamenx_def MakeIntReply_def intro: redis_step.renamenx_taken)
qed

lemma execDel_refines:
  assumes "db_inv db" and "ks \<noteq> []"
  shows "refines db ''del'' ks (execDel db ks)"
proof -
  obtain n db' where p: "Removes ks db = (n, db')" by (cases "Removes ks db")
  from hooks_kept(7,8) [of ks db] p have hooks: "index db' = index db" "addAof db' = addAof db"
    by simp_all
  note step = Removes_step [OF assms(1) p]
  have "redis_step (db_abs db) ''del'' ks (IntReply (word_of_int n)) (db_abs db')"
    using step redis_step.del [OF assms(2), of "db_abs db"] by simp
  moreover have "db' = db" if "\<not> n > 0"
  proof -
    have "db' = db\<lparr>data := snd (removes_loop Remove ks (0, data db))\<rparr>"
      and "removes_loop Remove ks (0, data db) = (n, snd (removes_loop Remove ks (0, data db)))"
      using p by (auto simp: Removes_def split: prod.splits)
    with removes_loop_none [of ks 0 "data db" n] that show ?thesis by simp
  qed
  ultimately show ?thesis using step hooks p
    by (auto simp: execDel_def MakeIntReply_def ToCmdLine3_def)
qed

lemma execExists_refines:
  assumes "db_inv db" and "ks \<noteq> []"
  shows "refines db ''exists'' ks (execExists db ks)"
proof -
  have "(\<lambda>k. GetEntity k db \<noteq> None) = (\<lambda>k. k \<in> dom (db_abs db))"
    using GetEntity_None [OF assms(1)] by (auto simp: fun_eq_iff)
  then show ?thesis using assms redis_step.exists [OF assms(2), of "db_abs db"]
    by (simp add: execExists_def exists_loop_count MakeIntReply_def)
qed

lemma execFlushDB_refines: "db_inv db \<Longrightarrow> refines db ''flushdb'' as (execFlushDB db as)"
  by (simp add: execFlushDB_def ToCmdLine3_def Flush_step redis_step.flushdb)

lemma Ping_refines: "db_inv db \<Longrightarrow> refines db ''ping'' [] (Ping db [])"
  by (simp add: Ping_def redis_step.ping)

lemma keys_loop:
  "fold (\<lambda>(key, val) acc. if P key then acc @ [key] else acc) mp acc = acc @ filter P (map fst mp)"
  by (induction mp arbitrary: acc) auto

lemma execKeys_eq:
  "execKeys db [p] = Inr (MultiBulkReply (filter (IsMatch (CompilePattern p)) (map fst (m (data db)))), db, [])"
  by (simp add: execKeys_def ForEach_fold keys_loop MakeMultiBulkReply_def Let_def)

lemma dom_db_abs: "db_inv db \<Longrightarrow> dom (db_abs db) = fst ` set (m (data db))"
proof -
  assume inv: "db_inv db"
  have "db_abs db k = None \<longleftrightarrow> dict_abs (data db) k = None" for k
    using inv by (cases "dict_abs (data db) k") (auto simp: db_abs_def db_inv_def)
  then show ?thesis by (simp add: dict_abs_def dom_map_of_conv_image_fst [symmetric] dom_def)
qed

lemma execKeys_refines: "db_inv db \<Longrightarrow> refines db ''keys'' [p] (execKeys db [p])"
proof -
  assume inv: "db_inv db"
  have "set (filter (IsMatch (CompilePattern p)) (map fst (m (data db)))) =
      {k \<in> dom (db_abs db). IsMatch (CompilePattern p) k}"
    unfolding dom_db_abs [OF inv] by auto
  moreover have "distinct (filter (IsMatch (CompilePattern p)) (map fst (m (data db))))"
    using inv by (simp add: db_inv_def dict_invar_def)
  ultimately show ?thesis using inv redis_step.keys by (simp add: execKeys_eq)
qed

section \<open>Executing a command line\<close>

lemma known_lookup:
  "c \<in> known_commands \<Longrightarrow> \<exists>cmd. cmdTable u c = Some cmd"
  using dom_cmdTable [of u] by auto

lemma ToLower_known: "c \<in> known_commands \<Longrightarrow> ToLower u c = c"
  by (auto simp: known_commands_def)

lemma arity_ok_names:
  "arity_ok ''del'' n \<longleftrightarrow> 1 \<le> n" "arity_ok ''exists'' n \<longleftrightarrow> 1 \<le> n" "arity_ok ''flushdb'' n"
  "arity_ok ''ping'' n \<longleftrightarrow> n = 0" "arity_ok ''get'' n \<longleftrightarrow> n = 1" "arity_ok ''strlen'' n \<longleftrightarrow> n = 1"
  "arity_ok ''type'' n \<longleftrightarrow> n = 1" "arity_ok ''keys'' n \<longleftrightarrow> n = 1" "arity_ok ''set'' n \<longleftrightarrow> n = 2"
  "arity_ok ''setnx'' n \<longleftrightarrow> n = 2" "arity_ok ''getset'' n \<longleftrightarrow> n = 2"
  "arity_ok ''rename'' n \<longleftrightarrow> n = 2" "arity_ok ''renamenx'' n \<longleftrightarrow> n = 2"
  by (simp_all add: arity_ok_def)

text \<open>The accepted command lines, one case per command.\<close>

lemma accepted_cases:
  assumes "c \<in> known_commands" and "arity_ok c (length as)"
  obtains (del) "c = ''del''" "as \<noteq> []" | (exists) "c = ''exists''" "as \<noteq> []"
  | (flushdb) "c = ''flushdb''" | (ping) "c = ''ping''" "as = []"
  | (get) k where "c = ''get''" "as = [k]" | (strlen) k where "c = ''strlen''" "as = [k]"
  | (type) k where "c = ''type''" "as = [k]" | (keys) k where "c = ''keys''" "as = [k]"
  | (set) k v where "c = ''set''" "as = [k, v]" | (setnx) k v where "c = ''setnx''" "as = [k, v]"
  | (getset) k v where "c = ''getset''" "as = [k, v]"
  | (rename) k v where "c = ''rename''" "as = [k, v]"
  | (renamenx) k v where "c = ''renamenx''" "as = [k, v]"
proof -
  have "c = ''del'' \<and> as \<noteq> [] \<or> c = ''exists'' \<and> as \<noteq> [] \<or> c = ''flushdb'' \<or> c = ''ping'' \<and> as = [] \<or>
    c = ''get'' \<and> length as = 1 \<or> c = ''strlen'' \<and> length as = 1 \<or> c = ''type'' \<and> length as = 1 \<or> c = ''keys'' \<and> length as = 1 \<or>
    c = ''set'' \<and> length as = 2 \<or> c = ''setnx'' \<and> length as = 2 \<or> c = ''getset'' \<and> length as = 2 \<or> c = ''rename'' \<and> length as = 2 \<or> c = ''renamenx'' \<and> length as = 2"
    using assms unfolding known_commands_def
    by (elim insertE emptyE) (simp_all add: arity_ok_names Suc_le_eq)
  then show thesis
  proof (elim disjE conjE, goal_cases)
    case 1
    then show ?case by (rule that(1))
  next
    case 2
    then show ?case by (rule that(2))
  next
    case 3
    then show ?case by (rule that(3))
  next
    case 4
    then show ?case by (rule that(4))
  next
    case 5
    then show ?case unfolding length_1 using that(5) by blast
  next
    case 6
    then show ?case unfolding length_1 using that(6) by blast
  next
    case 7
    then show ?case unfolding length_1 using that(7) by blast
  next
    case 8
    then show ?case unfolding length_1 using that(8) by blast
  next
    case 9
    then show ?case unfolding length_2 using that(9) by blast
  next
    case 10
    then show ?case unfolding length_2 using that(10) by blast
  next
    case 11
    then show ?case unfolding length_2 using that(11) by blast
  next
    case 12
    then show ?case unfolding length_2 using that(12) by blast
  next
    case 13
    then show ?case unfolding length_2 using that(13) by blast
  qed
qed

text \<open>Which function an accepted line runs.\<close>

definition exec_of :: "string \<Rightarrow> ExecFunc" where
  "exec_of c =
     (if c = ''del'' then execDel else if c = ''exists'' then execExists
      else if c = ''flushdb'' then execFlushDB else if c = ''type'' then execType
      else if c = ''rename'' then execRename else if c = ''renamenx'' then execRenamenx
      else if c = ''keys'' then execKeys else if c = ''ping'' then Ping
      else if c = ''set'' then execSet else if c = ''get'' then execGet
      else if c = ''setnx'' then execSetnx else if c = ''getset'' then execGetset else execStrlen)"

lemma cmdTable_exec_of: "cmdTable u c = Some cmd \<Longrightarrow> exector cmd = exec_of c"
  by (auto simp: cmdTable_eq exec_of_def split: if_splits)

lemma DB_Exec_cases:
  "DB_Exec u db (name # as) =
     (if ToLower u name \<notin> known_commands
      then Inr (MakeErrReply (''ERR unknown command '' @ [QUOTE] @ ToLower u name @ [QUOTE]), db, [])
      else if \<not> arity_ok (ToLower u name) (length as)
      then Inr (ArgNumErrReply (ToLower u name), db, [])
      else exec_of (ToLower u name) db as)"
  using DB_Exec_unknown [of u name db as] DB_Exec_arity [of u name as db]
    known_lookup [of "ToLower u name" u]
    DB_Exec_run [of u name _ as db] cmdTable_exec_of [of u "ToLower u name"] by auto

lemma exec_of_refines:
  assumes "db_inv db" and "c \<in> known_commands" and "arity_ok c (length as)"
  shows "refines db c as (exec_of c db as)"
  using assms(2,3)
  by (cases rule: accepted_cases)
    (simp_all add: exec_of_def assms(1) execDel_refines execExists_refines execFlushDB_refines
      Ping_refines execGet_refines execStrlen_refines execType_refines execKeys_refines
      execSet_refines execSetnx_refines execGetset_refines execRename_refines execRenamenx_refines)

lemma DB_Exec_refines:
  assumes "db_inv db"
  shows "refines db (ToLower u name) as (DB_Exec u db (name # as))"
  using assms exec_of_refines [OF assms, of "ToLower u name" as]
  by (auto simp: DB_Exec_cases MakeErrReply_def simp del: append_Cons
      intro: redis_step.unknown [simplified] redis_step.arity_error)

section \<open>The hooks of a database do not matter to its commands\<close>

definition on_data :: "DB \<Rightarrow> exec_result \<Rightarrow> exec_result" where
  "on_data db res = go_bind res (\<lambda>(r, db', log). Inr (r, db\<lparr>data := data db'\<rparr>, log))"

lemma ops_frame:
  assumes "data db2 = data db"
  shows "GetEntity k db2 = GetEntity k db"
    and "PutEntity k e db2 = (fst (PutEntity k e db), db2\<lparr>data := data (snd (PutEntity k e db))\<rparr>)"
    and "DB_PutIfAbsent k e db2 =
      (fst (DB_PutIfAbsent k e db), db2\<lparr>data := data (snd (DB_PutIfAbsent k e db))\<rparr>)"
    and "Removes ks db2 = (fst (Removes ks db), db2\<lparr>data := data (snd (Removes ks db))\<rparr>)"
    and "Flush db2 = db2\<lparr>data := data (Flush db)\<rparr>"
  using assms
  by (simp_all add: GetEntity_def PutEntity_def DB_PutIfAbsent_def Removes_def Flush_def
      split: prod.splits)

lemma rename_frame:
  assumes "data db2 = data db"
  shows "DB_Remove k (snd (PutEntity k' e db2)) =
    db2\<lparr>data := data (DB_Remove k (snd (PutEntity k' e db)))\<rparr>"
  by (simp add: ops_frame(2) [OF assms] DB_Remove_def)

lemma same_data: "data db2 = data db \<Longrightarrow> db2\<lparr>data := data db\<rparr> = db2"
  by (metis DB.surjective DB.update_convs(2))

lemma exec_of_frame:
  assumes "c \<in> known_commands" and "arity_ok c (length as)" and eq: "data db2 = data db"
  shows "exec_of c db2 as = on_data db2 (exec_of c db as)"
  using assms(1,2)
proof (cases rule: accepted_cases)
  case del
  then show ?thesis
    by (simp add: exec_of_def execDel_def on_data_def ops_frame(4) [OF eq] split: prod.splits)
next
  case (setnx k v)
  then show ?thesis
    by (simp add: exec_of_def execSetnx_def on_data_def ops_frame(3) [OF eq] Let_def split: prod.splits)
next
  case flushdb
  then show ?thesis
    by (simp add: exec_of_def execFlushDB_def on_data_def ops_frame(5) [OF eq])
next
  case (rename k v)
  then show ?thesis
    by (simp add: exec_of_def execRename_def on_data_def ops_frame(1) [OF eq] rename_frame [OF eq]
        same_data [OF eq] Let_def split: option.splits)
next
  case (renamenx k v)
  then show ?thesis
    by (simp add: exec_of_def execRenamenx_def on_data_def ops_frame(1) [OF eq] rename_frame [OF eq]
        same_data [OF eq] Let_def split: option.splits)
qed (simp_all add: exec_of_def execExists_def Ping_def execGet_def execStrlen_def execType_def
    execKeys_eq execSet_def execGetset_def on_data_def ops_frame(1,2) [OF eq] same_data [OF eq] eq
    Let_def split: option.splits entity_data.splits)

lemma DB_Exec_frame:
  assumes "data db2 = data db" and "line \<noteq> []"
  shows "DB_Exec u db2 line = on_data db2 (DB_Exec u db line)"
proof -
  obtain name as where line: "line = name # as" using assms(2) by (cases line) auto
  show ?thesis
    unfolding line DB_Exec_cases
    using exec_of_frame [of "ToLower u name" as db2 db] same_data [OF assms(1)] assms(1)
    by (simp add: on_data_def)
qed

text \<open>What a log line says: running it again has the effect the command had.\<close>

lemma DB_Exec_log:
  assumes "db_inv db" and "DB_Exec u db line = Inr (r, db', log)" and "line \<noteq> []"
  shows "log = [] \<and> db' = db \<or>
    log = [ToLower u (hd line) # tl line] \<and>
    DB_Exec u db (ToLower u (hd line) # tl line) = Inr (r, db', log)"
proof -
  obtain name as where line: "line = name # as" using assms(3) by (cases line) auto
  have "refines db (ToLower u name) as (Inr (r, db', log))"
    using DB_Exec_refines [OF assms(1), of u name as] assms(2) line by simp
  then have cases: "log = [] \<and> db' = db \<or> log = [ToLower u name # as]" by simp
  moreover have "DB_Exec u db (ToLower u name # as) = DB_Exec u db (name # as)" if "log \<noteq> []"
  proof -
    have "ToLower u name \<in> known_commands"
      using assms(2) that line by (auto simp: DB_Exec_cases split: if_splits)
    from ToLower_known [OF this, of u] show ?thesis by (simp add: DB_Exec_cases)
  qed
  ultimately show ?thesis using assms(2) line by auto
qed

section \<open>Sequences of commands\<close>

fun exec_lines :: "(nat \<Rightarrow> nat) \<Rightarrow> DB \<Rightarrow> CmdLine list \<Rightarrow> (reply list \<times> DB \<times> CmdLine list) go" where
  "exec_lines u db [] = Inr ([], db, [])"
| "exec_lines u db (line # lines) =
     go_bind (DB_Exec u db line) (\<lambda>(r, db, log).
       go_bind (exec_lines u db lines) (\<lambda>(rs, db, logs). Inr (r # rs, db, log @ logs)))"

inductive redis_run :: "(nat \<Rightarrow> nat) \<Rightarrow> store \<Rightarrow> CmdLine list \<Rightarrow> reply list \<Rightarrow> store \<Rightarrow> bool" for u where
  run_nil: "redis_run u s [] [] s"
| run_cons: "redis_step s (ToLower u name) as r s1 \<Longrightarrow> redis_run u s1 lines rs s2 \<Longrightarrow>
    redis_run u s ((name # as) # lines) (r # rs) s2"

inductive_cases redis_stepE: "redis_step s c as r s'"
inductive_simps redis_run_Nil [simp]: "redis_run u s [] rs s'"
inductive_simps redis_run_Cons: "redis_run u s ((name # as) # lines) rs s'"

lemma DB_Exec_ok:
  assumes "db_inv db" and "line \<noteq> []"
  obtains r db' log where "DB_Exec u db line = Inr (r, db', log)" "db_inv db'"
    "redis_step (db_abs db) (ToLower u (hd line)) (tl line) r (db_abs db')"
    "index db' = index db" "addAof db' = addAof db"
    "log = [] \<and> db' = db \<or> log = [ToLower u (hd line) # tl line]"
  using DB_Exec_refines [OF assms(1), of u "hd line" "tl line"] assms(2)
  by (cases "DB_Exec u db line") (auto simp: refines_def)

lemma exec_lines_ok:
  "db_inv db \<Longrightarrow> [] \<notin> set lines \<Longrightarrow>
   \<exists>rs db' log. exec_lines u db lines = Inr (rs, db', log) \<and> db_inv db' \<and>
     redis_run u (db_abs db) lines rs (db_abs db')"
proof (induction lines arbitrary: db)
  case Nil
  then show ?case by simp
next
  case (Cons line lines)
  have "line \<noteq> []" using Cons.prems(2) by auto
  then obtain name as where line: "line = name # as" by (cases line) auto
  obtain r db1 log where 1: "DB_Exec u db line = Inr (r, db1, log)" "db_inv db1"
      "redis_step (db_abs db) (ToLower u name) as r (db_abs db1)"
    using DB_Exec_ok [OF Cons.prems(1) \<open>line \<noteq> []\<close>, of u] unfolding line list.sel by metis
  obtain rs db2 logs where "exec_lines u db1 lines = Inr (rs, db2, logs)" "db_inv db2"
      "redis_run u (db_abs db1) lines rs (db_abs db2)"
    using Cons.IH [OF 1(2)] Cons.prems(2) by auto
  with 1 line show ?case by (auto intro: redis_run.run_cons)
qed

lemma db_inv_makeDB [simp]: "db_inv makeDB" "db_abs makeDB = Map.empty"
  by (simp_all add: makeDB_def db_inv_def MakeSyncDict_def dict_invar_def dict_abs_def db_abs_def)

text \<open>Replies that report a value of another type never come.\<close>

lemma redis_step_typed: "redis_step s c as r s' \<Longrightarrow> r \<noteq> wrong_type \<and> r \<noteq> UnknowErrReply"
  by (auto simp: wrong_type_def MakeErrReply_def elim!: redis_stepE)

lemma redis_run_typed: "redis_run u s lines rs s' \<Longrightarrow> wrong_type \<notin> set rs \<and> UnknowErrReply \<notin> set rs"
  by (induction rule: redis_run.induct) (auto dest: redis_step_typed)

text \<open>A command other than FLUSHDB leaves the keys it does not name alone.\<close>

lemma redis_step_untouched:
  "redis_step s c as r s' \<Longrightarrow> c \<noteq> ''flushdb'' \<Longrightarrow> k \<notin> set as \<Longrightarrow> s' k = s k"
  by (auto elim!: redis_stepE)

definition leaves_alone :: "(nat \<Rightarrow> nat) \<Rightarrow> string \<Rightarrow> CmdLine \<Rightarrow> bool" where
  "leaves_alone u k line \<longleftrightarrow> line \<noteq> [] \<and> ToLower u (hd line) \<noteq> ''flushdb'' \<and> k \<notin> set (tl line)"

lemma redis_run_untouched:
  "redis_run u s lines rs s' \<Longrightarrow> list_all (leaves_alone u k) lines \<Longrightarrow> s' k = s k"
  by (induction rule: redis_run.induct) (auto simp: leaves_alone_def dest: redis_step_untouched)

lemma redis_run_snoc:
  "redis_run u s (lines @ [name # as]) rs s' \<Longrightarrow>
   \<exists>rs1 r s1. rs = rs1 @ [r] \<and> redis_run u s lines rs1 s1 \<and> redis_step s1 (ToLower u name) as r s'"
proof (induction lines arbitrary: s rs)
  case Nil
  then show ?case by (auto simp: redis_run_Cons)
next
  case (Cons line lines)
  from Cons.prems have "redis_run u s (line # (lines @ [name # as])) rs s'" by simp
  then obtain n bs r s1 rs' where 1: "line = n # bs" "rs = r # rs'"
      "redis_step s (ToLower u n) bs r s1" "redis_run u s1 (lines @ [name # as]) rs' s'"
    by cases auto
  from Cons.IH [OF 1(4)] obtain rs1 r' s2 where
    "rs' = rs1 @ [r']" "redis_run u s1 lines rs1 s2" "redis_step s2 (ToLower u name) as r' s'"
    by auto
  with 1 show ?case by (auto intro!: exI [of _ "r # rs1"] redis_run.run_cons)
qed

lemma redis_step_get: "redis_step s ''get'' [k] r s' \<Longrightarrow>
    r = (case s k of Some v \<Rightarrow> BulkReply v | None \<Rightarrow> NullBulkReply) \<and> s' = s"
  by (auto simp: known_commands_def arity_ok_names elim!: redis_stepE)

lemma redis_step_set: "redis_step s ''set'' [k, v] r s' \<Longrightarrow> r = OkReply \<and> s' = s(k \<mapsto> v)"
  by (auto simp: known_commands_def arity_ok_names elim!: redis_stepE)

lemma redis_step_rename: "redis_step s ''rename'' [k, k'] r s' \<Longrightarrow>
    (case s k of Some v \<Rightarrow> r = OkReply \<and> s' = (s(k' \<mapsto> v))(k := None)
     | None \<Rightarrow> r = StandardErrReply ''no such key'' \<and> s' = s)"
  by (auto simp: known_commands_def arity_ok_names elim!: redis_stepE)

section \<open>Properties\<close>

text \<open>
  C1 (command_is_a_step). Executing any non-empty command line on a database whose keys are
  distinct and whose entities are byte strings does not panic, keeps that invariant, and gives
  a reply and a state that the abstract step relation allows: one rule per outcome of each
  of the thirteen commands, of an unknown command and of a wrong number of arguments.  The
  line is reported to the append-only file at most once, in lower case, and a command that
  reports nothing leaves the database as it was.
\<close>

theorem command_is_a_step:
  assumes "db_inv db" and "line \<noteq> []"
  shows "\<exists>r db' log. DB_Exec u db line = Inr (r, db', log) \<and> db_inv db' \<and>
    redis_step (db_abs db) (ToLower u (hd line)) (tl line) r (db_abs db') \<and>
    index db' = index db \<and> addAof db' = addAof db \<and>
    (log = [] \<and> db' = db \<or> log = [ToLower u (hd line) # tl line])"
  by (rule DB_Exec_ok [OF assms, of u]) blast

theorem command_is_a_step_witness:
  "\<exists>r db' log. DB_Exec (\<lambda>n. n) (makeDB\<lparr>data := \<lparr>m = [(''a'', DataEntity (ByteSlice ''1''))]\<rparr>\<rparr>) [''GetSet'', ''a'', ''2''] =
      Inr (r, db', log) \<and> db_inv db' \<and>
    redis_step (db_abs (makeDB\<lparr>data := \<lparr>m = [(''a'', DataEntity (ByteSlice ''1''))]\<rparr>\<rparr>))
      (ToLower (\<lambda>n. n) (hd [''GetSet'', ''a'', ''2''])) (tl [''GetSet'', ''a'', ''2'']) r (db_abs db') \<and>
    index db' = index (makeDB\<lparr>data := \<lparr>m = [(''a'', DataEntity (ByteSlice ''1''))]\<rparr>\<rparr>) \<and>
    addAof db' = addAof (makeDB\<lparr>data := \<lparr>m = [(''a'', DataEntity (ByteSlice ''1''))]\<rparr>\<rparr>) \<and>
    (log = [] \<and> db' = makeDB\<lparr>data := \<lparr>m = [(''a'', DataEntity (ByteSlice ''1''))]\<rparr>\<rparr> \<or>
     log = [ToLower (\<lambda>n. n) (hd [''GetSet'', ''a'', ''2'']) # tl [''GetSet'', ''a'', ''2'']])"
  by (rule command_is_a_step)
    (auto simp: db_inv_def dict_invar_def dict_abs_def entity_bytes_def split: if_splits)

text \<open>
  A new database executes every sequence of non-empty command lines
  without a panic, its replies and final state are those of a run of the abstract steps from
  the empty store, and no reply is the wrong-type or the unknown error: every entity a
  command can meet is a byte string.
\<close>

theorem sessions_never_fail:
  assumes "[] \<notin> set lines"
  shows "\<exists>rs db' log. exec_lines u makeDB lines = Inr (rs, db', log) \<and>
    redis_run u Map.empty lines rs (db_abs db') \<and> wrong_type \<notin> set rs \<and> UnknowErrReply \<notin> set rs"
  using exec_lines_ok [OF db_inv_makeDB(1) assms, of u] redis_run_typed by fastforce

theorem sessions_never_fail_witness:
  "\<exists>rs db' log. exec_lines (\<lambda>n. n) makeDB [[''set'', ''a'', ''1''], [''rename'', ''a''], [''nope'']] = Inr (rs, db', log) \<and>
    redis_run (\<lambda>n. n) Map.empty [[''set'', ''a'', ''1''], [''rename'', ''a''], [''nope'']] rs (db_abs db') \<and>
    wrong_type \<notin> set rs \<and> UnknowErrReply \<notin> set rs"
  by (rule sessions_never_fail) simp

text \<open>
  Once a key has been SET, GET returns that value after any
  sequence of commands that contains no FLUSHDB and does not name the key.
\<close>

theorem get_returns_last_set:
  assumes "db_inv db" and "list_all (leaves_alone u k) lines"
  shows "\<exists>rs db' log. exec_lines u db ([''SET'', k, v] # lines @ [[''GET'', k]]) =
    Inr (OkReply # rs @ [BulkReply v], db', log)"
proof -
  obtain rs db' log where run: "exec_lines u db ([''SET'', k, v] # lines @ [[''GET'', k]]) = Inr (rs, db', log)"
      "redis_run u (db_abs db) ([''SET'', k, v] # lines @ [[''GET'', k]]) rs (db_abs db')"
    using exec_lines_ok [OF assms(1), of "[''SET'', k, v] # lines @ [[''GET'', k]]" u] assms(2)
    by (fastforce simp: list_all_iff leaves_alone_def)
  from run(2) obtain rs1 where rs: "rs = OkReply # rs1"
      "redis_run u ((db_abs db)(k \<mapsto> v)) (lines @ [[''GET'', k]]) rs1 (db_abs db')"
    by (auto simp: redis_run_Cons dest: redis_step_set)
  obtain rs2 r s where get: "rs1 = rs2 @ [r]" "redis_run u ((db_abs db)(k \<mapsto> v)) lines rs2 s"
      "redis_step s ''get'' [k] r (db_abs db')"
    using redis_run_snoc [OF rs(2)] by auto
  have "s k = Some v" using redis_run_untouched [OF get(2) assms(2)] by simp
  with run(1) rs(1) get show ?thesis by (auto dest: redis_step_get)
qed

theorem get_returns_last_set_witness:
  "\<exists>rs db' log. exec_lines (\<lambda>n. n) makeDB ([''SET'', ''a'', ''1''] # [[''SET'', ''b'', ''2''], [''DEL'', ''b'']] @ [[''GET'', ''a'']]) =
    Inr (OkReply # rs @ [BulkReply ''1''], db', log)"
  by (rule get_returns_last_set) (simp_all add: leaves_alone_def ToLower_def ascii_def ascii_lower_def char_of_eq_iff)

text \<open>
  RENAME of an existing key to itself answers OK and deletes
  the key: the entity is stored under the new name first and the old name removed afterwards.
  Redis keeps the key.
\<close>

theorem rename_to_itself_deletes:
  assumes "db_inv db" and "db_abs db k = Some v"
  shows "\<exists>db' log. DB_Exec u db [''rename'', k, k] = Inr (OkReply, db', log) \<and>
    db_abs db' = (db_abs db)(k := None)"
  by (rule DB_Exec_ok [OF assms(1), of "[''rename'', k, k]" u])
    (use assms(2) redis_step_rename [of "db_abs db" k k] in \<open>auto simp del: append_Cons\<close>)

theorem rename_to_itself_deletes_witness:
  "\<exists>db' log. DB_Exec (\<lambda>n. n) (makeDB\<lparr>data := \<lparr>m = [(''a'', DataEntity (ByteSlice ''1''))]\<rparr>\<rparr>) [''rename'', ''a'', ''a''] =
      Inr (OkReply, db', log) \<and>
    db_abs db' = (db_abs (makeDB\<lparr>data := \<lparr>m = [(''a'', DataEntity (ByteSlice ''1''))]\<rparr>\<rparr>))(''a'' := None)"
  by (rule rename_to_itself_deletes [where v = "''1''"])
    (auto simp: db_inv_def dict_invar_def dict_abs_def db_abs_def entity_bytes_def split: if_splits)

end
