(* ===== verification/Config.thy ===== *)
theory Config
  imports GoLib
begin

text \<open>
  \<^verbatim>\<open>config/config.go\<close>: the server properties, a package variable in the source and an
  argument of the definitions that read it here, and \<^verbatim>\<open>parse\<close>, which fills them from the
  lines of a configuration file.  \<^verbatim>\<open>parse\<close> walks the fields by reflection; the walk is
  written out over the fields of the struct, in their order, each with its tag and kind.
\<close>

record ServerProperties =
  Bind :: string
  Port :: int
  AppendOnly :: bool
  AppendFilename :: string
  MaxClients :: int
  RequirePass :: string
  Databases :: int
  Peers :: "string list"
  Self :: string

definition zero_properties :: ServerProperties where
  "zero_properties = \<lparr>Bind = [], Port = 0, AppendOnly = False, AppendFilename = [], MaxClients = 0,
     RequirePass = [], Databases = 0, Peers = [], Self = []\<rparr>"

definition default_properties :: ServerProperties where
  "default_properties = zero_properties\<lparr>Bind := ''127.0.0.1'', Port := 6379, AppendOnly := False\<rparr>"

section \<open>Lines\<close>

text \<open>
  \<^verbatim>\<open>bufio.Scanner\<close> with \<^verbatim>\<open>ScanLines\<close>: a line loses its line feed and one carriage
  return before it.  The scanner gives up at a line of 64 KB or more, and \<^verbatim>\<open>parse\<close> goes on
  with the lines before it, since \<^verbatim>\<open>logger.Fatal\<close> only logs.
\<close>

definition MaxScanTokenSize :: nat where
  "MaxScanTokenSize = 64 * 1024"

definition dropCR :: "bytes \<Rightarrow> bytes" where
  "dropCR line = (if line \<noteq> [] \<and> last line = CR then butlast line else line)"

function scan_lines :: "bytes \<Rightarrow> bytes list" where
  "scan_lines src =
     (let line = takeWhile (\<lambda>c. c \<noteq> LF) src in
      if src = [] \<or> MaxScanTokenSize \<le> length line then []
      else dropCR line # scan_lines (drop (Suc (length line)) src))"
  by pat_completeness auto
termination
  by (relation "measure length") auto

declare scan_lines.simps [simp del]

definition is_space :: "byte \<Rightarrow> bool" where
  "is_space c \<longleftrightarrow> c = CHR '' ''"

definition Trim :: "bytes \<Rightarrow> bytes" where
  "Trim s = rev (dropWhile is_space (rev (dropWhile is_space s)))"

definition IndexSpace :: "bytes \<Rightarrow> int" where
  "IndexSpace line =
     (let pre = takeWhile (\<lambda>c. \<not> is_space c) line
      in if length pre = length line then -1 else int (length pre))"

text \<open>What one line adds to \<^verbatim>\<open>rawMap\<close>.\<close>

definition parse_line :: "(nat \<Rightarrow> nat) \<Rightarrow> bytes \<Rightarrow> (string \<rightharpoonup> string) \<Rightarrow> (string \<rightharpoonup> string)" where
  "parse_line u line rawMap =
     (if length line > 0 \<and> hd line = CHR ''#'' then rawMap
      else
        let pivot = IndexSpace line in
        if pivot > 0 \<and> pivot < int (length line) - 1 then
          let key = take (nat pivot) line;
              val = Trim (drop (nat pivot + 1) line)
          in rawMap(ToLower u key \<mapsto> val)
        else rawMap)"

definition raw_map :: "(nat \<Rightarrow> nat) \<Rightarrow> bytes \<Rightarrow> (string \<rightharpoonup> string)" where
  "raw_map u src = fold (parse_line u) (scan_lines src) Map.empty"

section \<open>Fields\<close>

text \<open>\<^verbatim>\<open>strings.Split(value, ",")\<close>.\<close>

fun split_comma :: "bytes \<Rightarrow> bytes list" where
  "split_comma [] = [[]]"
| "split_comma (c # s) =
     (if c = CHR '','' then [] # split_comma s
      else (case split_comma s of [] \<Rightarrow> [[c]] | w # ws \<Rightarrow> (c # w) # ws))"

definition string_field :: "string option \<Rightarrow> string \<Rightarrow> string" where
  "string_field val old = (case val of None \<Rightarrow> old | Some v \<Rightarrow> v)"

definition int_field :: "string option \<Rightarrow> int \<Rightarrow> int" where
  "int_field val old =
     (case val of
        None \<Rightarrow> old
      | Some v \<Rightarrow> (case ParseInt v of (i, None) \<Rightarrow> i | (i, Some e) \<Rightarrow> old))"

definition bool_field :: "string option \<Rightarrow> bool \<Rightarrow> bool" where
  "bool_field val old = (case val of None \<Rightarrow> old | Some v \<Rightarrow> v = ''yes'')"

definition slice_field :: "string option \<Rightarrow> string list \<Rightarrow> string list" where
  "slice_field val old = (case val of None \<Rightarrow> old | Some v \<Rightarrow> split_comma v)"

definition fill :: "(nat \<Rightarrow> nat) \<Rightarrow> (string \<rightharpoonup> string) \<Rightarrow> ServerProperties \<Rightarrow> ServerProperties" where
  "fill u raw config =
     (let lookup = (\<lambda>tag. raw (ToLower u tag)) in
      config
        \<lparr>Bind := string_field (lookup ''bind'') (Bind config),
         Port := int_field (lookup ''port'') (Port config),
         AppendOnly := bool_field (lookup ''appendOnly'') (AppendOnly config),
         AppendFilename := string_field (lookup ''appendFilename'') (AppendFilename config),
         MaxClients := int_field (lookup ''maxclients'') (MaxClients config),
         RequirePass := string_field (lookup ''requirepass'') (RequirePass config),
         Databases := int_field (lookup ''databases'') (Databases config),
         Peers := slice_field (lookup ''peers'') (Peers config),
         Self := string_field (lookup ''self'') (Self config)\<rparr>)"

definition parse :: "(nat \<Rightarrow> nat) \<Rightarrow> bytes \<Rightarrow> ServerProperties" where
  "parse u src = fill u (raw_map u src) zero_properties"

text \<open>\<^verbatim>\<open>SetupConfig\<close> panics (\<open>None\<close>) when the file cannot be opened.\<close>

definition SetupConfig :: "(nat \<Rightarrow> nat) \<Rightarrow> bytes option \<Rightarrow> ServerProperties option" where
  "SetupConfig u contents = (case contents of None \<Rightarrow> None | Some src \<Rightarrow> Some (parse u src))"

section \<open>Facts about lines\<close>

lemma scan_lines_Nil [simp]: "scan_lines [] = []"
  by (subst scan_lines.simps) simp

lemma scan_lines_line:
  assumes "LF \<notin> set line" and "length line < MaxScanTokenSize"
  shows "scan_lines (line @ LF # rest) = dropCR line # scan_lines rest"
proof -
  have "takeWhile (\<lambda>c. c \<noteq> LF) (line @ LF # rest) = line"
    using assms(1) by (subst takeWhile_append2) auto
  then show ?thesis using assms(2) by (subst scan_lines.simps) simp
qed

definition join_lines :: "bytes list \<Rightarrow> bytes" where
  "join_lines ls = concat (map (\<lambda>l. l @ [LF]) ls)"

definition plain_line :: "bytes \<Rightarrow> bool" where
  "plain_line l \<longleftrightarrow> LF \<notin> set l \<and> length l < MaxScanTokenSize \<and> (l \<noteq> [] \<longrightarrow> last l \<noteq> CR)"

lemma scan_join_lines: "list_all plain_line ls \<Longrightarrow> scan_lines (join_lines ls) = ls"
proof (induction ls)
  case Nil
  then show ?case by (simp add: join_lines_def)
next
  case (Cons l ls)
  then have "scan_lines (l @ LF # join_lines ls) = dropCR l # ls"
    using scan_lines_line [of l "join_lines ls"] by (simp add: plain_line_def)
  moreover have "dropCR l = l" using Cons.prems by (auto simp: dropCR_def plain_line_def)
  ultimately show ?case by (simp add: join_lines_def)
qed

text \<open>A value that \<^verbatim>\<open>Trim\<close> keeps, behind a key without spaces.\<close>

definition trimmed :: "bytes \<Rightarrow> bool" where
  "trimmed v \<longleftrightarrow> v \<noteq> [] \<and> \<not> is_space (hd v) \<and> \<not> is_space (last v)"

lemma Trim_trimmed: "trimmed v \<Longrightarrow> Trim v = v"
proof -
  assume v: "trimmed v"
  then have "dropWhile is_space v = v" by (cases v) (auto simp: trimmed_def)
  moreover have "dropWhile is_space (rev v) = rev v"
    using v by (cases v rule: rev_cases) (simp_all add: trimmed_def)
  ultimately show ?thesis by (simp add: Trim_def)
qed

lemma parse_line_entry:
  assumes "key \<noteq> []" and "\<forall>c \<in> set key. \<not> is_space c" and "hd key \<noteq> CHR ''#''" and "trimmed v"
  shows "parse_line u (key @ CHR '' '' # v) m = m(ToLower u key \<mapsto> v)"
proof -
  have "takeWhile (\<lambda>c. \<not> is_space c) (key @ CHR '' '' # v) = key"
    using assms(2) by (subst takeWhile_append2) (auto simp: is_space_def)
  then have "IndexSpace (key @ CHR '' '' # v) = int (length key)" by (simp add: IndexSpace_def)
  with assms Trim_trimmed show ?thesis
    by (cases v) (auto simp: parse_line_def Let_def trimmed_def)
qed

lemma parse_line_comment: "parse_line u (CHR ''#'' # l) m = m"
  by (simp add: parse_line_def)

text \<open>Joining and splitting lists of peers.\<close>

fun join_comma :: "bytes list \<Rightarrow> bytes" where
  "join_comma [] = []"
| "join_comma [w] = w"
| "join_comma (w # ws) = w @ CHR '','' # join_comma ws"

lemma split_comma_word: "CHR '','' \<notin> set w \<Longrightarrow> split_comma w = [w]"
  by (induction w) auto

lemma split_comma_append:
  "CHR '','' \<notin> set w \<Longrightarrow> split_comma (w @ CHR '','' # s) = w # split_comma s"
  by (induction w) auto

lemma split_join_comma:
  "ws \<noteq> [] \<Longrightarrow> \<forall>w \<in> set ws. CHR '','' \<notin> set w \<Longrightarrow> split_comma (join_comma ws) = ws"
  by (induction ws rule: join_comma.induct) (simp_all add: split_comma_word split_comma_append)

section \<open>Writing a configuration\<close>

text \<open>A value that fits on a line: empty, or trimmed and without line ends.\<close>

definition config_value :: "bytes \<Rightarrow> bool" where
  "config_value v \<longleftrightarrow> v = [] \<or>
     (trimmed v \<and> LF \<notin> set v \<and> last v \<noteq> CR \<and> length v + 32 < MaxScanTokenSize)"

definition config_line :: "string \<Rightarrow> string \<Rightarrow> bytes" where
  "config_line key v = key @ CHR '' '' # v"

definition config_key :: "string \<Rightarrow> bool" where
  "config_key key \<longleftrightarrow> key \<noteq> [] \<and> hd key \<noteq> CHR ''#'' \<and> length key < 32 \<and>
     (\<forall>c \<in> set key. \<not> is_space c \<and> c \<noteq> LF)"

lemma plain_config_line: "config_key key \<Longrightarrow> config_value v \<Longrightarrow> plain_line (config_line key v)"
proof -
  assume k: "config_key key" and v: "config_value v"
  have "LF \<notin> set key" "length key < 32" using k by (auto simp: config_key_def)
  moreover have "LF \<notin> set v" "length v + 32 < MaxScanTokenSize" "v \<noteq> [] \<longrightarrow> last v \<noteq> CR"
    using v by (auto simp: config_value_def MaxScanTokenSize_def)
  ultimately show ?thesis by (simp add: plain_line_def config_line_def)
qed

lemma parse_config_line:
  assumes "config_key key" and "config_value v"
  shows "parse_line u (config_line key v) m = (if v = [] then m else m(ToLower u key \<mapsto> v))"
proof (cases "v = []")
  case True
  have "takeWhile (\<lambda>c. \<not> is_space c) (key @ [CHR '' '']) = key"
    using assms(1) by (subst takeWhile_append2) (auto simp: is_space_def config_key_def)
  then have "IndexSpace (key @ [CHR '' '']) = int (length key)" by (simp add: IndexSpace_def)
  then show ?thesis using True assms(1)
    by (simp add: parse_line_def config_line_def config_key_def Let_def)
next
  case False
  with assms parse_line_entry [of key v u m] show ?thesis
    by (simp add: config_key_def config_value_def config_line_def)
qed

definition config_lines :: "ServerProperties \<Rightarrow> bytes list" where
  "config_lines p =
     [config_line ''bind'' (Bind p), config_line ''port'' (Itoa (Port p)),
      config_line ''appendonly'' (if AppendOnly p then ''yes'' else ''no''),
      config_line ''appendfilename'' (AppendFilename p), config_line ''maxclients'' (Itoa (MaxClients p)),
      config_line ''requirepass'' (RequirePass p), config_line ''databases'' (Itoa (Databases p)),
      config_line ''peers'' (join_comma (Peers p)), config_line ''self'' (Self p)]"

definition is_int64 :: "int \<Rightarrow> bool" where
  "is_int64 i \<longleftrightarrow> - (2 ^ 63) \<le> i \<and> i < 2 ^ 63"

definition writable :: "ServerProperties \<Rightarrow> bool" where
  "writable p \<longleftrightarrow>
     config_value (Bind p) \<and> config_value (AppendFilename p) \<and> config_value (RequirePass p) \<and>
     config_value (Self p) \<and> config_value (join_comma (Peers p)) \<and>
     (\<forall>w \<in> set (Peers p). w \<noteq> [] \<and> CHR '','' \<notin> set w) \<and>
     is_int64 (Port p) \<and> is_int64 (MaxClients p) \<and> is_int64 (Databases p)"

lemma ToLower_tags [simp]:
  "ToLower u ''bind'' = ''bind''" "ToLower u ''port'' = ''port''"
  "ToLower u ''appendOnly'' = ''appendonly''" "ToLower u ''appendonly'' = ''appendonly''"
  "ToLower u ''appendFilename'' = ''appendfilename''" "ToLower u ''appendfilename'' = ''appendfilename''"
  "ToLower u ''maxclients'' = ''maxclients''" "ToLower u ''requirepass'' = ''requirepass''"
  "ToLower u ''databases'' = ''databases''" "ToLower u ''peers'' = ''peers''" "ToLower u ''self'' = ''self''"
  by (simp_all add: ToLower_def ascii_def ascii_lower_def char_of_eq_iff)

lemma digit_not_space: "is_digit c \<Longrightarrow> \<not> is_space c \<and> c \<noteq> CR \<and> c \<noteq> LF"
  by (auto simp: is_digit_def is_space_def)

lemma config_value_Itoa: "is_int64 i \<Longrightarrow> config_value (Itoa i)"
proof -
  assume i: "is_int64 i"
  have digits: "set (Itoa i) \<subseteq> insert (CHR ''-'') {c. is_digit c}"
    using format_nat_digits by (auto simp: Itoa_def FormatInt_def)
  have chars: "c \<in> set (Itoa i) \<Longrightarrow> \<not> is_space c \<and> c \<noteq> CR \<and> c \<noteq> LF" for c
    using subsetD [OF digits, of c] digit_not_space [of c] by (auto simp: is_space_def)
  then have "\<not> is_space (hd (Itoa i))" "\<not> is_space (last (Itoa i))" "last (Itoa i) \<noteq> CR" "LF \<notin> set (Itoa i)"
    by auto
  moreover have "length (Itoa i) \<le> 21"
    using i length_format_nat [of "nat i" 19] length_format_nat [of "nat (- i)" 19]
    by (auto simp: Itoa_def FormatInt_def is_int64_def nat_less_iff)
  ultimately show ?thesis by (simp add: config_value_def trimmed_def MaxScanTokenSize_def)
qed

lemma int_field_Itoa: "is_int64 i \<Longrightarrow> int_field (Some (Itoa i)) old = i"
  using ParseInt_FormatInt [of i] by (simp add: int_field_def Itoa_def is_int64_def)

lemma join_comma_Nil: "\<forall>w \<in> set ws. w \<noteq> [] \<Longrightarrow> join_comma ws = [] \<longleftrightarrow> ws = []"
  by (cases ws rule: join_comma.cases) auto

lemma parse_config_lines:
  assumes "writable p"
  shows "parse u (join_lines (config_lines p)) = p"
proof -
  have keys: "config_key ''bind''" "config_key ''port''" "config_key ''appendonly''"
    "config_key ''appendfilename''" "config_key ''maxclients''" "config_key ''requirepass''"
    "config_key ''databases''" "config_key ''peers''" "config_key ''self''"
    by (simp_all add: config_key_def is_space_def)
  have vals: "config_value (Bind p)" "config_value (AppendFilename p)" "config_value (RequirePass p)"
    "config_value (Self p)" "config_value (join_comma (Peers p))" "config_value (Itoa (Port p))"
    "config_value (Itoa (MaxClients p))" "config_value (Itoa (Databases p))"
    "config_value ''yes''" "config_value ''no''"
    using assms config_value_Itoa
    by (simp_all add: writable_def) (simp_all add: config_value_def trimmed_def is_space_def MaxScanTokenSize_def)
  have plain: "list_all plain_line (config_lines p)"
    using keys vals by (simp add: config_lines_def plain_config_line)
  define m where "m = raw_map u (join_lines (config_lines p))"
  have m: "m = fold (parse_line u) (config_lines p) Map.empty"
    by (simp add: m_def raw_map_def scan_join_lines [OF plain])
  have look: "m ''bind'' = (if Bind p = [] then None else Some (Bind p))"
    "m ''port'' = Some (Itoa (Port p))" "m ''appendonly'' = Some (if AppendOnly p then ''yes'' else ''no'')"
    "m ''appendfilename'' = (if AppendFilename p = [] then None else Some (AppendFilename p))"
    "m ''maxclients'' = Some (Itoa (MaxClients p))"
    "m ''requirepass'' = (if RequirePass p = [] then None else Some (RequirePass p))"
    "m ''databases'' = Some (Itoa (Databases p))"
    "m ''peers'' = (if join_comma (Peers p) = [] then None else Some (join_comma (Peers p)))"
    "m ''self'' = (if Self p = [] then None else Some (Self p))"
    unfolding m config_lines_def using keys vals by (simp_all add: parse_config_line)
  have ints: "is_int64 (Port p)" "is_int64 (MaxClients p)" "is_int64 (Databases p)"
    using assms by (simp_all add: writable_def)
  have peers: "slice_field (m ''peers'') [] = Peers p"
    using assms join_comma_Nil [of "Peers p"] split_join_comma [of "Peers p"]
    by (auto simp: look slice_field_def writable_def)
  have strings: "string_field (m ''bind'') [] = Bind p" "string_field (m ''appendfilename'') [] = AppendFilename p"
    "string_field (m ''requirepass'') [] = RequirePass p" "string_field (m ''self'') [] = Self p"
    "bool_field (m ''appendonly'') False = AppendOnly p"
    by (simp_all add: look string_field_def bool_field_def)
  have numbers: "int_field (m ''port'') 0 = Port p" "int_field (m ''maxclients'') 0 = MaxClients p"
    "int_field (m ''databases'') 0 = Databases p"
    by (simp_all only: look int_field_Itoa ints)
  have "fill u m zero_properties = p"
    by (rule ServerProperties.equality)
      (simp_all add: fill_def Let_def zero_properties_def peers strings numbers)
  then show ?thesis by (simp add: parse_def m_def)
qed

section \<open>Properties\<close>

text \<open>
  C32 (config_file_roundtrip). Reading the lines that describe a configuration gives it back: strings and the peer
  list, numbers over the whole 64-bit range, and the flag, with values that are left empty
  taken as unset.
\<close>

theorem config_file_roundtrip:
  assumes "writable p"
  shows "parse u (join_lines (config_lines p)) = p"
  using assms by (rule parse_config_lines)

theorem config_file_roundtrip_witness:
  "parse (\<lambda>n. n) (join_lines (config_lines (default_properties\<lparr>AppendOnly := True, Peers := [''a:1'', ''b:2'']\<rparr>))) =
    default_properties\<lparr>AppendOnly := True, Peers := [''a:1'', ''b:2'']\<rparr>"
  by (rule config_file_roundtrip)
    (simp add: writable_def default_properties_def zero_properties_def config_value_def trimmed_def
      is_space_def MaxScanTokenSize_def is_int64_def)

end
