(* ===== verification/Sync.thy ===== *)
theory Sync
  imports Prelude "HOL-Library.Word"
begin

text \<open>
  \<^verbatim>\<open>lib/sync\<close>: the atomic flag, which is a 32-bit word, and the wait group that can be waited
  for with a time-out.  Time is counted in ticks from the call; \<open>count\<close> is the counter at each
  tick, which other goroutines change.
\<close>

section \<open>atomic.Boolean\<close>

type_synonym Boolean = "32 word"

definition Boolean_Get :: "Boolean \<Rightarrow> bool" where
  "Boolean_Get b \<longleftrightarrow> b \<noteq> 0"

definition Boolean_Set :: "bool \<Rightarrow> Boolean \<Rightarrow> Boolean" where
  "Boolean_Set v b = (if v then 1 else 0)"

lemma Boolean_Get_Set [simp]: "Boolean_Get (Boolean_Set v b) = v"
  by (simp add: Boolean_Get_def Boolean_Set_def)

section \<open>wait.Wait\<close>

definition Wait_Add :: "int \<Rightarrow> int \<Rightarrow> int go" where
  "Wait_Add delta w = (if w + delta < 0 then Inl NegativeCounter else Inr (w + delta))"

definition Wait_Done :: "int \<Rightarrow> int go" where
  "Wait_Done w = Wait_Add (-1) w"

definition Wait_Wait :: "int \<Rightarrow> bool" where
  "Wait_Wait w \<longleftrightarrow> w = 0"

text \<open>
  The answer after at most \<open>n\<close> ticks: the waiting goroutine sees the counter at zero and
  signals, or the time-out comes first.
\<close>

fun wait_ticks :: "(nat \<Rightarrow> int) \<Rightarrow> nat \<Rightarrow> nat \<Rightarrow> bool" where
  "wait_ticks count t 0 = True"
| "wait_ticks count t (Suc n) = (if Wait_Wait (count t) then False else wait_ticks count (Suc t) n)"

definition WaitWithTimeout :: "nat \<Rightarrow> (nat \<Rightarrow> int) \<Rightarrow> bool" where
  "WaitWithTimeout timeout count = wait_ticks count 0 timeout"

lemma wait_ticks_iff: "wait_ticks count t n \<longleftrightarrow> (\<forall>k < n. count (t + k) \<noteq> 0)"
proof (induction n arbitrary: t)
  case (Suc n)
  then show ?case by (auto simp: Wait_Wait_def less_Suc_eq_0_disj)
qed simp

lemma WaitWithTimeout_iff: "WaitWithTimeout timeout count \<longleftrightarrow> (\<forall>k < timeout. count k \<noteq> 0)"
  by (simp add: WaitWithTimeout_def wait_ticks_iff)

text \<open>When the wait ends: as soon as the counter is zero, and after \<open>n\<close> ticks at the latest.\<close>

fun wait_end :: "(nat \<Rightarrow> int) \<Rightarrow> nat \<Rightarrow> nat \<Rightarrow> nat" where
  "wait_end count t 0 = t"
| "wait_end count t (Suc n) = (if Wait_Wait (count t) then t else wait_end count (Suc t) n)"

lemma wait_end_bounds:
  "t \<le> wait_end count t n \<and> wait_end count t n \<le> t + n \<and>
   (wait_end count t n < t + n \<longrightarrow> count (wait_end count t n) = 0) \<and> (\<forall>k. t \<le> k \<and> k < wait_end count t n \<longrightarrow> count k \<noteq> 0)"
proof (induction n arbitrary: t)
  case (Suc n)
  show ?case
  proof (cases "Wait_Wait (count t)")
    case True
    then show ?thesis by (simp add: Wait_Wait_def)
  next
    case False
    moreover have "count k \<noteq> 0" if "t \<le> k" "k < wait_end count (Suc t) n" for k
      using that False Suc.IH [of "Suc t"] by (cases "k = t") (auto simp: Wait_Wait_def)
    ultimately show ?thesis using Suc.IH [of "Suc t"] by auto
  qed
qed simp

text \<open>Adding and finishing tasks: the counter is the number of tasks, and the last one releases.\<close>

fun finish_tasks :: "nat \<Rightarrow> int \<Rightarrow> int go" where
  "finish_tasks 0 w = Inr w"
| "finish_tasks (Suc n) w = go_bind (Wait_Done w) (finish_tasks n)"

lemma finish_tasks_result:
  "0 \<le> w \<Longrightarrow> finish_tasks n w = (if int n \<le> w then Inr (w - int n) else Inl NegativeCounter)"
  by (induction n arbitrary: w) (auto simp: Wait_Done_def Wait_Add_def)

end
