(* ===== verification/Connection.thy ===== *)
theory Connection
  imports Prelude Sync
begin

text \<open>
  \<^verbatim>\<open>resp/connection/conn.go\<close>: a client connection, with the network connection under it.
  The network is a parameter: \<open>net n\<close> says what the \<open>n\<close>-th write does, \<open>None\<close> for success
  and \<open>Some j\<close> for an error after \<open>j\<close> bytes.
\<close>

type_synonym write_fault = "nat \<Rightarrow> nat option"

text \<open>A sink for bytes: a file opened for appending, or the writing side of a socket.\<close>

record sink =
  written :: bytes
  writes :: nat

definition sink_write :: "write_fault \<Rightarrow> bytes \<Rightarrow> sink \<Rightarrow> bool \<times> sink" where
  "sink_write fault bs s =
     (case fault (writes s) of
        None \<Rightarrow> (True, s\<lparr>written := written s @ bs, writes := writes s + 1\<rparr>)
      | Some j \<Rightarrow> (False, s\<lparr>written := written s @ take j bs, writes := writes s + 1\<rparr>))"

text \<open>After the sink is closed every write fails and writes nothing.\<close>

definition closed_fault :: "write_fault \<Rightarrow> sink \<Rightarrow> write_fault" where
  "closed_fault fault s n = (if n < writes s then fault n else Some 0)"

lemma closed_sink_write:
  "writes s \<le> writes s' \<Longrightarrow> sink_write (closed_fault fault s) bs s' = (False, s'\<lparr>writes := writes s' + 1\<rparr>)"
  by (simp add: sink_write_def closed_fault_def)

text \<open>A fake client, as the append-only file loader makes one, has no network connection.\<close>

record Connection =
  conn :: "sink option"
  waitingReply :: int
  selectedDB :: int

definition NewConnection :: "sink \<Rightarrow> Connection" where
  "NewConnection s = \<lparr>conn = Some s, waitingReply = 0, selectedDB = 0\<rparr>"

definition fake_connection :: Connection where
  "fake_connection = \<lparr>conn = None, waitingReply = 0, selectedDB = 0\<rparr>"

definition GetDBIndex :: "Connection \<Rightarrow> int" where
  "GetDBIndex c = selectedDB c"

definition SelectDB :: "int \<Rightarrow> Connection \<Rightarrow> Connection" where
  "SelectDB dbNum c = c\<lparr>selectedDB := dbNum\<rparr>"

text \<open>
  \<^verbatim>\<open>Write\<close> reports whether it failed.  Writing to the nil network connection of a fake
  client panics, unless there is nothing to write.
\<close>

definition Connection_Write :: "write_fault \<Rightarrow> bytes \<Rightarrow> Connection \<Rightarrow> (bool \<times> Connection) go" where
  "Connection_Write net bs c =
     (if length bs = 0 then Inr (True, c)
      else
        let c = c\<lparr>waitingReply := waitingReply c + 1\<rparr> in
        case conn c of
          None \<Rightarrow> Inl NilDereference
        | Some s \<Rightarrow>
            (case sink_write net bs s of
               (ok, s) \<Rightarrow>
                 let c = c\<lparr>conn := Some s\<rparr>;
                     c = c\<lparr>waitingReply := waitingReply c - 1\<rparr>
                 in Inr (ok, c)))"

text \<open>
  \<^verbatim>\<open>Close\<close> waits for the reply that is being written, for ten seconds at most, and closes the
  network connection.  \<open>pending t\<close> is the counter \<open>t\<close> seconds after the call and \<open>c\<close> the connection when
  the wait is over; the result is that time, and the network as the connection sees it from then on.
\<close>

definition Connection_Close :: "(nat \<Rightarrow> int) \<Rightarrow> write_fault \<Rightarrow> Connection \<Rightarrow> (nat \<times> write_fault) go" where
  "Connection_Close pending net c =
     (let t = wait_end pending 0 10 in
      case conn c of
        None \<Rightarrow> Inl NilDereference
      | Some s \<Rightarrow> Inr (t, closed_fault net s))"

text \<open>A write leaves no reply pending, whether it succeeded or not, and keeps the database.\<close>

lemma Connection_Write_frame:
  "Connection_Write net bs c = Inr (ok, c') \<Longrightarrow>
   waitingReply c' = waitingReply c \<and> selectedDB c' = selectedDB c \<and> (conn c = None \<longleftrightarrow> conn c' = None)"
  by (auto simp: Connection_Write_def Let_def split: if_splits option.splits prod.splits)

lemma Connection_Write_ok:
  assumes "conn c = Some s" and "net (writes s) = None"
  shows "Connection_Write net bs c =
    Inr (True, if bs = [] then c else c\<lparr>conn := Some \<lparr>written = written s @ bs, writes = writes s + 1\<rparr>\<rparr>)"
  using assms by (cases c) (simp add: Connection_Write_def sink_write_def Let_def)

lemma Connection_Write_total: "conn c \<noteq> None \<Longrightarrow> \<exists>ok c2. Connection_Write net bs c = Inr (ok, c2)"
  by (cases "conn c"; cases "sink_write net bs (the (conn c))") (auto simp: Connection_Write_def Let_def)

text \<open>
  Closing takes ten seconds at most and cuts a reply off only if it takes that long; afterwards
  nothing but an empty write succeeds, and nothing is sent.
\<close>

lemma Connection_Close_waits:
  assumes "Connection_Close pending net c = Inr (t, net')"
  shows "t \<le> 10" "t < 10 \<Longrightarrow> pending t = 0"
  using assms wait_end_bounds [of 0 pending 10] by (auto simp: Connection_Close_def Let_def split: option.splits)

lemma closed_Connection_Write:
  assumes "Connection_Close pending net c = Inr (t, net')" and "conn c = Some s" and "bs \<noteq> []"
  shows "Connection_Write net' bs c = Inr (False, c\<lparr>conn := Some (s\<lparr>writes := writes s + 1\<rparr>)\<rparr>)"
  using assms by (cases c) (auto simp: Connection_Close_def Connection_Write_def Let_def closed_sink_write)

end
