(* ===== verification/Aof.thy ===== *)
theory Aof
  imports Connection Config Parser Utils
begin

text \<open>
  \<^verbatim>\<open>aof/aof.go\<close>: the append-only file.  \<open>AddAof\<close> serialises a command, behind a SELECT
  when the command belongs to another database than the one before it; \<open>LoadAof\<close> parses the
  file and executes what it reads through the \<^verbatim>\<open>database.Database\<close> interface, a parameter
  here and the locale below.  The file is a sink whose write errors are a parameter.
\<close>

record AofHandler =
  aofFile :: sink
  currentDBIndex :: int

definition AddAof :: "ServerProperties \<Rightarrow> write_fault \<Rightarrow> int \<Rightarrow> CmdLine \<Rightarrow> AofHandler \<Rightarrow> AofHandler" where
  "AddAof cfg disk dbIndex cmdLine h =
     (if \<not> AppendOnly cfg then h
      else
        let (ok, h) =
          (if dbIndex \<noteq> currentDBIndex h then
             (let selectCmd = ToCmdLine [''select'', Itoa dbIndex];
                  data = ToBytes (MakeMultiBulkReply selectCmd)
              in case sink_write disk data (aofFile h) of
                   (ok, f) \<Rightarrow>
                     if \<not> ok then (False, h\<lparr>aofFile := f\<rparr>)
                     else (True, h\<lparr>aofFile := f, currentDBIndex := dbIndex\<rparr>))
           else (True, h))
        in if \<not> ok then h
           else
             let data = ToBytes (MakeMultiBulkReply cmdLine)
             in case sink_write disk data (aofFile h) of (ok, f) \<Rightarrow> h\<lparr>aofFile := f\<rparr>)"

text \<open>Closing the file: commands that come later are lost, and the file stays as it was.\<close>

definition AofHandler_Close :: "write_fault \<Rightarrow> AofHandler \<Rightarrow> write_fault" where
  "AofHandler_Close disk h = closed_fault disk (aofFile h)"

lemma closed_AddAof:
  "written (aofFile (AddAof cfg (AofHandler_Close disk h) dbIndex cmdLine h)) = written (aofFile h)"
  by (simp add: AddAof_def AofHandler_Close_def closed_sink_write Let_def)

section \<open>Loading\<close>

text \<open>
  A database behind the interface: a reply (nil after a recovered panic), the database and
  the client connection afterwards.
\<close>

type_synonym 'db db_exec = "'db \<Rightarrow> Connection \<Rightarrow> CmdLine \<Rightarrow> reply option \<times> 'db \<times> Connection"

text \<open>
  Loading returns, waits for ever on a channel the parser abandoned, or panics.
\<close>

datatype 'db load_result =
    Loaded 'db Connection
  | Hangs 'db
  | LoadPanics panic

fun LoadAof_loop :: "'db db_exec \<Rightarrow> payload list \<Rightarrow> parse_end \<Rightarrow> 'db \<Rightarrow> Connection \<Rightarrow> 'db load_result" where
  "LoadAof_loop exec [] fin db c =
     (case fin of Closed \<Rightarrow> Loaded db c | Abandoned p \<Rightarrow> Hangs db)"
| "LoadAof_loop exec (p # ps) fin db c =
     (if Err p \<noteq> None then
        (if Err p = Some EOF then Loaded db c else LoadAof_loop exec ps fin db c)
      else
        case Data p of
          Some (MultiBulkReply as) \<Rightarrow>
            (case exec db c as of
               (r, db, c) \<Rightarrow>
                 (case IsErrReply r of
                    Inl panic \<Rightarrow> LoadPanics panic
                  | Inr e \<Rightarrow> LoadAof_loop exec ps fin db c))
        | _ \<Rightarrow> LoadAof_loop exec ps fin db c)"

text \<open>\<open>file\<close> is the file's contents, \<open>None\<close> when it cannot be opened.\<close>

definition LoadAof :: "'db db_exec \<Rightarrow> bytes option \<Rightarrow> 'db \<Rightarrow> 'db load_result" where
  "LoadAof exec file db =
     (case file of
        None \<Rightarrow> Loaded db fake_connection
      | Some bs \<Rightarrow>
          (case ParseStream \<lparr>unread = bs, read_err = EOF\<rparr> of
             (ch, fin) \<Rightarrow> LoadAof_loop exec ch fin db fake_connection))"

text \<open>
  \<open>creatable\<close> says whether the file can be opened for appending, which creates it when it
  is missing.  A new handler's \<^verbatim>\<open>currentDBIndex\<close> is 0 whatever the file ends with.
\<close>

datatype 'a startup =
    Started 'a
  | OpenFailed
  | StartHangs
  | StartPanics panic

definition NewAofHandler ::
  "'db db_exec \<Rightarrow> bytes option \<Rightarrow> bool \<Rightarrow> 'db \<Rightarrow> ('db \<times> AofHandler) startup" where
  "NewAofHandler exec file creatable db =
     (case LoadAof exec file db of
        Hangs _ \<Rightarrow> StartHangs
      | LoadPanics p \<Rightarrow> StartPanics p
      | Loaded db c \<Rightarrow>
          if \<not> creatable then OpenFailed
          else Started (db, \<lparr>aofFile = \<lparr>written = (case file of None \<Rightarrow> [] | Some bs \<Rightarrow> bs), writes = 0\<rparr>,
                             currentDBIndex = 0\<rparr>))"

section \<open>The log as a list of commands\<close>

definition log_bytes :: "CmdLine list \<Rightarrow> bytes" where
  "log_bytes cmds = concat (map (\<lambda>cmd. ToBytes (MultiBulkReply cmd)) cmds)"

lemma log_bytes_simps [simp]:
  "log_bytes [] = []"
  "log_bytes (cmd # cmds) = MultiBulkReply_ToBytes cmd @ log_bytes cmds"
  "log_bytes (cmds @ cmds') = log_bytes cmds @ log_bytes cmds'"
  by (simp_all add: log_bytes_def)

definition select_cmd :: "int \<Rightarrow> CmdLine" where
  "select_cmd i = [''select'', Itoa i]"

text \<open>The commands \<open>AddAof\<close> writes when the disk does not fail.\<close>

definition logged :: "int \<Rightarrow> int \<Rightarrow> CmdLine \<Rightarrow> CmdLine list" where
  "logged cur dbIndex cmd = (if dbIndex \<noteq> cur then [select_cmd dbIndex, cmd] else [cmd])"

lemma sink_write_ok:
  "fault (writes s) = None \<Longrightarrow>
   sink_write fault bs s = (True, s\<lparr>written := written s @ bs, writes := writes s + 1\<rparr>)"
  by (simp add: sink_write_def)

lemma AddAof_ok:
  assumes "AppendOnly cfg" and "\<And>n. disk n = None"
  shows "written (aofFile (AddAof cfg disk i cmd h)) =
      written (aofFile h) @ log_bytes (logged (currentDBIndex h) i cmd)"
    and "currentDBIndex (AddAof cfg disk i cmd h) = i"
  using assms
  by (auto simp: AddAof_def sink_write_ok logged_def select_cmd_def ToCmdLine_def MakeMultiBulkReply_def Let_def)

text \<open>Whatever the disk does, bytes already in the file stay.\<close>

lemma sink_write_appends:
  "sink_write fault bs s = (ok, s') \<Longrightarrow> \<exists>t. written s' = written s @ t"
  by (auto simp: sink_write_def split: option.splits)

lemma AddAof_appends: "\<exists>t. written (aofFile (AddAof cfg disk i cmd h)) = written (aofFile h) @ t"
  by (auto simp: AddAof_def Let_def split: prod.splits if_splits dest!: sink_write_appends)

section \<open>The database interface\<close>

text \<open>Executing commands one after the other, as the loader does.\<close>

fun exec_all :: "'db db_exec \<Rightarrow> CmdLine list \<Rightarrow> 'db \<Rightarrow> Connection \<Rightarrow> 'db \<times> Connection" where
  "exec_all exec [] db c = (db, c)"
| "exec_all exec (cmd # cmds) db c =
     (case exec db c cmd of (r, db, c) \<Rightarrow> exec_all exec cmds db c)"

lemma exec_all_append:
  "exec_all exec (cmds @ cmds') db c =
     (case exec_all exec cmds db c of (db, c) \<Rightarrow> exec_all exec cmds' db c)"
  by (induction cmds arbitrary: db c) (auto split: prod.splits)

text \<open>
  What a client of \<^verbatim>\<open>database.Database\<close> relies on: after a request with at least one argument
  the database and the connection are in order, and, of a database that answers by itself,
  that the request gets a reply that has bytes.
\<close>

locale stable_database =
  fixes exec :: "'db db_exec"
    and inv :: "'db \<Rightarrow> bool"
    and conn_ok :: "'db \<Rightarrow> Connection \<Rightarrow> bool"
  assumes exec_keeps: "inv db \<Longrightarrow> conn_ok db c \<Longrightarrow> as \<noteq> [] \<Longrightarrow> exec db c as = (r, db', c') \<Longrightarrow>
      inv db' \<and> conn_ok db' c' \<and> conn c' = conn c"

locale database_interface = stable_database +
  assumes exec_replies: "inv db \<Longrightarrow> conn_ok db c \<Longrightarrow> as \<noteq> [] \<Longrightarrow> exec db c as = (r, db', c') \<Longrightarrow>
      \<exists>x. r = Some x \<and> x \<noteq> NoReply"
begin

lemma exec_answers:
  "inv db \<Longrightarrow> conn_ok db c \<Longrightarrow> as \<noteq> [] \<Longrightarrow> exec db c as = (r, db', c') \<Longrightarrow>
      (\<exists>x. r = Some x \<and> x \<noteq> NoReply) \<and> inv db' \<and> conn_ok db' c' \<and> conn c' = conn c"
  using exec_keeps [of db c as r db' c'] exec_replies [of db c as r db' c'] by blast

lemma exec_all_inv:
  "inv db \<Longrightarrow> conn_ok db c \<Longrightarrow> [] \<notin> set cmds \<Longrightarrow> exec_all exec cmds db c = (db', c') \<Longrightarrow>
   inv db' \<and> conn_ok db' c'"
proof (induction cmds arbitrary: db c)
  case Nil
  then show ?case by simp
next
  case (Cons cmd cmds)
  obtain r db1 c1 where e: "exec db c cmd = (r, db1, c1)" by (cases "exec db c cmd")
  with exec_answers [OF Cons.prems(1,2) _ e] Cons show ?case by auto
qed

text \<open>Loading a database never panics, whatever is in the file.\<close>

lemma LoadAof_loop_safe:
  "inv db \<Longrightarrow> conn_ok db c \<Longrightarrow> list_all payload_ok ps \<Longrightarrow>
   (case LoadAof_loop exec ps fin db c of
      Loaded db' c' \<Rightarrow> inv db' \<and> conn_ok db' c' | Hangs db' \<Rightarrow> inv db' | LoadPanics p \<Rightarrow> False)"
proof (induction ps arbitrary: db c)
  case Nil
  then show ?case by (cases fin) auto
next
  case (Cons p ps)
  show ?case
  proof (cases "Err p = None \<and> (\<exists>as. Data p = Some (MultiBulkReply as))")
    case True
    then obtain as where p: "Err p = None" "Data p = Some (MultiBulkReply as)" by auto
    with Cons.prems(3) have "as \<noteq> []" by (auto simp: payload_ok_def)
    obtain r db1 c1 where e: "exec db c as = (r, db1, c1)" by (cases "exec db c as")
    from exec_answers [OF Cons.prems(1,2) \<open>as \<noteq> []\<close> e]
    obtain x where x: "r = Some x" "x \<noteq> NoReply" "inv db1" "conn_ok db1 c1" by auto
    with Cons.IH [OF x(3,4)] Cons.prems(3) p e show ?thesis by (simp add: IsErrReply_Some)
  next
    case False
    with Cons show ?thesis by (auto split: option.splits reply.splits)
  qed
qed

lemma LoadAof_safe:
  assumes "inv db" and "conn_ok db fake_connection"
  shows "case LoadAof exec file db of
      Loaded db' c' \<Rightarrow> inv db' \<and> conn_ok db' c' | Hangs db' \<Rightarrow> inv db' | LoadPanics p \<Rightarrow> False"
proof (cases "file")
  case None
  with assms show ?thesis by (simp add: LoadAof_def)
next
  case (Some bs)
  obtain ps fin where "ParseStream \<lparr>unread = bs, read_err = EOF\<rparr> = (ps, fin)"
    by (cases "ParseStream \<lparr>unread = bs, read_err = EOF\<rparr>")
  moreover from this have "list_all payload_ok ps"
    using parse_loop_payloads [of init_state "\<lparr>unread = bs, read_err = EOF\<rparr>"]
    by (simp add: ParseStream_def parse0_def list_all_iff)
  ultimately show ?thesis
    using LoadAof_loop_safe [OF assms, of ps fin] Some by (simp add: LoadAof_def)
qed

lemma LoadAof_loop_commands:
  "inv db \<Longrightarrow> conn_ok db c \<Longrightarrow> [] \<notin> set cmds \<Longrightarrow>
   LoadAof_loop exec (map command_payload cmds @ ps) fin db c =
     (case exec_all exec cmds db c of (db', c') \<Rightarrow> LoadAof_loop exec ps fin db' c')"
proof (induction cmds arbitrary: db c)
  case Nil
  then show ?case by simp
next
  case (Cons cmd cmds)
  obtain r db1 c1 where e: "exec db c cmd = (r, db1, c1)" by (cases "exec db c cmd")
  have "cmd \<noteq> []" using Cons.prems by auto
  from exec_answers [OF Cons.prems(1,2) this e]
  obtain x where x: "r = Some x" "x \<noteq> NoReply" "inv db1" "conn_ok db1 c1" by auto
  with Cons.IH [OF x(3,4)] Cons.prems(3) e show ?case
    by (simp add: command_payload_def IsErrReply_Some)
qed

text \<open>
  A file that holds clean commands, and possibly the beginning of one more that a crash cut
  off, is loaded by executing the complete commands.
\<close>

lemma LoadAof_commands:
  assumes "inv db" and "conn_ok db fake_connection" and "\<forall>cmd \<in> set cmds. clean_cmd cmd"
    and "torn = [] \<or> (\<exists>cmd rest. clean_cmd cmd \<and> rest \<noteq> [] \<and> MultiBulkReply_ToBytes cmd = torn @ rest)"
  shows "LoadAof exec (Some (log_bytes cmds @ torn)) db =
    (case exec_all exec cmds db fake_connection of (db', c') \<Rightarrow> Loaded db' c')"
proof -
  have "cut_off (parse_loop \<lparr>unread = torn, read_err = EOF\<rparr> init_state)"
  proof (cases "torn = []")
    case True
    then show ?thesis by (simp add: cut_off_def)
  next
    case False
    with assms(4) obtain cmd rest where "clean_cmd cmd" "rest \<noteq> []" "torn @ rest = MultiBulkReply_ToBytes cmd"
      by auto
    then show ?thesis by (intro parse_command_cut)
  qed
  then obtain x where x: "x \<in> {EOF, ErrUnexpectedEOF}"
      "parse_loop \<lparr>unread = torn, read_err = EOF\<rparr> init_state = ([\<lparr>Data = None, Err = Some x\<rparr>], Closed)"
    by (auto simp: cut_off_def)
  have "ParseStream \<lparr>unread = log_bytes cmds @ torn, read_err = EOF\<rparr> =
      (map command_payload cmds @ [\<lparr>Data = None, Err = Some x\<rparr>], Closed)"
    using parse_commands [OF assms(3), of torn EOF] x(2)
    by (simp add: ParseStream_def parse0_def log_bytes_def)
  moreover have "[] \<notin> set cmds" using assms(3) by (auto simp: clean_cmd_def)
  ultimately show ?thesis
    using LoadAof_loop_commands [OF assms(1,2), of cmds "[\<lparr>Data = None, Err = Some x\<rparr>]" Closed] x(1)
    by (auto simp: LoadAof_def split: prod.splits)
qed

end

end
