(* ===== verification/Standalone.thy ===== *)
theory Standalone
  imports Database Aof
begin

text \<open>
  \<^verbatim>\<open>database/standalone_database.go\<close>: the numbered databases of one server, SELECT, and the
  append-only file behind them.  \<open>Exec\<close> recovers from every panic and then returns a nil
  reply.

  The configuration and the disk's write errors are parameters.  The recovery theorem of
  this theory says what the append-only file is for: a server started on the file that any
  interleaving of client commands has written holds the same data in every database.
\<close>

record StandaloneDatabase =
  dbSet :: "DB list"
  aofHandler :: "AofHandler option"

type_synonym env = "(nat \<Rightarrow> nat) \<times> ServerProperties \<times> write_fault"

section \<open>SELECT and Exec\<close>

definition execSelect :: "Connection \<Rightarrow> StandaloneDatabase \<Rightarrow> bytes list \<Rightarrow> (reply \<times> Connection) go" where
  "execSelect c database as =
     go_bind (go_index as 0) (\<lambda>arg.
       case Atoi arg of
         (dbIndex, err) \<Rightarrow>
           if err \<noteq> None then Inr (MakeErrReply ''ERR invalid DB index'', c)
           else if dbIndex < 0 \<or> dbIndex \<ge> int (length (dbSet database)) then
             Inr (MakeErrReply ''ERR DB index out of range'', c)
           else Inr (OkReply, SelectDB dbIndex c))"

text \<open>The hook of a database, applied to the line of a command.\<close>

definition call_addAof ::
  "ServerProperties \<Rightarrow> write_fault \<Rightarrow> aof_hook \<Rightarrow> CmdLine \<Rightarrow> AofHandler option \<Rightarrow> AofHandler option go" where
  "call_addAof cfg disk hook line h =
     (case hook of
        NoAof \<Rightarrow> Inr h
      | AddAofAt dbIndex \<Rightarrow>
          (case h of
             None \<Rightarrow> if AppendOnly cfg then Inl NilDereference else Inr None
           | Some handler \<Rightarrow> Inr (Some (AddAof cfg disk dbIndex line handler))))"

fun call_addAofs ::
  "ServerProperties \<Rightarrow> write_fault \<Rightarrow> aof_hook \<Rightarrow> CmdLine list \<Rightarrow> AofHandler option \<Rightarrow> AofHandler option go" where
  "call_addAofs cfg disk hook [] h = Inr h"
| "call_addAofs cfg disk hook (line # lines) h =
     go_bind (call_addAof cfg disk hook line h) (call_addAofs cfg disk hook lines)"

text \<open>
  A command changes its database before it reports to the file, so the two happen in that
  order here, and a panic in the report leaves the change made.
\<close>

definition run_command :: "env \<Rightarrow> StandaloneDatabase db_exec" where
  "run_command env d client as =
     (case env of (u, cfg, disk) \<Rightarrow>
       case go_bind (go_index (dbSet d) (GetDBIndex client)) (\<lambda>db.
              go_bind (DB_Exec u db as) (\<lambda>res. Inr (db, res))) of
         Inl p \<Rightarrow> (None, d, client)
       | Inr (db, result, db', log) \<Rightarrow>
           (let d = d\<lparr>dbSet := (dbSet d)[nat (GetDBIndex client) := db']\<rparr> in
            case call_addAofs cfg disk (addAof db) log (aofHandler d) of
              Inl p \<Rightarrow> (None, d, client)
            | Inr h \<Rightarrow> (Some result, d\<lparr>aofHandler := h\<rparr>, client)))"

definition Exec :: "env \<Rightarrow> StandaloneDatabase db_exec" where
  "Exec env d client as =
     (case go_index as 0 of
        Inl p \<Rightarrow> (None, d, client)
      | Inr name \<Rightarrow>
          if ToLower (fst env) name = ''select'' then
            (if length as \<noteq> 2 then (Some (ArgNumErrReply ''select''), d, client)
             else
               (case execSelect client d (tl as) of
                  Inl p \<Rightarrow> (None, d, client)
                | Inr (r, client) \<Rightarrow> (Some r, d, client)))
          else run_command env d client as)"

section \<open>Start\<close>

text \<open>
  0 databases mean 16; \<^verbatim>\<open>make\<close> panics on a negative number, and on one the address space has no
  room for.  \<open>OpenFailed\<close> is the nil pointer that is returned when the file cannot be opened.
\<close>

definition database_count :: "ServerProperties \<Rightarrow> int" where
  "database_count cfg = (if Databases cfg = 0 then 16 else Databases cfg)"

definition fresh_dbs :: "nat \<Rightarrow> DB list" where
  "fresh_dbs n = map (\<lambda>i. makeDB\<lparr>index := int i\<rparr>) [0..<n]"

definition install_hooks :: "DB list \<Rightarrow> DB list" where
  "install_hooks dbs = map (\<lambda>(i, db). db\<lparr>addAof := AddAofAt (int i)\<rparr>) (enumerate 0 dbs)"

definition NewStandaloneDatabase ::
  "env \<Rightarrow> bytes option \<Rightarrow> bool \<Rightarrow> StandaloneDatabase startup" where
  "NewStandaloneDatabase env contents creatable =
     (case env of (u, cfg, disk) \<Rightarrow>
       case make_slice 8 (database_count cfg) of
         Inl p \<Rightarrow> StartPanics p
       | Inr n \<Rightarrow>
           let database = \<lparr>dbSet = fresh_dbs n, aofHandler = None\<rparr> in
           if AppendOnly cfg then
             (case NewAofHandler (Exec env) contents creatable database of
                OpenFailed \<Rightarrow> OpenFailed
              | StartHangs \<Rightarrow> StartHangs
              | StartPanics p \<Rightarrow> StartPanics p
              | Started (database, handler) \<Rightarrow>
                  Started (database\<lparr>dbSet := install_hooks (dbSet database), aofHandler := Some handler\<rparr>))
           else Started database)"

text \<open>So \<open>2 ^ 45\<close> databases, of 8 bytes each in the slice, are the most a server can be asked for.\<close>

lemma make_dbSet:
  "make_slice 8 n = (if 0 \<le> n \<and> n \<le> 2 ^ 45 then Inr (nat n) else Inl MakeSliceLen)"
  by (simp add: make_slice_def maxAlloc_def)

lemma Started_count:
  "NewStandaloneDatabase (u, cfg, disk) contents creatable = Started d \<Longrightarrow>
   0 \<le> database_count cfg \<and> database_count cfg \<le> 2 ^ 45"
  by (simp add: NewStandaloneDatabase_def make_dbSet split: if_splits)

section \<open>The invariant\<close>

text \<open>
  Every database keeps its own invariant and its number, the hooks are those of a server
  with or without a file, and the client's database exists.
\<close>

definition hook_ok :: "StandaloneDatabase \<Rightarrow> nat \<Rightarrow> bool" where
  "hook_ok d i \<longleftrightarrow>
     addAof (dbSet d ! i) = (case aofHandler d of None \<Rightarrow> NoAof | Some _ \<Rightarrow> AddAofAt (int i))"

definition sa_inv :: "StandaloneDatabase \<Rightarrow> bool" where
  "sa_inv d \<longleftrightarrow>
     (\<forall>i < length (dbSet d). db_inv (dbSet d ! i) \<and> index (dbSet d ! i) = int i \<and> hook_ok d i)"

definition sa_conn_ok :: "StandaloneDatabase \<Rightarrow> Connection \<Rightarrow> bool" where
  "sa_conn_ok d c \<longleftrightarrow> 0 \<le> selectedDB c \<and> selectedDB c < int (length (dbSet d))"

definition sa_abs :: "StandaloneDatabase \<Rightarrow> nat \<Rightarrow> store" where
  "sa_abs d i = (if i < length (dbSet d) then db_abs (dbSet d ! i) else Map.empty)"

section \<open>One request\<close>

lemma Exec_select:
  assumes "as \<noteq> []" and "ToLower (fst env) (hd as) = ''select''" and "Exec env d c as = (r, d', c')"
  shows "d' = d \<and> conn c' = conn c \<and> (sa_conn_ok d c \<longrightarrow> sa_conn_ok d c') \<and> (\<exists>x. r = Some x \<and> x \<noteq> NoReply)"
proof -
  obtain name rest where as: "as = name # rest" using assms(1) by (cases as) auto
  show ?thesis
  proof (cases "length as = 2")
    case True
    then obtain a where "rest = [a]" using as by (cases rest) auto
    with assms as show ?thesis
      by (auto simp: Exec_def execSelect_def sa_conn_ok_def SelectDB_def MakeErrReply_def
          split: prod.splits if_splits)
  next
    case False
    with assms as show ?thesis by (auto simp: Exec_def)
  qed
qed

lemma call_addAofs_hook:
  assumes "hook = (case h of None \<Rightarrow> NoAof | Some _ \<Rightarrow> AddAofAt i)" and "length log \<le> 1"
  shows "call_addAofs cfg disk hook log h =
    Inr (case h of None \<Rightarrow> None
         | Some handler \<Rightarrow> Some (fold (AddAof cfg disk i) log handler))"
  using assms by (cases log) (auto simp: call_addAof_def split: option.splits)

text \<open>A request other than SELECT runs one command on the client's database.\<close>

lemma Exec_command:
  assumes "sa_inv d" and "sa_conn_ok d c" and "as \<noteq> []" and "ToLower u (hd as) \<noteq> ''select''"
  obtains r db' log h where
    "DB_Exec u (dbSet d ! nat (selectedDB c)) as = Inr (r, db', log)"
    "Exec (u, cfg, disk) d c as =
       (Some r, d\<lparr>dbSet := (dbSet d)[nat (selectedDB c) := db'], aofHandler := h\<rparr>, c)"
    "h = (case aofHandler d of None \<Rightarrow> None
         | Some handler \<Rightarrow> Some (fold (AddAof cfg disk (selectedDB c)) log handler))"
    "db_inv db'" "index db' = selectedDB c" "addAof db' = addAof (dbSet d ! nat (selectedDB c))"
    "redis_step (db_abs (dbSet d ! nat (selectedDB c))) (ToLower u (hd as)) (tl as) r (db_abs db')"
    "log = [] \<and> db' = dbSet d ! nat (selectedDB c) \<or> log = [ToLower u (hd as) # tl as]"
proof -
  define i where "i = nat (selectedDB c)"
  have i: "i < length (dbSet d)" "selectedDB c = int i" using assms(2) by (auto simp: i_def sa_conn_ok_def)
  have inv: "db_inv (dbSet d ! i)" "index (dbSet d ! i) = int i" "hook_ok d i"
    using assms(1) i by (auto simp: sa_inv_def)
  obtain r db' log where e: "DB_Exec u (dbSet d ! i) as = Inr (r, db', log)" "db_inv db'"
      "redis_step (db_abs (dbSet d ! i)) (ToLower u (hd as)) (tl as) r (db_abs db')"
      "index db' = index (dbSet d ! i)" "addAof db' = addAof (dbSet d ! i)"
      "log = [] \<and> db' = dbSet d ! i \<or> log = [ToLower u (hd as) # tl as]"
    by (rule DB_Exec_ok [OF inv(1) assms(3), of u])
  obtain name rest where as: "as = name # rest" using assms(3) by (cases as) auto
  have "length log \<le> 1" using e(6) by auto
  note hook = call_addAofs_hook [OF inv(3) [unfolded hook_ok_def] this, of cfg disk]
  have "Exec (u, cfg, disk) d c as =
      (Some r, d\<lparr>dbSet := (dbSet d)[i := db'],
         aofHandler := (case aofHandler d of None \<Rightarrow> None
           | Some handler \<Rightarrow> Some (fold (AddAof cfg disk (int i)) log handler))\<rparr>, c)"
    using assms(4) as i e(1) hook
    by (simp add: Exec_def run_command_def GetDBIndex_def go_index_ok Let_def)
  with e inv i show thesis by (intro that [OF _ _ refl]) (simp_all cong: option.case_cong)
qed

lemma sa_inv_update:
  assumes "sa_inv d" and "i < length (dbSet d)" and "db_inv db'" and "index db' = int i"
    and "addAof db' = addAof (dbSet d ! i)" and "h = None \<longleftrightarrow> aofHandler d = None"
  shows "sa_inv (d\<lparr>dbSet := (dbSet d)[i := db'], aofHandler := h\<rparr>)"
  using assms by (auto simp: sa_inv_def hook_ok_def nth_list_update split: option.splits)

lemma redis_step_reply: "redis_step s c as r s' \<Longrightarrow> r \<noteq> NoReply"
  by (auto elim!: redis_stepE)

lemma Exec_keeps:
  assumes "sa_inv d" and "sa_conn_ok d c" and "as \<noteq> []" and "Exec (u, cfg, disk) d c as = (r, d', c')"
  shows "(\<exists>x. r = Some x \<and> x \<noteq> NoReply) \<and> sa_inv d' \<and> sa_conn_ok d' c' \<and> conn c' = conn c \<and>
    length (dbSet d') = length (dbSet d) \<and> (aofHandler d' = None \<longleftrightarrow> aofHandler d = None)"
proof (cases "ToLower u (hd as) = ''select''")
  case True
  with Exec_select [OF assms(3) _ assms(4)] assms(1,2) show ?thesis by simp
next
  case False
  show ?thesis
  proof (rule Exec_command [OF assms(1-3) False, of cfg disk], goal_cases)
    case (1 x db' log h)
    have i: "nat (selectedDB c) < length (dbSet d)"
      using assms(2) by (simp add: sa_conn_ok_def nat_less_iff)
    have h: "h = None \<longleftrightarrow> aofHandler d = None" using 1(3) by (auto split: option.splits)
    have "sa_inv (d\<lparr>dbSet := (dbSet d)[nat (selectedDB c) := db'], aofHandler := h\<rparr>)"
      using 1 i h assms(1,2) by (intro sa_inv_update) (simp_all add: sa_conn_ok_def)
    with 1 i h assms(2,4) redis_step_reply [OF 1(7)] show ?thesis by (simp add: sa_conn_ok_def)
  qed
qed

interpretation standalone: database_interface "Exec env" sa_inv sa_conn_ok for env
proof unfold_locales
  fix d c as r d' c'
  assume "sa_inv d" "sa_conn_ok d c" "as \<noteq> []" "Exec env d c as = (r, d', c')"
  note k = Exec_keeps [of d c as "fst env" "fst (snd env)" "snd (snd env)" r d' c']
  with \<open>sa_inv d\<close> \<open>sa_conn_ok d c\<close> \<open>as \<noteq> []\<close> \<open>Exec env d c as = (r, d', c')\<close>
  show "sa_inv d' \<and> sa_conn_ok d' c' \<and> conn c' = conn c" "\<exists>x. r = Some x \<and> x \<noteq> NoReply" by simp_all
qed

section \<open>The abstract server\<close>

text \<open>
  One request on \<open>n\<close> numbered stores by a client whose store is \<open>k\<close>: SELECT moves the
  client, anything else is a step on the client's store alone.
\<close>

inductive server_step ::
  "nat \<Rightarrow> (nat \<Rightarrow> store) \<Rightarrow> int \<Rightarrow> string \<Rightarrow> bytes list \<Rightarrow> reply \<Rightarrow> (nat \<Rightarrow> store) \<Rightarrow> int \<Rightarrow> bool" for n where
  select_ok: "Atoi a = (i, None) \<Longrightarrow> 0 \<le> i \<Longrightarrow> i < int n \<Longrightarrow>
    server_step n S k ''select'' [a] OkReply S i"
| select_range: "Atoi a = (i, None) \<Longrightarrow> i < 0 \<or> int n \<le> i \<Longrightarrow>
    server_step n S k ''select'' [a] (StandardErrReply ''ERR DB index out of range'') S k"
| select_number: "Atoi a = (i, Some e) \<Longrightarrow>
    server_step n S k ''select'' [a] (StandardErrReply ''ERR invalid DB index'') S k"
| select_arity: "length as \<noteq> 1 \<Longrightarrow> server_step n S k ''select'' as (ArgNumErrReply ''select'') S k"
| command: "c \<noteq> ''select'' \<Longrightarrow> redis_step (S (nat k)) c as r s \<Longrightarrow>
    server_step n S k c as r (S(nat k := s)) k"

lemma sa_abs_update:
  "i < length (dbSet d) \<Longrightarrow>
   sa_abs (d\<lparr>dbSet := (dbSet d)[i := db'], aofHandler := h\<rparr>) = (sa_abs d)(i := db_abs db')"
  by (auto simp: sa_abs_def fun_eq_iff)

lemma Exec_select_step:
  assumes "as \<noteq> []" and "ToLower (fst env) (hd as) = ''select''" and "Exec env d c as = (Some r, d', c')"
  shows "server_step (length (dbSet d)) S (selectedDB c) ''select'' (tl as) r S (selectedDB c')"
proof -
  obtain name rest where as: "as = name # rest" using assms(1) by (cases as) auto
  show ?thesis
  proof (cases "length as = 2")
    case True
    then obtain a where rest: "rest = [a]" using as by (cases rest) auto
    obtain i e where "Atoi a = (i, e)" by (cases "Atoi a")
    with assms as rest show ?thesis
      by (cases e) (auto simp: Exec_def execSelect_def SelectDB_def MakeErrReply_def
          intro: server_step.select_ok server_step.select_range server_step.select_number split: if_splits)
  next
    case False
    with assms as show ?thesis by (auto simp: Exec_def intro: server_step.select_arity)
  qed
qed

lemma Exec_server_step:
  assumes "sa_inv d" and "sa_conn_ok d c" and "as \<noteq> []" and "Exec (u, cfg, disk) d c as = (Some r, d', c')"
  shows "server_step (length (dbSet d)) (sa_abs d) (selectedDB c) (ToLower u (hd as)) (tl as) r
    (sa_abs d') (selectedDB c')"
proof (cases "ToLower u (hd as) = ''select''")
  case True
  moreover have "d' = d" using Exec_select [OF assms(3) _ assms(4)] True by simp
  ultimately show ?thesis
    using Exec_select_step [OF assms(3) _ assms(4), of "sa_abs d"] by simp
next
  case False
  have i: "nat (selectedDB c) < length (dbSet d)"
    using assms(2) by (simp add: sa_conn_ok_def nat_less_iff)
  show ?thesis
  proof (rule Exec_command [OF assms(1-3) False, of cfg disk], goal_cases)
    case (1 x db' log h)
    have "sa_abs d (nat (selectedDB c)) = db_abs (dbSet d ! nat (selectedDB c))"
      using i by (simp add: sa_abs_def)
    with 1(7) server_step.command [OF False, of "sa_abs d" "selectedDB c"]
    have "server_step (length (dbSet d)) (sa_abs d) (selectedDB c) (ToLower u (hd as)) (tl as) x
        ((sa_abs d)(nat (selectedDB c) := db_abs db')) (selectedDB c)" by simp
    with 1(2) assms(4) i show ?thesis by (auto simp: sa_abs_update)
  qed
qed

section \<open>Interleaved clients\<close>

text \<open>
  Requests of several clients in the order the server runs them; each client has its own
  connection.  \<open>history\<close> lists the data of all databases after each request.
\<close>

type_synonym snapshot = "DataEntity SyncDict list"

definition snapshot :: "StandaloneDatabase \<Rightarrow> snapshot" where
  "snapshot d = map data (dbSet d)"

fun serve ::
  "env \<Rightarrow> StandaloneDatabase \<Rightarrow> (nat \<Rightarrow> Connection) \<Rightarrow> (nat \<times> CmdLine) list \<Rightarrow>
     StandaloneDatabase \<times> (nat \<Rightarrow> Connection)" where
  "serve env d conns [] = (d, conns)"
| "serve env d conns ((i, as) # reqs) =
     (case Exec env d (conns i) as of (r, d, c) \<Rightarrow> serve env d (conns(i := c)) reqs)"

fun history ::
  "env \<Rightarrow> StandaloneDatabase \<Rightarrow> (nat \<Rightarrow> Connection) \<Rightarrow> (nat \<times> CmdLine) list \<Rightarrow> snapshot list" where
  "history env d conns [] = [snapshot d]"
| "history env d conns ((i, as) # reqs) =
     snapshot d # (case Exec env d (conns i) as of (r, d, c) \<Rightarrow> history env d (conns(i := c)) reqs)"

lemma history_last: "last (history env d conns reqs) = snapshot (fst (serve env d conns reqs))"
proof -
  have "history env d conns reqs \<noteq> []" for d conns reqs by (cases reqs) auto
  then show ?thesis
    by (induction env d conns reqs rule: serve.induct) (auto split: prod.splits)
qed

section \<open>Replaying the file\<close>

text \<open>Two servers with the same data answer alike and keep the same data.\<close>

lemma snapshot_nth: "snapshot d2 = snapshot d \<Longrightarrow> i < length (dbSet d) \<Longrightarrow> data (dbSet d2 ! i) = data (dbSet d ! i)"
  by (metis length_map nth_map snapshot_def)

lemma snapshot_length: "snapshot d2 = snapshot d \<Longrightarrow> length (dbSet d2) = length (dbSet d)"
  by (metis length_map snapshot_def)

lemma snapshot_update [simp]:
  "snapshot (d\<lparr>dbSet := (dbSet d)[i := db], aofHandler := h\<rparr>) = (snapshot d)[i := data db]"
  by (simp add: snapshot_def map_update)

lemma Exec_frame:
  assumes "sa_inv d" "sa_conn_ok d c" "as \<noteq> []" "sa_inv d2" "snapshot d2 = snapshot d"
    and "selectedDB c2 = selectedDB c" and "Exec (u, cfg, disk) d c as = (r, d', c')"
  shows "\<exists>d2' c2'. Exec (u, cfg2, disk2) d2 c2 as = (r, d2', c2') \<and> snapshot d2' = snapshot d' \<and>
    selectedDB c2' = selectedDB c'"
proof (cases "ToLower u (hd as) = ''select''")
  case True
  obtain name rest where as: "as = name # rest" using assms(3) by (cases as) auto
  have "execSelect c2 d2 rest = (case execSelect c d rest of Inl p \<Rightarrow> Inl p
      | Inr (r, c1) \<Rightarrow> Inr (r, c2\<lparr>selectedDB := selectedDB c1\<rparr>))"
    using assms(6) snapshot_length [OF assms(5)]
    by (cases rest; cases "Atoi (hd rest)") (auto simp: execSelect_def SelectDB_def)
  with True assms as show ?thesis by (auto simp: Exec_def split: sum.splits prod.splits if_splits)
next
  case False
  define i where "i = nat (selectedDB c)"
  have i: "i < length (dbSet d)" using assms(2) by (simp add: sa_conn_ok_def nat_less_iff i_def)
  have c2: "sa_conn_ok d2 c2" "nat (selectedDB c2) = i"
    using assms(2,6) snapshot_length [OF assms(5)] by (simp_all add: sa_conn_ok_def i_def)
  have data: "data (dbSet d2 ! i) = data (dbSet d ! i)" by (rule snapshot_nth [OF assms(5) i])
  obtain x db' log h where 1: "DB_Exec u (dbSet d ! i) as = Inr (x, db', log)"
      "Exec (u, cfg, disk) d c as = (Some x, d\<lparr>dbSet := (dbSet d)[i := db'], aofHandler := h\<rparr>, c)"
    by (rule Exec_command [OF assms(1-3) False, of cfg disk]) (use that i_def in blast)
  obtain x2 db2' log2 h2 where 2: "DB_Exec u (dbSet d2 ! i) as = Inr (x2, db2', log2)"
      "Exec (u, cfg2, disk2) d2 c2 as = (Some x2, d2\<lparr>dbSet := (dbSet d2)[i := db2'], aofHandler := h2\<rparr>, c2)"
    by (rule Exec_command [OF assms(4) c2(1) assms(3) False, of cfg2 disk2]) (use that c2(2) in blast)
  have "DB_Exec u (dbSet d2 ! i) as = on_data (dbSet d2 ! i) (DB_Exec u (dbSet d ! i) as)"
    by (rule DB_Exec_frame [OF data assms(3)])
  with 1(1) 2(1) have "x2 = x" "data db2' = data db'" by (auto simp: on_data_def)
  with 1(2) 2(2) assms(5-7) show ?thesis by auto
qed

definition empty_server :: "nat \<Rightarrow> StandaloneDatabase" where
  "empty_server n = \<lparr>dbSet = fresh_dbs n, aofHandler = None\<rparr>"

definition replayed :: "env \<Rightarrow> nat \<Rightarrow> CmdLine list \<Rightarrow> StandaloneDatabase \<times> Connection" where
  "replayed env n cmds = exec_all (Exec env) cmds (empty_server n) fake_connection"

lemma length_fresh_dbs [simp]: "length (fresh_dbs n) = n"
  by (simp add: fresh_dbs_def)

lemma fresh_db: "i < n \<Longrightarrow> fresh_dbs n ! i = makeDB\<lparr>index := int i\<rparr>"
  by (simp add: fresh_dbs_def)

lemma db_inv_index [simp]: "db_inv (db\<lparr>index := i\<rparr>) = db_inv db" "db_abs (db\<lparr>index := i\<rparr>) = db_abs db"
  "db_inv (db\<lparr>addAof := a\<rparr>) = db_inv db" "db_abs (db\<lparr>addAof := a\<rparr>) = db_abs db"
  by (simp_all add: db_inv_def db_abs_def)

lemma sa_inv_empty [simp]: "sa_inv (empty_server n)"
  by (auto simp: sa_inv_def empty_server_def fresh_db hook_ok_def) (simp add: makeDB_def)

lemma conn_ok_fake [simp]: "sa_conn_ok (empty_server n) fake_connection \<longleftrightarrow> 0 < n"
  by (simp add: sa_conn_ok_def empty_server_def fake_connection_def)

lemma replayed_Nil [simp]: "replayed env n [] = (empty_server n, fake_connection)"
  by (simp add: replayed_def)

lemma replayed_append:
  "replayed env n (cmds @ cmds') =
     (case replayed env n cmds of (d, c) \<Rightarrow> exec_all (Exec env) cmds' d c)"
  by (simp add: replayed_def exec_all_append)

lemma replayed_inv:
  "0 < n \<Longrightarrow> [] \<notin> set cmds \<Longrightarrow> replayed env n cmds = (d, c) \<Longrightarrow> sa_inv d \<and> sa_conn_ok d c"
  using standalone.exec_all_inv [of "empty_server n" fake_connection cmds env d c]
  by (simp add: replayed_def)

text \<open>
  The file is a log of clean commands whose replay on an empty server gives this server's
  data and the handler's current database, and every shorter replay gives data in \<open>H\<close>.
\<close>

definition log_inv :: "env \<Rightarrow> snapshot set \<Rightarrow> CmdLine list \<Rightarrow> StandaloneDatabase \<Rightarrow> bool" where
  "log_inv env H cmds d \<longleftrightarrow>
     (\<exists>h. aofHandler d = Some h \<and> written (aofFile h) = log_bytes cmds \<and>
        snapshot (fst (replayed env (length (dbSet d)) cmds)) = snapshot d \<and>
        selectedDB (snd (replayed env (length (dbSet d)) cmds)) = currentDBIndex h) \<and>
     (\<forall>cmd \<in> set cmds. clean_cmd cmd) \<and>
     (\<forall>cs cs'. cmds = cs @ cs' \<longrightarrow> snapshot (fst (replayed env (length (dbSet d)) cs)) \<in> H)"

lemma log_inv_mono: "log_inv env H cmds d \<Longrightarrow> log_inv env (insert x H) cmds d"
  unfolding log_inv_def by blast

lemma log_inv_snapshot: "log_inv env H cmds d \<Longrightarrow> snapshot d \<in> H"
  unfolding log_inv_def by (metis append_Nil2)

lemma clean_select_cmd: "0 \<le> i \<Longrightarrow> i < 2 ^ 63 \<Longrightarrow> clean_cmd (select_cmd i)"
proof -
  assume i: "0 \<le> i" "i < 2 ^ 63"
  then obtain n where n: "i = int n" by (auto elim: nonneg_int_cases)
  then have "n < 10 ^ Suc 19" using i(2) by simp
  from length_format_nat [OF this] have "length (format_nat n) \<le> 20" by simp
  moreover have "hd (format_nat n) \<noteq> CHR ''$''" using hd_format_nat [of n] by auto
  ultimately show ?thesis
    using n by (simp add: clean_cmd_def select_cmd_def clean_arg_def maxAlloc_def Itoa_of_nat)
qed

lemma replay_select:
  assumes "0 \<le> i" "i < int (length (dbSet d))" "i < 2 ^ 63"
  shows "Exec env d c (select_cmd i) = (Some OkReply, d, c\<lparr>selectedDB := i\<rparr>)"
  using assms by (simp add: Exec_def select_cmd_def execSelect_def Atoi_Itoa SelectDB_def)

lemma clean_known: "c \<in> known_commands \<Longrightarrow> clean_arg c"
  by (auto simp: known_commands_def clean_arg_def maxAlloc_def)

text \<open>A line written to the file has the effect of the request it came from.\<close>

lemma Exec_log_line:
  assumes "sa_inv d" and "sa_conn_ok d c" and "as \<noteq> []" and "ToLower u (hd as) \<noteq> ''select''"
    and "DB_Exec u (dbSet d ! nat (selectedDB c)) as = Inr (r, db', [ToLower u (hd as) # tl as])"
  shows "Exec (u, cfg, disk) d c (ToLower u (hd as) # tl as) = Exec (u, cfg, disk) d c as"
    and "ToLower u (hd as) \<in> known_commands"
proof -
  have i: "nat (selectedDB c) < length (dbSet d)" "0 \<le> selectedDB c"
    using assms(2) by (simp_all add: sa_conn_ok_def nat_less_iff)
  obtain name rest where as: "as = name # rest" using assms(3) by (cases as) auto
  show known: "ToLower u (hd as) \<in> known_commands"
    using assms(5) as by (auto simp: DB_Exec_cases split: if_splits)
  note lower = ToLower_known [OF known, of u]
  have inv: "db_inv (dbSet d ! nat (selectedDB c))" using assms(1) i by (simp add: sa_inv_def)
  have "DB_Exec u (dbSet d ! nat (selectedDB c)) (ToLower u (hd as) # tl as) =
      DB_Exec u (dbSet d ! nat (selectedDB c)) as"
    using DB_Exec_log [OF inv assms(5,3)] assms(5) by simp
  then show "Exec (u, cfg, disk) d c (ToLower u (hd as) # tl as) = Exec (u, cfg, disk) d c as"
    using assms(4) lower i as
    by (simp add: Exec_def run_command_def GetDBIndex_def go_index_ok)
qed

lemma prefix_of_logged:
  assumes "cs @ cs' = cmds @ logged j i line"
  obtains (old) cs'' where "cmds = cs @ cs''" | (select) "i \<noteq> j" "cs = cmds @ [select_cmd i]"
  | (all) "cs = cmds @ logged j i line"
proof -
  from assms consider cs'' where "cmds = cs @ cs''" | us where "cs = cmds @ us" "us @ cs' = logged j i line"
    by (auto simp: append_eq_append_conv2)
  then show thesis
  proof cases
    case 1
    then show ?thesis by (rule old)
  next
    case (2 us)
    then consider "us = []" | "i \<noteq> j" "us = [select_cmd i]" | "us = logged j i line"
      by (auto simp: logged_def Cons_eq_append_conv append_eq_Cons_conv split: if_splits)
    then show ?thesis using 2(1) old [of "[]"] select all by cases auto
  qed
qed

lemma log_inv_step:
  assumes env: "env = (u, cfg, disk)" "AppendOnly cfg" "\<And>n. disk n = None"
    and d: "sa_inv d" "sa_conn_ok d c" "length (dbSet d) < 2 ^ 63"
    and line: "clean_cmd as" and inv: "log_inv env H cmds d" and e: "Exec env d c as = (r, d', c')"
  shows "\<exists>cmds'. log_inv env (insert (snapshot d') H) cmds' d'"
proof (cases "ToLower u (hd as) = ''select''")
  case True
  have "as \<noteq> []" using line by (simp add: clean_cmd_def)
  with Exec_select [OF this _ e] True env(1) have "d' = d" by simp
  with inv show ?thesis using log_inv_mono by blast
next
  case False
  have "as \<noteq> []" using line by (simp add: clean_cmd_def)
  define n where "n = length (dbSet d)"
  define k where "k = selectedDB c"
  have k: "0 \<le> k" "k < int n" "k < 2 ^ 63" "nat k < n"
    using d(2,3) by (auto simp: sa_conn_ok_def n_def k_def nat_less_iff)
  obtain x db' log h' where 1: "DB_Exec u (dbSet d ! nat k) as = Inr (x, db', log)"
      "Exec env d c as = (Some x, d\<lparr>dbSet := (dbSet d)[nat k := db'], aofHandler := h'\<rparr>, c)"
      "h' = (case aofHandler d of None \<Rightarrow> None | Some handler \<Rightarrow> Some (fold (AddAof cfg disk k) log handler))"
      "log = [] \<and> db' = dbSet d ! nat k \<or> log = [ToLower u (hd as) # tl as]"
    unfolding env(1) k_def by (rule Exec_command [OF d(1,2) \<open>as \<noteq> []\<close> False, of cfg disk]) (use that in blast)
  have d': "d' = d\<lparr>dbSet := (dbSet d)[nat k := db'], aofHandler := h'\<rparr>" and c': "c' = c"
    using e 1(2) by auto
  show ?thesis
  proof (cases "log = []")
    case True
    with 1(3,4) d' have "d' = d" by (cases d; cases "aofHandler d") auto
    with inv show ?thesis using log_inv_mono by blast
  next
    case False
    define line' where "line' = ToLower u (hd as) # tl as"
    have log: "log = [line']" using False 1(4) by (simp add: line'_def)
    from inv obtain h where h: "aofHandler d = Some h" "written (aofFile h) = log_bytes cmds"
        "snapshot (fst (replayed env n cmds)) = snapshot d"
        "selectedDB (snd (replayed env n cmds)) = currentDBIndex h"
        "\<forall>cmd \<in> set cmds. clean_cmd cmd"
        "\<And>cs cs'. cmds = cs @ cs' \<Longrightarrow> snapshot (fst (replayed env n cs)) \<in> H"
      unfolding log_inv_def n_def by blast
    obtain d0 c0 where r0: "replayed env n cmds = (d0, c0)" by (cases "replayed env n cmds")
    have inv0: "sa_inv d0" "sa_conn_ok d0 c0"
      using replayed_inv [OF _ _ r0] k h(5) by (auto simp: clean_cmd_def)
    have len0: "length (dbSet d0) = n" using snapshot_length [of d0 d] h(3) r0 by (simp add: n_def)
    note sel = replay_select [of k d0 env c0]
    have e1: "Exec env d c line' = (Some x, d', c)"
      using Exec_log_line(1) [OF d(1,2) \<open>as \<noteq> []\<close> \<open>ToLower u (hd as) \<noteq> ''select''\<close>, of x db' cfg disk]
        1(1,2) log d' env(1) by (simp add: line'_def k_def)
    obtain d1 c1 where r1: "Exec env d0 (c0\<lparr>selectedDB := k\<rparr>) line' = (Some x, d1, c1)"
        "snapshot d1 = snapshot d'" "selectedDB c1 = k"
      using Exec_frame [OF d(1,2) _ inv0(1), of line' "c0\<lparr>selectedDB := k\<rparr>" u cfg disk "Some x" d' c cfg disk]
        e1 h(3) r0 env(1) by (auto simp: k_def line'_def)
    have same: "c0\<lparr>selectedDB := currentDBIndex h\<rparr> = c0" using h(4) r0 by (cases c0) simp
    have cmds': "replayed env n (cmds @ logged (currentDBIndex h) k line') = (d1, c1)"
    proof (cases "k = currentDBIndex h")
      case True
      with r1(1) same have "Exec env d0 c0 line' = (Some x, d1, c1)" by metis
      with r0 True show ?thesis by (simp add: replayed_append logged_def)
    next
      case False
      with r0 r1(1) sel k len0 show ?thesis by (simp add: replayed_append logged_def)
    qed
    have clean': "clean_cmd line'"
      using line clean_known Exec_log_line(2) [OF d(1,2) \<open>as \<noteq> []\<close> \<open>ToLower u (hd as) \<noteq> ''select''\<close>, of x db']
        1(1) log by (cases as) (auto simp: clean_cmd_def line'_def k_def)
    have clean: "\<forall>cmd \<in> set (cmds @ logged (currentDBIndex h) k line'). clean_cmd cmd"
      using h(5) clean' clean_select_cmd [of k] k by (auto simp: logged_def)
    have hist: "snapshot (fst (replayed env n cs)) \<in> insert (snapshot d') H"
      if "cs @ cs' = cmds @ logged (currentDBIndex h) k line'" for cs cs'
    proof (cases rule: prefix_of_logged [OF that, case_names old select all])
      case (old cs'')
      then show ?thesis using h(6) by simp
    next
      case select
      with r0 sel k len0 h(3) h(6) [of cmds "[]"] show ?thesis by (auto simp: replayed_append)
    next
      case all
      then show ?thesis using cmds' r1(2) by simp
    qed
    have handler: "h' = Some (AddAof cfg disk k line' h)" using 1(3) h(1) log by simp
    have "written (aofFile (AddAof cfg disk k line' h)) = log_bytes (cmds @ logged (currentDBIndex h) k line')"
      "currentDBIndex (AddAof cfg disk k line' h) = k"
      using AddAof_ok [OF env(2,3)] h(2) by simp_all
    then have "log_inv env (insert (snapshot d') H) (cmds @ logged (currentDBIndex h) k line') d'"
      unfolding log_inv_def using handler d' cmds' r1(2,3) clean hist n_def by auto
    then show ?thesis by blast
  qed
qed

section \<open>Recovery\<close>

lemma Exec_keeps_env:
  assumes "sa_inv d" and "sa_conn_ok d c" and "as \<noteq> []" and "Exec env d c as = (r, d', c')"
  shows "sa_inv d' \<and> sa_conn_ok d' c' \<and> length (dbSet d') = length (dbSet d)"
  using Exec_keeps [of d c as "fst env" "fst (snd env)" "snd (snd env)" r d' c'] assms by simp

lemma serve_keeps:
  "sa_inv d \<Longrightarrow> \<forall>i. sa_conn_ok d (conns i) \<Longrightarrow> \<forall>req \<in> set reqs. snd req \<noteq> [] \<Longrightarrow>
   serve env d conns reqs = (d', conns') \<Longrightarrow>
   sa_inv d' \<and> (\<forall>i. sa_conn_ok d' (conns' i)) \<and> length (dbSet d') = length (dbSet d)"
proof (induction reqs arbitrary: d conns)
  case Nil
  then show ?case by simp
next
  case (Cons req reqs)
  obtain i as where req: "req = (i, as)" by (cases req)
  obtain r d1 c1 where e: "Exec env d (conns i) as = (r, d1, c1)" by (cases "Exec env d (conns i) as")
  have 1: "sa_inv d1" "sa_conn_ok d1 c1" "length (dbSet d1) = length (dbSet d)"
    using Exec_keeps_env [OF Cons.prems(1) _ _ e] Cons.prems(2,3) req by auto
  then have "\<forall>j. sa_conn_ok d1 ((conns(i := c1)) j)"
    using Cons.prems(2) by (auto simp: sa_conn_ok_def)
  with Cons.IH [OF 1(1)] Cons.prems(3,4) req e 1(3) show ?case by (simp del: fun_upd_apply)
qed

lemma serve_log_inv:
  assumes env: "env = (u, cfg, disk)" "AppendOnly cfg" "\<And>n. disk n = None"
  shows "sa_inv d \<Longrightarrow> \<forall>i. sa_conn_ok d (conns i) \<Longrightarrow> length (dbSet d) < 2 ^ 63 \<Longrightarrow>
    \<forall>req \<in> set reqs. clean_cmd (snd req) \<Longrightarrow> log_inv env H cmds d \<Longrightarrow>
    \<exists>cmds'. log_inv env (H \<union> set (history env d conns reqs)) cmds' (fst (serve env d conns reqs))"
proof (induction reqs arbitrary: d conns cmds H)
  case Nil
  then show ?case using log_inv_mono by fastforce
next
  case (Cons req reqs)
  obtain i as where req: "req = (i, as)" by (cases req)
  obtain r d1 c1 where e: "Exec env d (conns i) as = (r, d1, c1)" by (cases "Exec env d (conns i) as")
  have clean: "clean_cmd as" "as \<noteq> []" using Cons.prems(4) req by (auto simp: clean_cmd_def)
  have 1: "sa_inv d1" "sa_conn_ok d1 c1" "length (dbSet d1) = length (dbSet d)"
    using Exec_keeps_env [OF Cons.prems(1) _ clean(2) e] Cons.prems(2) by auto
  have 2: "\<forall>j. sa_conn_ok d1 ((conns(i := c1)) j)"
    using Cons.prems(2) 1 by (auto simp: sa_conn_ok_def)
  obtain cmds1 where "log_inv env (insert (snapshot d1) H) cmds1 d1"
    using log_inv_step [OF env Cons.prems(1) _ Cons.prems(3) clean(1) Cons.prems(5) e] Cons.prems(2) by auto
  from Cons.IH [OF 1(1) 2 _ _ this] Cons.prems(3,4) 1(3)
  obtain cmds' where inv: "log_inv env (insert (snapshot d1) H \<union> set (history env d1 (conns(i := c1)) reqs))
      cmds' (fst (serve env d1 (conns(i := c1)) reqs))"
    by (auto simp del: fun_upd_apply)
  have "snapshot d1 \<in> set (history env d1 (conns(i := c1)) reqs)" by (cases reqs) auto
  moreover have "snapshot d \<in> H" by (rule log_inv_snapshot [OF Cons.prems(5)])
  ultimately have "insert (snapshot d1) H \<union> set (history env d1 (conns(i := c1)) reqs) =
      H \<union> set (history env d conns (req # reqs))" using req e by auto
  with inv req e show ?case by (auto simp del: fun_upd_apply)
qed

text \<open>A cut of the file leaves complete commands and the beginning of one more.\<close>

lemma take_log_bytes:
  "\<exists>cs cs' torn. cmds = cs @ cs' \<and> take k (log_bytes cmds) = log_bytes cs @ torn \<and>
     (torn = [] \<or> (\<exists>cmd rest. cmd \<in> set cs' \<and> rest \<noteq> [] \<and> MultiBulkReply_ToBytes cmd = torn @ rest))"
proof (induction cmds arbitrary: k)
  case Nil
  then show ?case by auto
next
  case (Cons cmd cmds)
  let ?w = "MultiBulkReply_ToBytes cmd"
  show ?case
  proof (cases "k < length ?w")
    case True
    then have "take k (log_bytes (cmd # cmds)) = log_bytes [] @ take k ?w" "drop k ?w \<noteq> []" by simp_all
    moreover have "?w = take k ?w @ drop k ?w" by simp
    ultimately show ?thesis
      by (intro exI [of _ "[]"] exI [of _ "cmd # cmds"] exI [of _ "take k ?w"]) (metis append_Nil list.set_intros(1))
  next
    case False
    obtain cs cs' torn where IH: "cmds = cs @ cs'" "take (k - length ?w) (log_bytes cmds) = log_bytes cs @ torn"
        "torn = [] \<or> (\<exists>cmd rest. cmd \<in> set cs' \<and> rest \<noteq> [] \<and> MultiBulkReply_ToBytes cmd = torn @ rest)"
      using Cons.IH [of "k - length ?w"] by blast
    with False show ?thesis by (intro exI [of _ "cmd # cs"] exI [of _ cs'] exI [of _ torn]) simp
  qed
qed

lemma snapshot_hooks [simp]: "snapshot (d\<lparr>dbSet := install_hooks (dbSet d), aofHandler := h\<rparr>) = snapshot d"
  by (auto simp: snapshot_def install_hooks_def nth_enumerate_eq intro: nth_equalityI)

text \<open>What a server started on the contents of a log looks like.\<close>

definition started :: "StandaloneDatabase \<Rightarrow> bytes \<Rightarrow> StandaloneDatabase" where
  "started d bs = d\<lparr>dbSet := install_hooks (dbSet d),
     aofHandler := Some \<lparr>aofFile = \<lparr>written = bs, writes = 0\<rparr>, currentDBIndex = 0\<rparr>\<rparr>"

lemma started_simps [simp]:
  "aofHandler (started d bs) = Some \<lparr>aofFile = \<lparr>written = bs, writes = 0\<rparr>, currentDBIndex = 0\<rparr>"
  "snapshot (started d bs) = snapshot d" "length (dbSet (started d bs)) = length (dbSet d)"
  by (simp_all add: started_def) (simp add: install_hooks_def)

lemma sa_inv_started: "sa_inv d \<Longrightarrow> sa_inv (started d bs)"
  by (auto simp: sa_inv_def started_def install_hooks_def nth_enumerate_eq hook_ok_def)

lemma snapshot_abs: "snapshot d2 = snapshot d \<Longrightarrow> sa_abs d2 = sa_abs d"
  using snapshot_nth [of d2 d] snapshot_length [of d2 d]
  by (auto simp: sa_abs_def db_abs_def fun_eq_iff)

lemma start_on_log:
  assumes cfg: "AppendOnly cfg" "0 < database_count cfg" "database_count cfg \<le> 2 ^ 45"
    and cmds: "\<forall>cmd \<in> set cmds. clean_cmd cmd"
    and torn: "torn = [] \<or> (\<exists>cmd rest. clean_cmd cmd \<and> rest \<noteq> [] \<and> MultiBulkReply_ToBytes cmd = torn @ rest)"
  shows "NewStandaloneDatabase (u, cfg, disk) (Some (log_bytes cmds @ torn)) True =
    Started (started (fst (replayed (u, cfg, disk) (nat (database_count cfg)) cmds)) (log_bytes cmds @ torn))"
  using standalone.LoadAof_commands [of "empty_server (nat (database_count cfg))" cmds torn "(u, cfg, disk)"]
    cfg cmds torn
  by (simp add: NewStandaloneDatabase_def make_dbSet NewAofHandler_def empty_server_def [symmetric] replayed_def
      started_def Let_def split: prod.splits)

lemma start_fresh:
  assumes "AppendOnly cfg" and "0 < database_count cfg" and "database_count cfg \<le> 2 ^ 45"
  shows "NewStandaloneDatabase (u, cfg, disk) None True =
    Started (started (empty_server (nat (database_count cfg))) [])"
  using assms by (simp add: NewStandaloneDatabase_def make_dbSet NewAofHandler_def LoadAof_def started_def
      empty_server_def Let_def)

lemma log_inv_started:
  assumes "\<forall>cmd \<in> set cmds. clean_cmd cmd" and "replayed env n cmds = (d, c)" and "selectedDB c = 0"
    and "length (dbSet d) = n"
    and "\<And>cs cs'. cmds = cs @ cs' \<Longrightarrow> snapshot (fst (replayed env n cs)) \<in> H"
  shows "log_inv env H cmds (started d (log_bytes cmds))"
  using assms unfolding log_inv_def by simp

lemma recover_from_log_inv:
  assumes "AppendOnly cfg" and "0 < database_count cfg" and "database_count cfg \<le> 2 ^ 45"
    and "log_inv (u, cfg, disk) H cmds d"
    and "length (dbSet d) = nat (database_count cfg)" and "aofHandler d = Some h"
  shows "\<exists>d2. NewStandaloneDatabase (u, cfg, disk) (Some (written (aofFile h))) True = Started d2 \<and>
      snapshot d2 = snapshot d"
    and "\<exists>d2. NewStandaloneDatabase (u, cfg, disk) (Some (take k (written (aofFile h)))) True = Started d2 \<and>
      snapshot d2 \<in> H"
proof -
  have inv: "written (aofFile h) = log_bytes cmds" "\<forall>cmd \<in> set cmds. clean_cmd cmd"
      "snapshot (fst (replayed (u, cfg, disk) (nat (database_count cfg)) cmds)) = snapshot d"
      "\<And>cs cs'. cmds = cs @ cs' \<Longrightarrow> snapshot (fst (replayed (u, cfg, disk) (nat (database_count cfg)) cs)) \<in> H"
    using assms(4-6) unfolding log_inv_def by auto
  show "\<exists>d2. NewStandaloneDatabase (u, cfg, disk) (Some (written (aofFile h))) True = Started d2 \<and>
      snapshot d2 = snapshot d"
    using start_on_log [OF assms(1-3) inv(2), of "[]" u disk] inv(1,3) by simp
  obtain cs cs' torn where t: "cmds = cs @ cs'" "take k (log_bytes cmds) = log_bytes cs @ torn"
      "torn = [] \<or> (\<exists>cmd rest. cmd \<in> set cs' \<and> rest \<noteq> [] \<and> MultiBulkReply_ToBytes cmd = torn @ rest)"
    using take_log_bytes [of cmds k] by blast
  have "\<forall>cmd \<in> set cs. clean_cmd cmd" using inv(2) t(1) by auto
  moreover have "torn = [] \<or> (\<exists>cmd rest. clean_cmd cmd \<and> rest \<noteq> [] \<and> MultiBulkReply_ToBytes cmd = torn @ rest)"
    using t inv(2) by auto
  ultimately show "\<exists>d2. NewStandaloneDatabase (u, cfg, disk) (Some (take k (written (aofFile h)))) True = Started d2 \<and>
      snapshot d2 \<in> H"
    using start_on_log [OF assms(1-3), of cs torn u disk] inv(1) inv(4) [OF t(1)] t(2) by simp
qed

lemma log_inv_serve_fresh:
  assumes "AppendOnly cfg" and "\<And>n. disk n = None" and "0 < database_count cfg" and "database_count cfg < 2 ^ 63"
    and "\<forall>i. selectedDB (conns i) = 0" and "\<forall>req \<in> set reqs. clean_cmd (snd req)"
    and "serve (u, cfg, disk) (started (empty_server (nat (database_count cfg))) []) conns reqs = (d, conns')"
  shows "\<exists>cmds. log_inv (u, cfg, disk)
      (set (history (u, cfg, disk) (started (empty_server (nat (database_count cfg))) []) conns reqs)) cmds d"
    and "length (dbSet d) = nat (database_count cfg)"
proof -
  let ?env = "(u, cfg, disk)" and ?n = "nat (database_count cfg)"
  let ?d0 = "started (empty_server ?n) []"
  have len: "length (dbSet (empty_server ?n)) = ?n" by (simp add: empty_server_def)
  have inv0: "log_inv ?env {snapshot ?d0} [] ?d0"
    using log_inv_started [of "[]" ?env ?n "empty_server ?n" fake_connection] len
    by (simp add: fake_connection_def)
  have ok: "\<forall>i. sa_conn_ok ?d0 (conns i)" using assms(3,5) len by (simp add: sa_conn_ok_def)
  have sa: "sa_inv ?d0" by (simp add: sa_inv_started)
  have ne: "\<forall>req \<in> set reqs. snd req \<noteq> []" using assms(6) by (auto simp: clean_cmd_def)
  have small: "length (dbSet ?d0) < 2 ^ 63" using assms(4) len by (simp add: nat_less_iff)
  have "snapshot ?d0 \<in> set (history ?env ?d0 conns reqs)" by (cases reqs) auto
  then have "{snapshot ?d0} \<union> set (history ?env ?d0 conns reqs) = set (history ?env ?d0 conns reqs)" by auto
  with serve_log_inv [OF refl assms(1,2) sa ok small assms(6) inv0] assms(7)
  show "\<exists>cmds. log_inv ?env (set (history ?env ?d0 conns reqs)) cmds d" by simp
  show "length (dbSet d) = ?n" using serve_keeps [OF sa ok ne assms(7)] len by simp
qed

text \<open>A start that does not hang gives a server in order.\<close>

lemma start_ok:
  assumes "0 \<le> Databases cfg" and "Databases cfg \<le> 2 ^ 45"
  shows "case NewStandaloneDatabase (u, cfg, disk) contents creatable of
      StartPanics p \<Rightarrow> False
    | Started d \<Rightarrow> sa_inv d \<and> sa_conn_ok d fake_connection
    | OpenFailed \<Rightarrow> AppendOnly cfg \<and> \<not> creatable
    | StartHangs \<Rightarrow> AppendOnly cfg \<and> contents \<noteq> None"
proof -
  let ?n = "nat (database_count cfg)" and ?env = "(u, cfg, disk)"
  have n: "0 < ?n" "make_slice 8 (database_count cfg) = Inr ?n"
    using assms by (auto simp: database_count_def make_dbSet)
  have e: "\<lparr>dbSet = fresh_dbs ?n, aofHandler = None\<rparr> = empty_server ?n" by (simp add: empty_server_def)
  have fresh: "sa_inv (empty_server ?n) \<and> sa_conn_ok (empty_server ?n) fake_connection" using n by simp
  have up: "sa_inv (db\<lparr>dbSet := install_hooks (dbSet db), aofHandler := Some
      \<lparr>aofFile = \<lparr>written = bs, writes = 0\<rparr>, currentDBIndex = 0\<rparr>\<rparr>) \<and>
      sa_conn_ok (db\<lparr>dbSet := install_hooks (dbSet db), aofHandler := Some
      \<lparr>aofFile = \<lparr>written = bs, writes = 0\<rparr>, currentDBIndex = 0\<rparr>\<rparr>) fake_connection"
    if "sa_inv db" "sa_conn_ok db c" for db c bs
    using sa_inv_started [OF that(1), of bs] that(2)
    by (cases "dbSet db") (auto simp: started_def sa_conn_ok_def fake_connection_def install_hooks_def)
  from standalone.LoadAof_safe [of "empty_server ?n" ?env contents] fresh
  have "case LoadAof (Exec ?env) contents (empty_server ?n) of
      Loaded db' c' \<Rightarrow> sa_inv db' \<and> sa_conn_ok db' c' | Hangs db' \<Rightarrow> sa_inv db' | LoadPanics p \<Rightarrow> False"
    by blast
  moreover have "contents \<noteq> None" if "LoadAof (Exec ?env) contents (empty_server ?n) = Hangs db" for db
    using that by (cases contents) (simp_all add: LoadAof_def)
  ultimately show ?thesis
    using n up fresh
    by (cases "LoadAof (Exec ?env) contents (empty_server ?n)")
      (auto simp: NewStandaloneDatabase_def NewAofHandler_def e Let_def)
qed

section \<open>Properties\<close>

text \<open>
  C10 (requests_are_server_steps). Every non-empty request of a client whose database exists gets a reply that has
  bytes, and request, reply and effect are a step of the abstract server: SELECT moves the
  client to an existing database or reports why not, any other command is a step on the
  client's own store and touches no other.
\<close>

theorem requests_are_server_steps:
  assumes "sa_inv d" and "sa_conn_ok d c" and "as \<noteq> []"
  shows "\<exists>r d' c'. Exec (u, cfg, disk) d c as = (Some r, d', c') \<and> r \<noteq> NoReply \<and>
    sa_inv d' \<and> sa_conn_ok d' c' \<and>
    server_step (length (dbSet d)) (sa_abs d) (selectedDB c) (ToLower u (hd as)) (tl as) r
      (sa_abs d') (selectedDB c')"
proof -
  obtain r d' c' where e: "Exec (u, cfg, disk) d c as = (r, d', c')" by (cases "Exec (u, cfg, disk) d c as")
  from Exec_keeps [OF assms e] obtain x where "r = Some x" "x \<noteq> NoReply" "sa_inv d'" "sa_conn_ok d' c'"
    by auto
  with Exec_server_step [OF assms] e show ?thesis by auto
qed

theorem requests_are_server_steps_witness:
  "\<exists>r d' c'. Exec (\<lambda>n. n, default_properties, \<lambda>n. None) (empty_server 2) fake_connection [''SELECT'', ''1''] = (Some r, d', c') \<and>
    r \<noteq> NoReply \<and> sa_inv d' \<and> sa_conn_ok d' c' \<and>
    server_step (length (dbSet (empty_server 2))) (sa_abs (empty_server 2)) (selectedDB fake_connection)
      (ToLower (\<lambda>n. n) (hd [''SELECT'', ''1''])) (tl [''SELECT'', ''1'']) r (sa_abs d') (selectedDB c')"
  by (rule requests_are_server_steps) simp_all

text \<open>
  C3 (append_only_file_recovers). With the append-only file on and a disk that does not fail, take a server started
  without a file and any interleaving of requests of any number of new clients, with
  non-empty arguments that do not start with a dollar sign.  A server started on the file they
  leave behind holds the same data in every database.
\<close>

theorem append_only_file_recovers:
  assumes "AppendOnly cfg" and "\<And>n. disk n = None"
    and "0 < database_count cfg" and "database_count cfg < 2 ^ 63"
    and "NewStandaloneDatabase (u, cfg, disk) None True = Started d0"
    and "\<forall>i. selectedDB (conns i) = 0" and "\<forall>req \<in> set reqs. clean_cmd (snd req)"
    and "serve (u, cfg, disk) d0 conns reqs = (d, conns')" and "aofHandler d = Some h"
  shows "\<exists>d2. NewStandaloneDatabase (u, cfg, disk) (Some (written (aofFile h))) True = Started d2 \<and>
    snapshot d2 = snapshot d \<and> sa_abs d2 = sa_abs d"
proof -
  have le: "database_count cfg \<le> 2 ^ 45" using Started_count [OF assms(5)] by simp
  have d0: "d0 = started (empty_server (nat (database_count cfg))) []"
    using assms(5) start_fresh [OF assms(1,3) le, of u disk] by simp
  note log = log_inv_serve_fresh [OF assms(1-4,6,7) assms(8) [unfolded d0]]
  then obtain cmds where inv: "log_inv (u, cfg, disk) (set (history (u, cfg, disk)
      (started (empty_server (nat (database_count cfg))) []) conns reqs)) cmds d" by blast
  from recover_from_log_inv(1) [OF assms(1,3) le inv log(2) assms(9)] show ?thesis
    using snapshot_abs by blast
qed

theorem append_only_file_recovers_witness:
  "\<exists>d h d2. serve (\<lambda>n. n, default_properties\<lparr>AppendOnly := True\<rparr>, \<lambda>n. None) (started (empty_server 16) [])
      (\<lambda>i. fake_connection) [(0, [''select'', ''3'']), (1, [''set'', ''a'', ''x'']), (0, [''set'', ''a'', ''y''])] = d \<and>
    aofHandler (fst d) = Some h \<and>
    NewStandaloneDatabase (\<lambda>n. n, default_properties\<lparr>AppendOnly := True\<rparr>, \<lambda>n. None)
      (Some (written (aofFile h))) True = Started d2 \<and> snapshot d2 = snapshot (fst d) \<and> sa_abs d2 = sa_abs (fst d)"
proof -
  let ?cfg = "default_properties\<lparr>AppendOnly := True\<rparr>"
  let ?reqs = "[(0, [''select'', ''3'']), (1, [''set'', ''a'', ''x'']), (0, [''set'', ''a'', ''y''])]"
  have n: "database_count ?cfg = 16"
    by (simp add: database_count_def default_properties_def zero_properties_def)
  let ?e = "(\<lambda>n. n, ?cfg, \<lambda>n. None) :: env" and ?d0 = "started (empty_server 16) []"
  have start: "NewStandaloneDatabase ?e None True = Started ?d0"
    using start_fresh [of ?cfg] n by simp
  obtain d cs where s: "serve ?e ?d0 (\<lambda>i. fake_connection) ?reqs = (d, cs)"
    by (cases "serve ?e ?d0 (\<lambda>i. fake_connection) ?reqs")
  have clean: "\<forall>req \<in> set ?reqs. clean_cmd (snd req)" by (simp add: clean_cmd_def clean_arg_def maxAlloc_def)
  obtain h where h: "aofHandler d = Some h"
    using log_inv_serve_fresh(1) [of ?cfg "\<lambda>n. None" "\<lambda>i. fake_connection" ?reqs "\<lambda>n. n" d cs] s n clean
    by (auto simp: log_inv_def fake_connection_def)
  show ?thesis
    using append_only_file_recovers [of ?cfg "\<lambda>n. None" "\<lambda>n. n" ?d0 "\<lambda>i. fake_connection" ?reqs d cs h]
      start s clean h n by (auto simp: fake_connection_def)
qed

text \<open>
  C14 (crash_leaves_a_prefix). With the append-only file on and a disk that does not fail, take a server started without a file
  and any interleaving of requests of any number of new clients, with non-empty arguments that do not start
  with a dollar sign.  If the file they leave behind is cut anywhere, in the middle of a command included, a
  server started on what is left comes up, with the data all databases had after some prefix of the requests.
\<close>

theorem crash_leaves_a_prefix:
  assumes "AppendOnly cfg" and "\<And>n. disk n = None"
    and "0 < database_count cfg" and "database_count cfg < 2 ^ 63"
    and "NewStandaloneDatabase (u, cfg, disk) None True = Started d0"
    and "\<forall>i. selectedDB (conns i) = 0" and "\<forall>req \<in> set reqs. clean_cmd (snd req)"
    and "serve (u, cfg, disk) d0 conns reqs = (d, conns')" and "aofHandler d = Some h"
  shows "\<exists>d2. NewStandaloneDatabase (u, cfg, disk) (Some (take k (written (aofFile h)))) True = Started d2 \<and>
    snapshot d2 \<in> set (history (u, cfg, disk) d0 conns reqs)"
proof -
  have le: "database_count cfg \<le> 2 ^ 45" using Started_count [OF assms(5)] by simp
  have d0: "d0 = started (empty_server (nat (database_count cfg))) []"
    using assms(5) start_fresh [OF assms(1,3) le, of u disk] by simp
  note log = log_inv_serve_fresh [OF assms(1-4,6,7) assms(8) [unfolded d0]]
  then obtain cmds where inv: "log_inv (u, cfg, disk) (set (history (u, cfg, disk) d0 conns reqs)) cmds d"
    unfolding d0 by blast
  show ?thesis by (rule recover_from_log_inv(2) [OF assms(1,3) le inv log(2) assms(9)])
qed

theorem crash_leaves_a_prefix_witness:
  "\<exists>d h d2. serve (\<lambda>n. n, default_properties\<lparr>AppendOnly := True\<rparr>, \<lambda>n. None) (started (empty_server 16) [])
      (\<lambda>i. fake_connection) [(0, [''set'', ''a'', ''x'']), (0, [''set'', ''b'', ''y''])] = d \<and>
    aofHandler (fst d) = Some h \<and>
    NewStandaloneDatabase (\<lambda>n. n, default_properties\<lparr>AppendOnly := True\<rparr>, \<lambda>n. None)
      (Some (take 40 (written (aofFile h)))) True = Started d2 \<and>
    snapshot d2 \<in> set (history (\<lambda>n. n, default_properties\<lparr>AppendOnly := True\<rparr>, \<lambda>n. None)
      (started (empty_server 16) []) (\<lambda>i. fake_connection)
      [(0, [''set'', ''a'', ''x'']), (0, [''set'', ''b'', ''y''])])"
proof -
  let ?cfg = "default_properties\<lparr>AppendOnly := True\<rparr>"
  let ?reqs = "[(0, [''set'', ''a'', ''x'']), (0, [''set'', ''b'', ''y''])]"
  have n: "database_count ?cfg = 16"
    by (simp add: database_count_def default_properties_def zero_properties_def)
  let ?e = "(\<lambda>n. n, ?cfg, \<lambda>n. None) :: env" and ?d0 = "started (empty_server 16) []"
  have start: "NewStandaloneDatabase ?e None True = Started ?d0"
    using start_fresh [of ?cfg] n by simp
  obtain d cs where s: "serve ?e ?d0 (\<lambda>i. fake_connection) ?reqs = (d, cs)"
    by (cases "serve ?e ?d0 (\<lambda>i. fake_connection) ?reqs")
  have clean: "\<forall>req \<in> set ?reqs. clean_cmd (snd req)" by (simp add: clean_cmd_def clean_arg_def maxAlloc_def)
  obtain h where h: "aofHandler d = Some h"
    using log_inv_serve_fresh(1) [of ?cfg "\<lambda>n. None" "\<lambda>i. fake_connection" ?reqs "\<lambda>n. n" d cs] s n clean
    by (auto simp: log_inv_def fake_connection_def)
  show ?thesis
    using crash_leaves_a_prefix [of ?cfg "\<lambda>n. None" "\<lambda>n. n" ?d0 "\<lambda>i. fake_connection" ?reqs d cs h 40]
      start s clean h n by (auto simp: fake_connection_def)
qed

text \<open>Storing a value, as the theorems below need it.\<close>

lemma Exec_set:
  assumes "sa_inv d" and "sa_conn_ok d c" and "aofHandler d = Some h"
  shows "\<exists>d'. Exec (u, cfg, disk) d c [''set'', k, v] = (Some OkReply, d', c) \<and>
    sa_abs d' = (sa_abs d)(nat (selectedDB c) := (sa_abs d (nat (selectedDB c)))(k \<mapsto> v)) \<and>
    aofHandler d' = Some (AddAof cfg disk (selectedDB c) [''set'', k, v] h)"
proof -
  define i where "i = nat (selectedDB c)"
  have i: "i < length (dbSet d)" using assms(2) by (simp add: sa_conn_ok_def nat_less_iff i_def)
  have name: "ToLower u (hd [''set'', k, v]) \<noteq> ''select''" "([''set'', k, v] :: bytes list) \<noteq> []" by simp_all
  obtain r db' log h' where 1: "DB_Exec u (dbSet d ! i) [''set'', k, v] = Inr (r, db', log)"
      "Exec (u, cfg, disk) d c [''set'', k, v] = (Some r, d\<lparr>dbSet := (dbSet d)[i := db'], aofHandler := h'\<rparr>, c)"
      "h' = Some (fold (AddAof cfg disk (selectedDB c)) log h)"
      "redis_step (db_abs (dbSet d ! i)) ''set'' [k, v] r (db_abs db')"
    by (rule Exec_command [OF assms(1,2) name(2,1), of cfg disk])
      (use that assms(3) in \<open>simp add: i_def\<close>)
  have "log = [[''set'', k, v]]"
    using 1(1) by (simp add: DB_Exec_cases known_commands_def arity_ok_names exec_of_def execSet_def
        ToCmdLine3_def Let_def)
  moreover from redis_step_set [OF 1(4)] have "r = OkReply" "db_abs db' = (db_abs (dbSet d ! i))(k \<mapsto> v)"
    by simp_all
  ultimately show ?thesis using 1(2,3) i by (simp add: sa_abs_update i_def [symmetric]) (simp add: sa_abs_def)
qed

text \<open>
  C36 (restart_misplaces_writes). With at most \<open>2 ^ 45\<close> databases: a handler starts with \<^verbatim>\<open>currentDBIndex\<close> 0, whatever database the
  file it appends to ends in.  When that is another database \<open>j\<close>, a SET of a new client after the restart
  is logged without a SELECT, and the next start replays it into database \<open>j\<close>: the value is
  gone from database 0 and has overwritten the one in \<open>j\<close>.
\<close>

theorem restart_misplaces_writes:
  assumes "AppendOnly cfg" and "\<And>n. disk n = None" and "0 < database_count cfg" and "database_count cfg \<le> 2 ^ 45"
    and "\<forall>cmd \<in> set cmds. clean_cmd cmd" and "clean_arg k" and "clean_arg v"
    and "selectedDB (snd (replayed (u, cfg, disk) (nat (database_count cfg)) cmds)) = j" and "j \<noteq> 0"
  shows "\<exists>d d' c' h d2.
    NewStandaloneDatabase (u, cfg, disk) (Some (log_bytes cmds)) True = Started d \<and>
    Exec (u, cfg, disk) d fake_connection [''set'', k, v] = (Some OkReply, d', c') \<and>
    sa_abs d' 0 k = Some v \<and> aofHandler d' = Some h \<and>
    NewStandaloneDatabase (u, cfg, disk) (Some (written (aofFile h))) True = Started d2 \<and>
    sa_abs d2 0 = sa_abs d 0 \<and> sa_abs d2 (nat j) k = Some v"
proof -
  let ?env = "(u, cfg, disk)" and ?n = "nat (database_count cfg)"
  obtain d0 c0 where r: "replayed ?env ?n cmds = (d0, c0)" by (cases "replayed ?env ?n cmds")
  have d0: "sa_inv d0" "sa_conn_ok d0 c0"
    using replayed_inv [OF _ _ r] assms(3,5) by (auto simp: clean_cmd_def)
  have j: "selectedDB c0 = j" "0 \<le> j" "nat j < length (dbSet d0)" "0 < length (dbSet d0)"
    using assms(8) r d0(2) by (auto simp: sa_conn_ok_def nat_less_iff)
  define d where "d = started d0 (log_bytes cmds)"
  have start: "NewStandaloneDatabase ?env (Some (log_bytes cmds)) True = Started d"
    using start_on_log [OF assms(1,3,4,5), of "[]" u disk] r by (simp add: d_def)
  have abs: "sa_abs d = sa_abs d0" by (rule snapshot_abs) (simp add: d_def)
  have inv: "sa_inv d" "sa_conn_ok d fake_connection"
    using sa_inv_started [OF d0(1)] j(4) by (simp_all add: d_def sa_conn_ok_def fake_connection_def)
  define h0 where "h0 = \<lparr>aofFile = \<lparr>written = log_bytes cmds, writes = 0\<rparr>, currentDBIndex = 0\<rparr>"
  have "aofHandler d = Some h0" by (simp add: d_def h0_def)
  from Exec_set [OF inv this, of u cfg disk k v] obtain d' where set:
    "Exec ?env d fake_connection [''set'', k, v] = (Some OkReply, d', fake_connection)"
    "sa_abs d' = (sa_abs d)(0 := (sa_abs d 0)(k \<mapsto> v))"
    "aofHandler d' = Some (AddAof cfg disk 0 [''set'', k, v] h0)"
    by (auto simp: fake_connection_def)
  have clean: "clean_cmd [''set'', k, v]" using assms(6,7) by (simp add: clean_cmd_def clean_arg_def maxAlloc_def)
  have bytes: "written (aofFile (AddAof cfg disk 0 [''set'', k, v] h0)) = log_bytes (cmds @ [[''set'', k, v]])"
    using AddAof_ok(1) [OF assms(1,2)] by (simp add: h0_def logged_def)
  obtain r1 d1 c1 where e: "Exec ?env d0 c0 [''set'', k, v] = (r1, d1, c1)"
    by (cases "Exec ?env d0 c0 [''set'', k, v]")
  from Exec_keeps [OF d0(1,2) _ e] obtain x where x: "r1 = Some x" by auto
  from Exec_server_step [OF d0(1,2) _ e [unfolded x]]
  have step: "server_step (length (dbSet d0)) (sa_abs d0) j ''set'' [k, v] x (sa_abs d1) (selectedDB c1)"
    using j(1) by simp
  then have d1: "sa_abs d1 = (sa_abs d0)(nat j := (sa_abs d0 (nat j))(k \<mapsto> v))"
    by cases (auto dest: redis_step_set)
  have "\<forall>cmd \<in> set (cmds @ [[''set'', k, v]]). clean_cmd cmd" using assms(5) clean by auto
  from start_on_log [OF assms(1,3,4) this, of "[]" u disk] r e
  have "NewStandaloneDatabase ?env (Some (log_bytes (cmds @ [[''set'', k, v]]))) True =
      Started (started d1 (log_bytes (cmds @ [[''set'', k, v]])))"
    by (simp add: replayed_append)
  moreover have "sa_abs (started d1 (log_bytes (cmds @ [[''set'', k, v]]))) = sa_abs d1"
    by (rule snapshot_abs) simp
  moreover have "sa_abs d1 0 = sa_abs d 0" "sa_abs d1 (nat j) k = Some v"
    using d1 abs assms(9) j(2) by auto
  ultimately show ?thesis using start set bytes by auto
qed

theorem restart_misplaces_writes_witness:
  "\<exists>d d' c' h d2.
    NewStandaloneDatabase (\<lambda>n. n, default_properties\<lparr>AppendOnly := True\<rparr>, \<lambda>n. None) (Some (log_bytes [select_cmd 1])) True = Started d \<and>
    Exec (\<lambda>n. n, default_properties\<lparr>AppendOnly := True\<rparr>, \<lambda>n. None) d fake_connection [''set'', ''k'', ''v''] = (Some OkReply, d', c') \<and>
    sa_abs d' 0 ''k'' = Some ''v'' \<and> aofHandler d' = Some h \<and>
    NewStandaloneDatabase (\<lambda>n. n, default_properties\<lparr>AppendOnly := True\<rparr>, \<lambda>n. None) (Some (written (aofFile h))) True = Started d2 \<and>
    sa_abs d2 0 = sa_abs d 0 \<and> sa_abs d2 (nat 1) ''k'' = Some ''v''"
proof (rule restart_misplaces_writes)
  show "\<forall>cmd \<in> set [select_cmd 1]. clean_cmd cmd" using clean_select_cmd [of 1] by simp
  show "selectedDB (snd (replayed (\<lambda>n. n, default_properties\<lparr>AppendOnly := True\<rparr>, \<lambda>n. None)
      (nat (database_count (default_properties\<lparr>AppendOnly := True\<rparr>))) [select_cmd 1])) = 1"
    by (simp add: replayed_def replay_select empty_server_def database_count_def
        default_properties_def zero_properties_def)
qed (simp_all add: database_count_def default_properties_def zero_properties_def clean_arg_def maxAlloc_def)

text \<open>
  The handler's comment promises that a command is on disk before it takes effect.  It is
  not so: when the disk refuses the write, SET still answers OK and stores the value, and
  the file is as it was.
\<close>

theorem log_failure_is_silent:
  assumes "AppendOnly cfg" and "sa_inv d" and "sa_conn_ok d c" and "aofHandler d = Some h"
    and "disk (writes (aofFile h)) = Some 0"
  shows "\<exists>d' h'. Exec (u, cfg, disk) d c [''set'', k, v] = (Some OkReply, d', c) \<and>
    sa_abs d' (nat (selectedDB c)) k = Some v \<and>
    aofHandler d' = Some h' \<and> written (aofFile h') = written (aofFile h)"
proof -
  obtain d' where "Exec (u, cfg, disk) d c [''set'', k, v] = (Some OkReply, d', c)"
    "sa_abs d' = (sa_abs d)(nat (selectedDB c) := (sa_abs d (nat (selectedDB c)))(k \<mapsto> v))"
    "aofHandler d' = Some (AddAof cfg disk (selectedDB c) [''set'', k, v] h)"
    using Exec_set [OF assms(2-4), of u cfg disk k v] by blast
  moreover have "written (aofFile (AddAof cfg disk (selectedDB c) [''set'', k, v] h)) = written (aofFile h)"
    using assms(1,5) by (simp add: AddAof_def sink_write_def Let_def)
  ultimately show ?thesis by simp
qed

theorem log_failure_is_silent_witness:
  "\<exists>d' h'. Exec (\<lambda>n. n, default_properties\<lparr>AppendOnly := True\<rparr>, \<lambda>n. Some 0)
      (started (empty_server 1) []) fake_connection [''set'', ''k'', ''v''] = (Some OkReply, d', fake_connection) \<and>
    sa_abs d' (nat (selectedDB fake_connection)) ''k'' = Some ''v'' \<and>
    aofHandler d' = Some h' \<and>
    written (aofFile h') = written (aofFile \<lparr>aofFile = \<lparr>written = [], writes = 0\<rparr>, currentDBIndex = 0\<rparr>)"
  by (rule log_failure_is_silent)
    (simp_all add: sa_inv_started, simp add: sa_conn_ok_def empty_server_def fake_connection_def)

text \<open>
  C33 (start_panics_exactly). Starting a server panics exactly when the configured number of databases is negative or
  above \<open>2 ^ 45\<close>, whatever the append-only file holds.  Otherwise it comes up with its invariant and a
  database for every new client, or returns nil because the file cannot be opened for writing, or waits for
  ever on the parser of an existing file.
\<close>

theorem start_panics_exactly:
  "case NewStandaloneDatabase (u, cfg, disk) contents creatable of
      StartPanics p \<Rightarrow> Databases cfg < 0 \<or> 2 ^ 45 < Databases cfg
    | Started d \<Rightarrow> 0 \<le> Databases cfg \<and> Databases cfg \<le> 2 ^ 45 \<and> sa_inv d \<and> sa_conn_ok d fake_connection
    | OpenFailed \<Rightarrow> 0 \<le> Databases cfg \<and> Databases cfg \<le> 2 ^ 45 \<and> AppendOnly cfg \<and> \<not> creatable
    | StartHangs \<Rightarrow> 0 \<le> Databases cfg \<and> Databases cfg \<le> 2 ^ 45 \<and> AppendOnly cfg \<and> contents \<noteq> None"
proof (cases "0 \<le> Databases cfg \<and> Databases cfg \<le> 2 ^ 45")
  case True
  with start_ok [where cfg = cfg and u = u and disk = disk and contents = contents and creatable = creatable] show ?thesis by (auto split: startup.splits)
next
  case False
  then have "make_slice 8 (database_count cfg) = Inl MakeSliceLen" by (auto simp: make_dbSet database_count_def)
  with False show ?thesis by (auto simp: NewStandaloneDatabase_def)
qed

text \<open>
  Storing an empty value is enough to make the next start hang: the file's record of
  the SET ends in a line the parser panics on, and the loader waits for ever on its channel.
\<close>

theorem empty_value_blocks_restart:
  assumes "AppendOnly cfg" and "\<And>n. disk n = None" and "0 < database_count cfg" and "clean_arg k"
    and "NewStandaloneDatabase (u, cfg, disk) None True = Started d"
  shows "\<exists>d' c' h. Exec (u, cfg, disk) d fake_connection [''set'', k, []] = (Some OkReply, d', c') \<and>
    aofHandler d' = Some h \<and>
    NewStandaloneDatabase (u, cfg, disk) (Some (written (aofFile h))) True = StartHangs"
proof -
  let ?n = "nat (database_count cfg)" and ?env = "(u, cfg, disk)"
  have le: "database_count cfg \<le> 2 ^ 45" using Started_count [OF assms(5)] by simp
  have d: "d = started (empty_server ?n) []" using assms(5) start_fresh [OF assms(1,3) le, of u disk] by simp
  have inv: "sa_inv d" "sa_conn_ok d fake_connection"
    using sa_inv_started [OF sa_inv_empty [of ?n], of "[]"] assms(3)
    by (simp add: d, simp add: d sa_conn_ok_def empty_server_def fake_connection_def)
  define h0 where "h0 = \<lparr>aofFile = \<lparr>written = [], writes = 0\<rparr>, currentDBIndex = 0\<rparr>"
  have h0: "aofHandler d = Some h0" by (simp add: d h0_def)
  obtain d' where set: "Exec ?env d fake_connection [''set'', k, []] = (Some OkReply, d', fake_connection)"
      "aofHandler d' = Some (AddAof cfg disk 0 [''set'', k, []] h0)"
    using Exec_set [OF inv h0, of u cfg disk k "[]"] by (auto simp: fake_connection_def)
  have bytes: "written (aofFile (AddAof cfg disk 0 [''set'', k, []] h0)) = MultiBulkReply_ToBytes ([''set'', k] @ [] # [])"
    using AddAof_ok(1) [OF assms(1,2)] by (simp add: h0_def logged_def)
  have "ParseStream \<lparr>unread = MultiBulkReply_ToBytes ([''set'', k] @ [] # []), read_err = EOF\<rparr> =
      ([command_payload ([''set'', k] @ [[]])], Abandoned IndexOutOfRange)"
    using parse_empty_arg_abandons [of "[''set'', k]" "[]" "[]" EOF] assms(4)
    by (simp add: ParseStream_def parse0_def clean_arg_def maxAlloc_def)
  moreover obtain r d1 c1 where e: "Exec ?env (empty_server ?n) fake_connection [''set'', k, []] = (r, d1, c1)"
    by (cases "Exec ?env (empty_server ?n) fake_connection [''set'', k, []]")
  moreover obtain x where "r = Some x" "x \<noteq> NoReply"
    using Exec_keeps [OF sa_inv_empty _ _ e] assms(3) by auto
  ultimately have "LoadAof (Exec ?env) (Some (MultiBulkReply_ToBytes ([''set'', k] @ [] # []))) (empty_server ?n) = Hangs d1"
    by (simp add: LoadAof_def command_payload_def IsErrReply_Some)
  then have "NewStandaloneDatabase ?env (Some (MultiBulkReply_ToBytes ([''set'', k] @ [] # []))) True = StartHangs"
    using assms(1,3) le by (simp add: NewStandaloneDatabase_def make_dbSet NewAofHandler_def empty_server_def Let_def)
  with set bytes show ?thesis by auto
qed

theorem empty_value_blocks_restart_witness:
  "\<exists>d' c' h. Exec (\<lambda>n. n, default_properties\<lparr>AppendOnly := True\<rparr>, \<lambda>n. None) (started (empty_server 16) [])
      fake_connection [''set'', ''k'', []] = (Some OkReply, d', c') \<and> aofHandler d' = Some h \<and>
    NewStandaloneDatabase (\<lambda>n. n, default_properties\<lparr>AppendOnly := True\<rparr>, \<lambda>n. None) (Some (written (aofFile h))) True = StartHangs"
proof (rule empty_value_blocks_restart)
  have n: "database_count (default_properties\<lparr>AppendOnly := True\<rparr>) = 16"
    by (simp add: database_count_def default_properties_def zero_properties_def)
  then show "0 < database_count (default_properties\<lparr>AppendOnly := True\<rparr>)" by simp
  show "NewStandaloneDatabase (\<lambda>n. n, default_properties\<lparr>AppendOnly := True\<rparr>, \<lambda>n. None) None True =
      Started (started (empty_server 16) [])"
    using start_fresh [of "default_properties\<lparr>AppendOnly := True\<rparr>"] n by simp
qed (simp_all add: clean_arg_def maxAlloc_def)

end
