(* ===== verification/Handler.thy ===== *)
theory Handler
  imports Standalone
begin

text \<open>
  \<^verbatim>\<open>resp/handler/handler.go\<close>: the loop that serves one connection.  It reads the parser's
  payloads from the channel, executes commands through the \<^verbatim>\<open>database.Database\<close> interface
  and writes the replies.  The interface is the parameter \<open>exec\<close> of the definitions and the
  locale \<open>database_interface\<close> of the lemmas.
\<close>

definition unknownErrReplyBytes :: bytes where
  "unknownErrReplyBytes = ToBytes (MakeErrReply ''ERR unknown'')"

text \<open>How serving a connection ends.\<close>

datatype conn_end =
    ClientClosed      \<comment> \<open>the peer is gone, the client is closed\<close>
  | WriteFailed       \<comment> \<open>an error could not be reported, the client is closed\<close>
  | ChannelClosed     \<comment> \<open>the channel is closed after an I/O error that was reported\<close>
  | Blocked           \<comment> \<open>the handler waits on a channel the parser has abandoned\<close>
  | Crashed panic
  | Refused

definition closed_text :: string where
  "closed_text = ''use of closed network connection''"

definition is_closed_err :: "go_error \<Rightarrow> bool" where
  "is_closed_err e \<longleftrightarrow> e = EOF \<or> e = ErrUnexpectedEOF \<or>
     (\<exists>n \<le> length (Error_string e). take (length closed_text) (drop n (Error_string e)) = closed_text)"

text \<open>
  The body of the loop for one payload: go on with the database and the client, or stop.
\<close>

datatype 'db served =
    GoOn 'db Connection
  | Stop conn_end 'db Connection

definition reply_bytes :: "reply option \<Rightarrow> bytes" where
  "reply_bytes r = (case r of Some x \<Rightarrow> ToBytes x | None \<Rightarrow> unknownErrReplyBytes)"

text \<open>Executing a command and writing its reply; a write error is ignored.\<close>

definition execute :: "'db db_exec \<Rightarrow> write_fault \<Rightarrow> CmdLine \<Rightarrow> 'db \<Rightarrow> Connection \<Rightarrow> 'db served" where
  "execute exec net as db c =
     (case exec db c as of
        (r, db, c) \<Rightarrow>
          (case Connection_Write net (reply_bytes r) c of
             Inl p \<Rightarrow> Stop (Crashed p) db c
           | Inr (ok, c) \<Rightarrow> GoOn db c))"

definition handle_payload :: "'db db_exec \<Rightarrow> write_fault \<Rightarrow> payload \<Rightarrow> 'db \<Rightarrow> Connection \<Rightarrow> 'db served" where
  "handle_payload exec net p db c =
     (case Err p of
        Some e \<Rightarrow>
          if is_closed_err e then Stop ClientClosed db c
          else
            (case Connection_Write net (ToBytes (MakeErrReply (Error_string e))) c of
               Inl panic \<Rightarrow> Stop (Crashed panic) db c
             | Inr (ok, c) \<Rightarrow> if ok then GoOn db c else Stop WriteFailed db c)
      | None \<Rightarrow>
          (case Data p of
             None \<Rightarrow> GoOn db c
           | Some (MultiBulkReply as) \<Rightarrow> execute exec net as db c
           | Some (StatusReply status) \<Rightarrow> execute exec net [status] db c
           | Some (IntReply n) \<Rightarrow>
               (case Connection_Write net (ToBytes (MakeErrReply ''ERR unexpected integer from client'')) c of
                  Inl panic \<Rightarrow> Stop (Crashed panic) db c
                | Inr (ok, c) \<Rightarrow> GoOn db c)
           | Some _ \<Rightarrow> GoOn db c))"

fun handle_payloads ::
  "'db db_exec \<Rightarrow> write_fault \<Rightarrow> payload list \<Rightarrow> parse_end \<Rightarrow> 'db \<Rightarrow> Connection \<Rightarrow>
     conn_end \<times> 'db \<times> Connection" where
  "handle_payloads exec net [] fin db c =
     ((case fin of Closed \<Rightarrow> ChannelClosed | Abandoned p \<Rightarrow> Blocked), db, c)"
| "handle_payloads exec net (p # ps) fin db c =
     (case handle_payload exec net p db c of
        GoOn db c \<Rightarrow> handle_payloads exec net ps fin db c
      | Stop e db c \<Rightarrow> (e, db, c))"

text \<open>
  The handler: the clients being served, the database, and whether it is closing.
\<close>

record 'db RespHandler =
  activeConn :: "nat set"
  handler_db :: 'db
  closing :: bool

definition closeClient :: "nat \<Rightarrow> 'db RespHandler \<Rightarrow> 'db RespHandler" where
  "closeClient client r = r\<lparr>activeConn := activeConn r - {client}\<rparr>"

definition serve_stream ::
  "'db db_exec \<Rightarrow> write_fault \<Rightarrow> reader \<Rightarrow> 'db \<Rightarrow> Connection \<Rightarrow> conn_end \<times> 'db \<times> Connection" where
  "serve_stream exec net rd db c =
     (case ParseStream rd of (ch, fin) \<Rightarrow> handle_payloads exec net ch fin db c)"

definition Handler_Handler ::
  "'db db_exec \<Rightarrow> write_fault \<Rightarrow> nat \<Rightarrow> reader \<Rightarrow> 'db RespHandler \<Rightarrow>
     conn_end \<times> Connection \<times> 'db RespHandler" where
  "Handler_Handler exec net client rd r =
     (let c = NewConnection \<lparr>written = [], writes = 0\<rparr> in
      if closing r then (Refused, c, r)
      else
        let r = r\<lparr>activeConn := insert client (activeConn r)\<rparr> in
        case serve_stream exec net rd (handler_db r) c of
          (e, db, c) \<Rightarrow>
            (let r = r\<lparr>handler_db := db\<rparr>
             in (e, c, if e \<in> {ClientClosed, WriteFailed} then closeClient client r else r)))"

text \<open>
  \<^verbatim>\<open>Close\<close> closes the sockets of the clients being served, each when its pending reply is written
  or after ten seconds; the result has their numbers.  It does not set \<^verbatim>\<open>closing\<close>, and closing a
  database does nothing; \<open>Startup.Alone_Close\<close> adds the database that is a nil pointer.
\<close>

definition RespHandler_Close :: "'db RespHandler \<Rightarrow> nat set \<times> 'db RespHandler" where
  "RespHandler_Close r = (activeConn r, r)"

definition uses_cluster :: "ServerProperties \<Rightarrow> bool" where
  "uses_cluster cfg \<longleftrightarrow> Self cfg \<noteq> [] \<and> length (Peers cfg) > 0"

section \<open>Serving commands\<close>

text \<open>The replies of commands executed one after the other.\<close>

fun replies_of :: "'db db_exec \<Rightarrow> CmdLine list \<Rightarrow> 'db \<Rightarrow> Connection \<Rightarrow> reply option list" where
  "replies_of exec [] db c = []"
| "replies_of exec (as # cmds) db c =
     (case exec db c as of (r, db, c) \<Rightarrow> r # replies_of exec cmds db c)"

lemma reply_bytes_nonempty: "(\<exists>x. r = Some x \<and> x \<noteq> NoReply) \<Longrightarrow> reply_bytes r \<noteq> []"
  by (auto simp: reply_bytes_def ToBytes_empty_iff)

definition sent_bytes :: "Connection \<Rightarrow> bytes" where
  "sent_bytes c = (case conn c of None \<Rightarrow> [] | Some s \<Rightarrow> written s)"

text \<open>
  What the handler relies on beside the database's own laws: a database sees only the
  selected number of a client.
\<close>

locale stable_client = stable_database exec inv conn_ok
  for exec :: "'db db_exec" and inv :: "'db \<Rightarrow> bool" and conn_ok :: "'db \<Rightarrow> Connection \<Rightarrow> bool" +
  assumes conn_ok_frame: "conn_ok db c \<Longrightarrow> selectedDB c2 = selectedDB c \<Longrightarrow> conn_ok db c2"
begin

text \<open>No stream of bytes and no write error can crash the handler.\<close>

lemma handle_payload_safe:
  assumes "inv db" and "conn_ok db c" and "payload_ok p" and "conn c \<noteq> None"
  shows "case handle_payload exec net p db c of
      GoOn db' c' \<Rightarrow> inv db' \<and> conn_ok db' c' \<and> conn c' \<noteq> None
    | Stop e db' c' \<Rightarrow> inv db' \<and> conn_ok db' c' \<and> conn c' \<noteq> None \<and> e \<in> {ClientClosed, WriteFailed}"
proof -
  have sends: "\<exists>ok c2. Connection_Write net bs c' = Inr (ok, c2) \<and> conn_ok db' c2 \<and> conn c2 \<noteq> None"
    if "conn_ok db' c'" "conn c' \<noteq> None" for bs db' c'
  proof -
    from that(2) obtain ok c2 where w: "Connection_Write net bs c' = Inr (ok, c2)"
      using Connection_Write_total by blast
    from Connection_Write_frame [OF w] conn_ok_frame [OF that(1)] that(2) w show ?thesis by auto
  qed
  have run: "case execute exec net as db c of
      GoOn db' c' \<Rightarrow> inv db' \<and> conn_ok db' c' \<and> conn c' \<noteq> None | Stop e db' c' \<Rightarrow> False" if "as \<noteq> []" for as
  proof -
    obtain r db1 c1 where e: "exec db c as = (r, db1, c1)" by (cases "exec db c as")
    from exec_keeps [OF assms(1,2) that e] assms(4) have "inv db1" "conn_ok db1 c1" "conn c1 \<noteq> None" by auto
    with sends [of db1 c1 "reply_bytes r"] e show ?thesis by (auto simp: execute_def)
  qed
  show ?thesis
  proof (cases "Err p")
    case (Some e)
    then show ?thesis
      using assms(1,2,4) sends [OF assms(2,4), of "ToBytes (MakeErrReply (Error_string e))"]
      by (auto simp: handle_payload_def)
  next
    case None
    show ?thesis
    proof (cases "Data p")
      case None
      then show ?thesis using \<open>Err p = None\<close> assms by (simp add: handle_payload_def)
    next
      case (Some r)
      note some = Some
      show ?thesis
      proof (cases r)
        case (MultiBulkReply as)
        then have "as \<noteq> []" using assms(3) Some by (simp add: payload_ok_def)
        from run [OF this] MultiBulkReply Some \<open>Err p = None\<close> show ?thesis
          by (auto simp: handle_payload_def split: served.splits)
      next
        case (StatusReply t)
        from run [of "[t]"] StatusReply Some \<open>Err p = None\<close> show ?thesis
          by (auto simp: handle_payload_def split: served.splits)
      next
        case (IntReply n)
        then show ?thesis
          using Some \<open>Err p = None\<close> assms(1)
            sends [OF assms(2,4), of "ToBytes (MakeErrReply ''ERR unexpected integer from client'')"]
          by (auto simp: handle_payload_def)
      qed (use Some \<open>Err p = None\<close> assms in \<open>simp_all add: handle_payload_def\<close>)
    qed
  qed
qed

lemma handle_payloads_safe:
  "inv db \<Longrightarrow> conn_ok db c \<Longrightarrow> conn c \<noteq> None \<Longrightarrow> list_all payload_ok ps \<Longrightarrow>
   handle_payloads exec net ps fin db c = (e, db', c') \<Longrightarrow>
   inv db' \<and> conn_ok db' c' \<and> conn c' \<noteq> None \<and>
   e \<in> {ClientClosed, WriteFailed, ChannelClosed, Blocked} \<and> (e = Blocked \<longrightarrow> (\<exists>p. fin = Abandoned p))"
proof (induction ps arbitrary: db c)
  case Nil
  then show ?case by (auto split: parse_end.splits)
next
  case (Cons p ps)
  from handle_payload_safe [OF Cons.prems(1,2) _ Cons.prems(3), of p net] Cons.prems(4)
  show ?case using Cons.IH Cons.prems(4,5) by (auto split: served.splits)
qed

end

locale client_database = stable_client exec inv conn_ok + database_interface exec inv conn_ok
  for exec :: "'db db_exec" and inv :: "'db \<Rightarrow> bool" and conn_ok :: "'db \<Rightarrow> Connection \<Rightarrow> bool" +
  assumes exec_frame: "selectedDB c2 = selectedDB c \<Longrightarrow> exec db c as = (r, db', c') \<Longrightarrow>
      \<exists>c2'. exec db c2 as = (r, db', c2') \<and> selectedDB c2' = selectedDB c' \<and> conn c2' = conn c2"
begin

text \<open>One command on a network that does not fail: its reply is appended to the output.\<close>

lemma execute_ok:
  assumes "inv db" and "conn_ok db c" and "as \<noteq> []" and "conn c = Some s" and "\<forall>n. net n = None"
    and e: "exec db c as = (r, db', c')"
  shows "\<exists>c2. execute exec net as db c = GoOn db' c2 \<and> inv db' \<and> conn_ok db' c2 \<and>
    selectedDB c2 = selectedDB c' \<and> reply_bytes r \<noteq> [] \<and>
    conn c2 = Some \<lparr>written = written s @ reply_bytes r, writes = writes s + 1\<rparr>"
proof -
  from exec_answers [OF assms(1-3) e] have r: "\<exists>x. r = Some x \<and> x \<noteq> NoReply" and ok: "inv db'" "conn_ok db' c'"
    and conn: "conn c' = Some s" using assms(4) by auto
  let ?c2 = "c'\<lparr>conn := Some \<lparr>written = written s @ reply_bytes r, writes = writes s + 1\<rparr>\<rparr>"
  have "Connection_Write net (reply_bytes r) c' = Inr (True, ?c2)"
    using Connection_Write_ok [of c' s net "reply_bytes r"] conn assms(5) reply_bytes_nonempty [OF r] by simp
  moreover have "conn_ok db' ?c2" by (rule conn_ok_frame [OF ok(2)]) simp
  ultimately show ?thesis using e ok(1) reply_bytes_nonempty [OF r] by (simp add: execute_def)
qed

lemma handle_commands:
  assumes net: "\<forall>n. net n = None"
  shows "inv db \<Longrightarrow> conn_ok db c \<Longrightarrow> [] \<notin> set cmds \<Longrightarrow> conn c = Some s \<Longrightarrow> selectedDB c0 = selectedDB c \<Longrightarrow>
    \<exists>c2. handle_payloads exec net (map command_payload cmds @ ps) fin db c =
        handle_payloads exec net ps fin (fst (exec_all exec cmds db c0)) c2 \<and>
      conn c2 = Some \<lparr>written = written s @ concat (map reply_bytes (replies_of exec cmds db c0)),
                      writes = writes s + length cmds\<rparr> \<and>
      selectedDB c2 = selectedDB (snd (exec_all exec cmds db c0))"
proof (induction cmds arbitrary: db c c0 s)
  case Nil
  then show ?case by (cases s) auto
next
  case (Cons as cmds)
  have ne: "as \<noteq> []" using Cons.prems(3) by auto
  obtain r db1 c1 where e0: "exec db c0 as = (r, db1, c1)" by (cases "exec db c0 as")
  from exec_frame [OF _ e0, of c] Cons.prems(5) obtain c1' where
    e: "exec db c as = (r, db1, c1')" "selectedDB c1' = selectedDB c1" by auto
  from execute_ok [OF Cons.prems(1,2) ne Cons.prems(4) net e(1)] e(2) obtain c2 where
    x: "execute exec net as db c = GoOn db1 c2" "inv db1" "conn_ok db1 c2" "selectedDB c1 = selectedDB c2"
      "conn c2 = Some \<lparr>written = written s @ reply_bytes r, writes = writes s + 1\<rparr>" by auto
  from Cons.IH [OF x(2,3) _ x(5,4)] Cons.prems(3) e0 x(1) show ?case
    by (simp add: handle_payload_def command_payload_def)
qed

text \<open>A connection that sends clean commands and closes gets their replies, in order.\<close>

lemma serve_commands:
  assumes "inv db" and "conn_ok db c" and "\<forall>cmd \<in> set cmds. clean_cmd cmd" and "conn c = Some s"
    and "\<forall>n. net n = None"
  shows "\<exists>c2. serve_stream exec net \<lparr>unread = log_bytes cmds, read_err = EOF\<rparr> db c =
      (ClientClosed, fst (exec_all exec cmds db c), c2) \<and>
    sent_bytes c2 = sent_bytes c @ concat (map reply_bytes (replies_of exec cmds db c))"
proof -
  have "[] \<notin> set cmds" using assms(3) by (auto simp: clean_cmd_def)
  note h = handle_commands [OF assms(5,1,2) this assms(4) refl, of "[\<lparr>Data = None, Err = Some EOF\<rparr>]" Closed]
  have "ParseStream \<lparr>unread = log_bytes cmds, read_err = EOF\<rparr> =
      (map command_payload cmds @ [\<lparr>Data = None, Err = Some EOF\<rparr>], Closed)"
    using parse_commands [OF assms(3), of "[]" EOF] by (simp add: ParseStream_def parse0_def log_bytes_def)
  with h assms(4) show ?thesis
    by (auto simp: serve_stream_def handle_payload_def is_closed_err_def sent_bytes_def)
qed

end

section \<open>The standalone server behind the handler\<close>

lemma Exec_sees_selection:
  assumes "selectedDB c2 = selectedDB c" and "Exec env d c as = (r, d', c')"
  shows "\<exists>c2'. Exec env d c2 as = (r, d', c2') \<and> selectedDB c2' = selectedDB c' \<and> conn c2' = conn c2"
proof (cases as)
  case Nil
  with assms show ?thesis by (auto simp: Exec_def)
next
  case (Cons name rest)
  show ?thesis
  proof (cases "ToLower (fst env) name = ''select''")
    case True
    have "execSelect c2 d rest = (case execSelect c d rest of Inl p \<Rightarrow> Inl p
        | Inr (r, c1) \<Rightarrow> Inr (r, c2\<lparr>selectedDB := selectedDB c1\<rparr>))"
      using assms(1) by (cases rest; cases "Atoi (hd rest)") (auto simp: execSelect_def SelectDB_def)
    with True Cons assms show ?thesis by (auto simp: Exec_def split: sum.splits prod.splits if_splits)
  next
    case False
    have "run_command env d c2 as = (case run_command env d c as of (r, d', c') \<Rightarrow> (r, d', c2))"
      using assms(1) by (auto simp: run_command_def GetDBIndex_def Let_def split: sum.splits prod.splits)
    moreover have "c' = c" if "run_command env d c as = (r, d', c')"
      using that by (auto simp: run_command_def Let_def split: sum.splits prod.splits)
    ultimately show ?thesis using False Cons assms by (auto simp: Exec_def)
  qed
qed

interpretation standalone_client: client_database "Exec env" sa_inv sa_conn_ok for env
proof unfold_locales
  show "sa_conn_ok d c \<Longrightarrow> selectedDB c2 = selectedDB c \<Longrightarrow> sa_conn_ok d c2" for d c c2
    by (simp add: sa_conn_ok_def)
  show "selectedDB c2 = selectedDB c \<Longrightarrow> Exec env d c as = (r, d', c') \<Longrightarrow>
      \<exists>c2'. Exec env d c2 as = (r, d', c2') \<and> selectedDB c2' = selectedDB c' \<and> conn c2' = conn c2"
    for c2 c d as r d' c'
    by (rule Exec_sees_selection)
qed

lemma empty_server_dbs [simp]:
  "length (dbSet (empty_server n)) = n" "dbSet (empty_server n) = [] \<longleftrightarrow> n = 0"
  by (simp_all add: empty_server_def fresh_dbs_def)

abbreviation new_client :: Connection where
  "new_client \<equiv> NewConnection \<lparr>written = [], writes = 0\<rparr>"

lemma new_client_simps [simp]:
  "conn new_client = Some \<lparr>written = [], writes = 0\<rparr>" "selectedDB new_client = 0" "sent_bytes new_client = []"
  by (simp_all add: NewConnection_def sent_bytes_def)

lemma Handler_Handler_stream:
  assumes "\<not> closing r" and "serve_stream exec net rd (handler_db r) new_client = (e, db, c)"
  shows "Handler_Handler exec net client rd r =
    (e, c, if e \<in> {ClientClosed, WriteFailed}
           then r\<lparr>activeConn := activeConn r - {client}, handler_db := db\<rparr>
           else r\<lparr>activeConn := insert client (activeConn r), handler_db := db\<rparr>)"
  using assms by (simp add: Handler_Handler_def closeClient_def Let_def)

text \<open>A command other than SELECT is one step on the client's store.\<close>

lemma Exec_on_store:
  assumes "sa_inv d" and "sa_conn_ok d c" and "as \<noteq> []" and "ToLower u (hd as) \<noteq> ''select''"
  obtains r d' s where "Exec (u, cfg, disk) d c as = (Some r, d', c)"
    "redis_step (sa_abs d (nat (selectedDB c))) (ToLower u (hd as)) (tl as) r s"
    "sa_abs d' = (sa_abs d)(nat (selectedDB c) := s)"
proof (rule Exec_command [OF assms, of cfg disk])
  fix r db' h
  have i: "nat (selectedDB c) < length (dbSet d)" using assms(2) by (simp add: sa_conn_ok_def nat_less_iff)
  assume "Exec (u, cfg, disk) d c as = (Some r, d\<lparr>dbSet := (dbSet d)[nat (selectedDB c) := db'], aofHandler := h\<rparr>, c)"
    and "redis_step (db_abs (dbSet d ! nat (selectedDB c))) (ToLower u (hd as)) (tl as) r (db_abs db')"
  with i that show thesis by (simp add: sa_abs_update) (simp add: sa_abs_def)
qed

lemma Exec_get:
  assumes "sa_inv d" and "sa_conn_ok d c"
  shows "\<exists>d'. Exec (u, cfg, disk) d c [''get'', k] =
      (Some (case sa_abs d (nat (selectedDB c)) k of Some v \<Rightarrow> BulkReply v | None \<Rightarrow> NullBulkReply), d', c) \<and>
    sa_abs d' = sa_abs d"
  by (rule Exec_on_store [OF assms, of "[''get'', k]" u cfg disk]) (auto dest!: redis_step_get)

lemma Exec_put:
  assumes "sa_inv d" and "sa_conn_ok d c"
  shows "\<exists>d'. Exec (u, cfg, disk) d c [''set'', k, v] = (Some OkReply, d', c) \<and>
    sa_abs d' = (sa_abs d)(nat (selectedDB c) := (sa_abs d (nat (selectedDB c)))(k \<mapsto> v))"
  by (rule Exec_on_store [OF assms, of "[''set'', k, v]" u cfg disk]) (auto dest!: redis_step_set)

text \<open>An empty line blocks the handler, whatever the database.\<close>

lemma blank_line_blocked:
  assumes "\<not> closing r"
  shows "Handler_Handler exec net client \<lparr>unread = CRLF @ rest, read_err = e\<rparr> r =
    (Blocked, new_client, r\<lparr>activeConn := insert client (activeConn r)\<rparr>)"
proof -
  have "bulkLen init_state = 0" by (simp add: init_state_def)
  then have "parse_iter \<lparr>unread = CRLF @ rest, read_err = e\<rparr> init_state = Inl IndexOutOfRange"
    by (subst parse_iter_panic_iff) simp_all
  from parse_loop_panic [OF this]
  have "ParseStream \<lparr>unread = CRLF @ rest, read_err = e\<rparr> = ([], Abandoned IndexOutOfRange)"
    by (simp add: ParseStream_def parse0_def)
  then have "serve_stream exec net \<lparr>unread = CRLF @ rest, read_err = e\<rparr> (handler_db r) new_client =
      (Blocked, handler_db r, new_client)" by (simp add: serve_stream_def)
  from Handler_Handler_stream [OF assms this, of client] show ?thesis by simp
qed

section \<open>Properties\<close>

text \<open>
  C11 (pipeline_served_in_order). A client that sends any number of clean commands, in one write or many, and closes,
  is sent exactly the replies of those commands executed one after the other, in order, and
  the server keeps the database they leave and forgets the client.
\<close>

theorem pipeline_served_in_order:
  assumes "\<not> closing r" and "sa_inv (handler_db r)" and "0 < length (dbSet (handler_db r))"
    and "\<forall>cmd \<in> set cmds. clean_cmd cmd" and "\<forall>n. net n = None"
  shows "\<exists>c. Handler_Handler (Exec env) net client \<lparr>unread = log_bytes cmds, read_err = EOF\<rparr> r =
      (ClientClosed, c, r\<lparr>activeConn := activeConn r - {client},
         handler_db := fst (exec_all (Exec env) cmds (handler_db r) new_client)\<rparr>) \<and>
    sent_bytes c = concat (map reply_bytes (replies_of (Exec env) cmds (handler_db r) new_client))"
proof -
  have "sa_conn_ok (handler_db r) new_client" using assms(3) by (simp add: sa_conn_ok_def)
  from standalone_client.serve_commands [OF assms(2) this assms(4) _ assms(5), of _ env]
  obtain c where "serve_stream (Exec env) net \<lparr>unread = log_bytes cmds, read_err = EOF\<rparr> (handler_db r) new_client =
      (ClientClosed, fst (exec_all (Exec env) cmds (handler_db r) new_client), c)"
    "sent_bytes c = concat (map reply_bytes (replies_of (Exec env) cmds (handler_db r) new_client))"
    by auto
  with Handler_Handler_stream [OF assms(1)] show ?thesis by auto
qed

theorem pipeline_served_in_order_witness:
  "\<exists>c. Handler_Handler (Exec (\<lambda>n. n, default_properties, \<lambda>n. None)) (\<lambda>n. None) 7
        \<lparr>unread = log_bytes [[''PING''], [''SELECT'', ''1'']], read_err = EOF\<rparr>
        \<lparr>activeConn = {}, handler_db = empty_server 2, closing = False\<rparr> =
      (ClientClosed, c, \<lparr>activeConn = {}, handler_db = empty_server 2, closing = False\<rparr>
         \<lparr>activeConn := activeConn \<lparr>activeConn = {}, handler_db = empty_server 2, closing = False\<rparr> - {7},
          handler_db := fst (exec_all (Exec (\<lambda>n. n, default_properties, \<lambda>n. None)) [[''PING''], [''SELECT'', ''1'']]
            (handler_db \<lparr>activeConn = {}, handler_db = empty_server 2, closing = False\<rparr>) new_client)\<rparr>) \<and>
    sent_bytes c = concat (map reply_bytes (replies_of (Exec (\<lambda>n. n, default_properties, \<lambda>n. None)) [[''PING''], [''SELECT'', ''1'']]
      (handler_db \<lparr>activeConn = {}, handler_db = empty_server 2, closing = False\<rparr>) new_client))"
  by (rule pipeline_served_in_order)
    (simp_all, simp_all add: clean_cmd_def clean_arg_def maxAlloc_def)

text \<open>
  The bytes of SET and GET on one connection are answered with OK and the value as a bulk
  string, whatever the database held.
\<close>

theorem set_then_get_on_the_wire:
  assumes "\<not> closing r" and "sa_inv (handler_db r)" and "0 < length (dbSet (handler_db r))"
    and "clean_arg k" and "clean_arg v" and "\<forall>n. net n = None"
  shows "\<exists>c r'. Handler_Handler (Exec (u, cfg, disk)) net client
      \<lparr>unread = ToBytes (MultiBulkReply [''set'', k, v]) @ ToBytes (MultiBulkReply [''get'', k]), read_err = EOF\<rparr> r =
      (ClientClosed, c, r') \<and>
    sent_bytes c = ''+OK'' @ CRLF @ ''$'' @ Itoa (int (length v)) @ CRLF @ v @ CRLF"
proof -
  let ?cmds = "[[''set'', k, v], [''get'', k]]" and ?d = "handler_db r"
  have ok: "sa_conn_ok ?d new_client" using assms(3) by (simp add: sa_conn_ok_def)
  have clean: "\<forall>cmd \<in> set ?cmds. clean_cmd cmd"
    using assms(4,5) by (simp add: clean_cmd_def clean_arg_def maxAlloc_def)
  obtain d1 where d1: "Exec (u, cfg, disk) ?d new_client [''set'', k, v] = (Some OkReply, d1, new_client)"
      "sa_abs d1 = (sa_abs ?d)(0 := (sa_abs ?d 0)(k \<mapsto> v))"
    using Exec_put [OF assms(2) ok, of u cfg disk k v] by auto
  have "sa_inv d1" "sa_conn_ok d1 new_client" using Exec_keeps [OF assms(2) ok _ d1(1)] by simp_all
  from Exec_get [OF this, of u cfg disk k] obtain d2 c2 where
    d2: "Exec (u, cfg, disk) d1 new_client [''get'', k] = (Some (BulkReply v), d2, c2)"
    using d1(2) by auto
  from standalone_client.serve_commands [OF assms(2) ok clean _ assms(6), of _ "(u, cfg, disk)"]
  obtain c where "serve_stream (Exec (u, cfg, disk)) net \<lparr>unread = log_bytes ?cmds, read_err = EOF\<rparr> ?d new_client =
      (ClientClosed, fst (exec_all (Exec (u, cfg, disk)) ?cmds ?d new_client), c)"
    "sent_bytes c = concat (map reply_bytes (replies_of (Exec (u, cfg, disk)) ?cmds ?d new_client))"
    by auto
  moreover from this d1(1) d2 assms(5)
  have "sent_bytes c = ''+OK'' @ CRLF @ ''$'' @ Itoa (int (length v)) @ CRLF @ v @ CRLF"
    by (simp add: reply_bytes_def okBytes_def BulkReply_ToBytes_def clean_arg_def)
  ultimately show ?thesis
    using Handler_Handler_stream [OF assms(1), of "Exec (u, cfg, disk)" net _ _ _ c client] by auto
qed

theorem set_then_get_on_the_wire_witness:
  "\<exists>c r'. Handler_Handler (Exec (\<lambda>n. n, default_properties\<lparr>AppendOnly := True\<rparr>, \<lambda>n. None)) (\<lambda>n. None) 1
      \<lparr>unread = ToBytes (MultiBulkReply [''set'', ''k'', ''v'']) @ ToBytes (MultiBulkReply [''get'', ''k'']), read_err = EOF\<rparr>
      \<lparr>activeConn = {}, handler_db = started (empty_server 1) [], closing = False\<rparr> = (ClientClosed, c, r') \<and>
    sent_bytes c = ''+OK'' @ CRLF @ ''$'' @ Itoa (int (length ''v'')) @ CRLF @ ''v'' @ CRLF"
proof (rule set_then_get_on_the_wire)
  show "sa_inv (handler_db \<lparr>activeConn = {}, handler_db = started (empty_server 1) [], closing = False\<rparr>)"
    by (simp add: sa_inv_started)
  show "0 < length (dbSet (handler_db \<lparr>activeConn = {}, handler_db = started (empty_server 1) [], closing = False\<rparr>))"
    by simp
qed (simp_all add: clean_arg_def maxAlloc_def)

text \<open>
  C20 (serving_never_crashes). Whatever bytes a client sends, however its stream ends and whichever writes fail, the
  handler does not panic and the database keeps its invariant.  It blocks only when the
  parser has panicked.  The client is left in the set of active connections exactly when the
  handler blocks, or when the channel was closed after an error it could still report.
\<close>

theorem serving_never_crashes:
  assumes "\<not> closing r" and "sa_inv (handler_db r)" and "0 < length (dbSet (handler_db r))"
    and "Handler_Handler (Exec env) net client rd r = (e, c, r')"
  shows "sa_inv (handler_db r') \<and> e \<in> {ClientClosed, WriteFailed, ChannelClosed, Blocked} \<and>
    (e = Blocked \<longrightarrow> (\<exists>p. snd (ParseStream rd) = Abandoned p)) \<and>
    (client \<in> activeConn r' \<longleftrightarrow> e \<in> {ChannelClosed, Blocked})"
proof -
  have ok: "sa_conn_ok (handler_db r) new_client" using assms(3) by (simp add: sa_conn_ok_def)
  obtain ps fin where p: "ParseStream rd = (ps, fin)" by (cases "ParseStream rd")
  then have good: "list_all payload_ok ps"
    using parse_loop_payloads [of init_state rd] by (simp add: ParseStream_def parse0_def list_all_iff)
  obtain e1 db1 c1 where s: "serve_stream (Exec env) net rd (handler_db r) new_client = (e1, db1, c1)"
    by (cases "serve_stream (Exec env) net rd (handler_db r) new_client")
  with p have "handle_payloads (Exec env) net ps fin (handler_db r) new_client = (e1, db1, c1)"
    by (simp add: serve_stream_def)
  from standalone_client.handle_payloads_safe [OF assms(2) ok _ good this]
  have "sa_inv db1" "e1 \<in> {ClientClosed, WriteFailed, ChannelClosed, Blocked}"
    "e1 = Blocked \<longrightarrow> (\<exists>p. fin = Abandoned p)" by auto
  with Handler_Handler_stream [OF assms(1) s, of client] assms(4) p show ?thesis by auto
qed

theorem serving_never_crashes_witness:
  "\<exists>e c r'. Handler_Handler (Exec (\<lambda>n. n, default_properties, \<lambda>n. None)) (\<lambda>n. Some 0) 3
      \<lparr>unread = ''junk'', read_err = EOF\<rparr> \<lparr>activeConn = {}, handler_db = empty_server 1, closing = False\<rparr> = (e, c, r') \<and>
    sa_inv (handler_db r') \<and> e \<in> {ClientClosed, WriteFailed, ChannelClosed, Blocked} \<and>
    (e = Blocked \<longrightarrow> (\<exists>p. snd (ParseStream \<lparr>unread = ''junk'', read_err = EOF\<rparr>) = Abandoned p)) \<and>
    (3 \<in> activeConn r' \<longleftrightarrow> e \<in> {ChannelClosed, Blocked})"
proof -
  let ?r = "\<lparr>activeConn = {}, handler_db = empty_server 1, closing = False\<rparr>"
  obtain e c r' where h: "Handler_Handler (Exec (\<lambda>n. n, default_properties, \<lambda>n. None)) (\<lambda>n. Some 0) 3
      \<lparr>unread = ''junk'', read_err = EOF\<rparr> ?r = (e, c, r')"
    by (cases "Handler_Handler (Exec (\<lambda>n. n, default_properties, \<lambda>n. None)) (\<lambda>n. Some 0) 3
      \<lparr>unread = ''junk'', read_err = EOF\<rparr> ?r")
  have "\<not> closing ?r" "sa_inv (handler_db ?r)" "0 < length (dbSet (handler_db ?r))"
    by simp_all
  from serving_never_crashes [OF this h] h show ?thesis by blast
qed

text \<open>
  A client that sends an empty line is never served again: the parser panics on it,
  the handler waits for ever on a channel nobody closes, without a reply, and the client
  stays in the set of active connections.
\<close>

theorem blank_line_blocks_connection:
  assumes "\<not> closing r"
  shows "Handler_Handler exec net client \<lparr>unread = CRLF @ rest, read_err = e\<rparr> r =
    (Blocked, new_client, r\<lparr>activeConn := insert client (activeConn r)\<rparr>)"
  using assms by (rule blank_line_blocked)

theorem blank_line_blocks_connection_witness:
  "Handler_Handler (Exec (\<lambda>n. n, default_properties, \<lambda>n. None)) (\<lambda>n. None) 4
      \<lparr>unread = CRLF @ ''more'', read_err = EOF\<rparr> \<lparr>activeConn = {}, handler_db = empty_server 1, closing = False\<rparr> =
    (Blocked, new_client, \<lparr>activeConn = {}, handler_db = empty_server 1, closing = False\<rparr>
       \<lparr>activeConn := insert 4 (activeConn \<lparr>activeConn = {}, handler_db = empty_server 1, closing = False\<rparr>)\<rparr>)"
  by (rule blank_line_blocks_connection) simp

end
