(* ===== verification/ConsistentHash.thy ===== *)
theory ConsistentHash
  imports GoLib
begin

text \<open>
  \<^verbatim>\<open>lib/consistenthash/consistenthash.go\<close>: the ring that assigns a key to a node.  The
  default hash is \<^verbatim>\<open>crc32.ChecksumIEEE\<close>, written out bit by bit.

  \<open>ring_inv\<close> is what \<^verbatim>\<open>AddNodes\<close> keeps: the hashes are sorted, every one has a node, and a
  node hashes to where it stands.  The lemmas show that \<^verbatim>\<open>PickNode\<close>, a binary search,
  finds the successor of the key's hash on the ring.
\<close>

section \<open>crc32.ChecksumIEEE\<close>

unbundle bit_operations_syntax

definition crc_bit :: "32 word \<Rightarrow> 32 word" where
  "crc_bit c = (if bit c 0 then drop_bit 1 c XOR 0xEDB88320 else drop_bit 1 c)"

definition crc_byte :: "byte \<Rightarrow> 32 word \<Rightarrow> 32 word" where
  "crc_byte b c = (crc_bit ^^ 8) (c XOR of_char b)"

definition ChecksumIEEE :: "bytes \<Rightarrow> 32 word" where
  "ChecksumIEEE bs = NOT (fold crc_byte bs (NOT 0))"

text \<open>Evaluation by rewriting: eight steps per byte, from the all-ones word.\<close>

lemma funpow_8: "(f ^^ 8) x = f (f (f (f (f (f (f (f x)))))))"
  by (simp add: eval_nat_numeral)

lemma NOT_zero_32: "NOT (0 :: 32 word) = 0xFFFFFFFF"
  by simp

lemmas crc_eval = crc_byte_def funpow_8 crc_bit_def

text \<open>The check value of the published test vector.\<close>

lemma ChecksumIEEE_check: "ChecksumIEEE ''123456789'' = 0xCBF43926"
  unfolding ChecksumIEEE_def NOT_zero_32 by (simp add: crc_eval)

section \<open>The ring\<close>

type_synonym HashFunc = "bytes \<Rightarrow> 32 word"

record NodeMap =
  hashFunc :: HashFunc
  nodeHashs :: "int list"
  nodeHashMap :: "int \<rightharpoonup> string"

definition NewNodeMap :: "HashFunc option \<Rightarrow> NodeMap" where
  "NewNodeMap f =
     \<lparr>hashFunc = (case f of None \<Rightarrow> ChecksumIEEE | Some g \<Rightarrow> g), nodeHashs = [], nodeHashMap = Map.empty\<rparr>"

definition IsEmpty :: "NodeMap \<Rightarrow> bool" where
  "IsEmpty r \<longleftrightarrow> length (nodeHashs r) = 0"

definition AddNode :: "string \<Rightarrow> NodeMap \<Rightarrow> NodeMap" where
  "AddNode key r =
     (if key = [] then r
      else
        let hash = uint (hashFunc r key)
        in r\<lparr>nodeHashs := nodeHashs r @ [hash], nodeHashMap := (nodeHashMap r)(hash \<mapsto> key)\<rparr>)"

definition AddNodes :: "string list \<Rightarrow> NodeMap \<Rightarrow> NodeMap" where
  "AddNodes keys r =
     (let r = fold AddNode keys r in r\<lparr>nodeHashs := sort (nodeHashs r)\<rparr>)"

text \<open>Reading a missing key of a Go map gives the zero value, here the empty string.\<close>

definition PickNode :: "string \<Rightarrow> NodeMap \<Rightarrow> string" where
  "PickNode key r =
     (if IsEmpty r then []
      else
        let hash = uint (hashFunc r key);
            idx = sort_Search (length (nodeHashs r)) (\<lambda>i. nodeHashs r ! i \<ge> hash);
            idx = (if idx = length (nodeHashs r) then 0 else idx)
        in (case nodeHashMap r (nodeHashs r ! idx) of None \<Rightarrow> [] | Some node \<Rightarrow> node))"

section \<open>The invariant\<close>

text \<open>What holds between the appends of \<open>AddNodes\<close>, and with the final sort.\<close>

definition ring_ok :: "NodeMap \<Rightarrow> bool" where
  "ring_ok r \<longleftrightarrow> set (nodeHashs r) = dom (nodeHashMap r) \<and>
     (\<forall>h node. nodeHashMap r h = Some node \<longrightarrow> node \<noteq> [] \<and> uint (hashFunc r node) = h)"

definition ring_inv :: "NodeMap \<Rightarrow> bool" where
  "ring_inv r \<longleftrightarrow> ring_ok r \<and> sorted (nodeHashs r)"

definition nodes_of :: "NodeMap \<Rightarrow> string set" where
  "nodes_of r = ran (nodeHashMap r)"

lemma ring_inv_new: "ring_inv (NewNodeMap f)"
  by (simp add: ring_inv_def ring_ok_def NewNodeMap_def)

lemma AddNode_ok: "ring_ok r \<Longrightarrow> ring_ok (AddNode key r)"
  by (auto simp: ring_ok_def AddNode_def Let_def)

lemma AddNode_hashFunc [simp]: "hashFunc (AddNode key r) = hashFunc r"
  by (simp add: AddNode_def Let_def)

lemma AddNode_map [simp]:
  "nodeHashMap (AddNode key r) =
     (if key = [] then nodeHashMap r else (nodeHashMap r)(uint (hashFunc r key) \<mapsto> key))"
  by (simp add: AddNode_def Let_def)

lemma fold_AddNode_hashFunc [simp]: "hashFunc (fold AddNode keys r) = hashFunc r"
  by (induction keys arbitrary: r) simp_all

lemma fold_AddNode:
  "ring_ok r \<Longrightarrow> ring_ok (fold AddNode keys r)"
  by (induction keys arbitrary: r) (auto simp: AddNode_ok)

lemma AddNodes_inv: "ring_inv r \<Longrightarrow> ring_inv (AddNodes keys r)"
  using fold_AddNode [of r keys] by (simp add: ring_inv_def ring_ok_def AddNodes_def Let_def)

lemma AddNodes_hashFunc [simp]: "hashFunc (AddNodes keys r) = hashFunc r"
  by (simp add: AddNodes_def Let_def)

text \<open>The hash to node map after adding: the last node added at a hash is the one there.\<close>

lemma fold_AddNode_map:
  "nodeHashMap (fold AddNode keys r) h =
     (case filter (\<lambda>key. key \<noteq> [] \<and> uint (hashFunc r key) = h) (rev keys) of
        [] \<Rightarrow> nodeHashMap r h | key # _ \<Rightarrow> Some key)"
proof (induction keys rule: rev_induct)
  case Nil
  then show ?case by simp
next
  case (snoc key keys)
  then show ?case by auto
qed

lemma AddNodes_map:
  "nodeHashMap (AddNodes keys r) h =
     (case filter (\<lambda>key. key \<noteq> [] \<and> uint (hashFunc r key) = h) (rev keys) of
        [] \<Rightarrow> nodeHashMap r h | key # _ \<Rightarrow> Some key)"
  by (simp add: AddNodes_def Let_def fold_AddNode_map)

lemma AddNodes_map_cases:
  assumes "nodeHashMap (AddNodes keys r) h = Some node"
  shows "node \<in> set keys \<and> node \<noteq> [] \<and> uint (hashFunc r node) = h \<or>
    nodeHashMap r h = Some node \<and> (\<forall>key \<in> set keys. key \<noteq> [] \<longrightarrow> uint (hashFunc r key) \<noteq> h)"
proof (cases "filter (\<lambda>key. key \<noteq> [] \<and> uint (hashFunc r key) = h) (rev keys)")
  case Nil
  then show ?thesis using assms by (auto simp: AddNodes_map filter_empty_conv)
next
  case (Cons key rest)
  have "key \<in> set (filter (\<lambda>key. key \<noteq> [] \<and> uint (hashFunc r key) = h) (rev keys))" by (simp only: Cons) simp
  then have "key \<in> set keys \<and> key \<noteq> [] \<and> uint (hashFunc r key) = h" by simp
  moreover have "node = key" using assms Cons by (simp add: AddNodes_map)
  ultimately show ?thesis by blast
qed

section \<open>Successors\<close>

text \<open>The place on the ring that serves a hash: the least one above, or the least of all.\<close>

definition successor :: "int set \<Rightarrow> int \<Rightarrow> int" where
  "successor H h = (if \<exists>x \<in> H. h \<le> x then Min {x \<in> H. h \<le> x} else Min H)"

lemma search_successor:
  assumes "sorted hs" and "hs \<noteq> []"
  shows "hs ! (let i = sort_Search (length hs) (\<lambda>i. hs ! i \<ge> h) in if i = length hs then 0 else i) =
    successor (set hs) h"
proof -
  define i where "i = sort_Search (length hs) (\<lambda>i. hs ! i \<ge> h)"
  have "upward (length hs) (\<lambda>i. hs ! i \<ge> h)"
    using assms(1) by (auto simp: upward_def sorted_iff_nth_mono intro: order_trans)
  from sort_Search_spec [OF this]
  have i: "i \<le> length hs" "\<forall>k < i. hs ! k < h" "\<forall>k. i \<le> k \<longrightarrow> k < length hs \<longrightarrow> h \<le> hs ! k"
    by (auto simp: splits_at_def i_def not_le)
  show ?thesis
  proof (cases "i = length hs")
    case True
    then have "\<not> (\<exists>x \<in> set hs. h \<le> x)" using i(2) by (auto simp: in_set_conv_nth not_le)
    moreover have "Min (set hs) = hs ! 0"
      using assms by (intro Min_eqI) (auto simp: in_set_conv_nth sorted_iff_nth_mono)
    ultimately show ?thesis using True by (simp add: successor_def i_def [symmetric] Let_def)
  next
    case False
    then have lt: "i < length hs" using i(1) by simp
    then have hi: "hs ! i \<in> {x \<in> set hs. h \<le> x}" using i(3) by auto
    have "Min {x \<in> set hs. h \<le> x} = hs ! i"
    proof (rule Min_eqI)
      fix y assume "y \<in> {x \<in> set hs. h \<le> x}"
      then obtain k where k: "k < length hs" "y = hs ! k" "h \<le> hs ! k" by (auto simp: in_set_conv_nth)
      then have "i \<le> k" using i(2) by (metis not_le)
      with k assms(1) show "hs ! i \<le> y" by (auto simp: sorted_iff_nth_mono)
    qed (use hi in auto)
    with hi False show ?thesis by (auto simp: successor_def i_def [symmetric] Let_def)
  qed
qed

lemma PickNode_successor:
  assumes "ring_inv r" and "\<not> IsEmpty r"
  shows "nodeHashMap r (successor (dom (nodeHashMap r)) (uint (hashFunc r key))) = Some (PickNode key r)"
proof -
  have "nodeHashs r \<noteq> []" "sorted (nodeHashs r)" "set (nodeHashs r) = dom (nodeHashMap r)"
    using assms by (auto simp: ring_inv_def ring_ok_def IsEmpty_def)
  note s = search_successor [OF this(2,1), of "uint (hashFunc r key)"]
  let ?i = "sort_Search (length (nodeHashs r)) (\<lambda>i. nodeHashs r ! i \<ge> uint (hashFunc r key))"
  have "?i \<le> length (nodeHashs r)" by (rule sort_Search_le)
  then have "(if ?i = length (nodeHashs r) then 0 else ?i) < length (nodeHashs r)"
    using \<open>nodeHashs r \<noteq> []\<close> by auto
  then have "nodeHashs r ! (if ?i = length (nodeHashs r) then 0 else ?i) \<in> dom (nodeHashMap r)"
    using \<open>set (nodeHashs r) = dom (nodeHashMap r)\<close> nth_mem by blast
  with s assms(2) \<open>set (nodeHashs r) = dom (nodeHashMap r)\<close> show ?thesis
    by (auto simp: PickNode_def Let_def)
qed

section \<open>Growing and reordering\<close>

lemma successor_mem:
  assumes "finite H" and "H \<noteq> {}"
  shows "successor H h \<in> H"
proof (cases "\<exists>x \<in> H. h \<le> x")
  case True
  then have "Min {x \<in> H. h \<le> x} \<in> {x \<in> H. h \<le> x}" using assms(1) by (intro Min_in) auto
  with True show ?thesis by (simp add: successor_def)
next
  case False
  with assms show ?thesis by (simp add: successor_def)
qed

text \<open>Growing the ring moves a successor only to a new place.\<close>

lemma successor_grow:
  assumes "finite A" and "finite B" and "A \<noteq> {}"
  shows "successor (A \<union> B) h \<in> B \<or> successor (A \<union> B) h = successor A h"
proof (cases "\<exists>x \<in> A \<union> B. h \<le> x")
  case True
  define s where "s = Min {x \<in> A \<union> B. h \<le> x}"
  have s: "s \<in> {x \<in> A \<union> B. h \<le> x}" using True assms(1,2) unfolding s_def by (intro Min_in) auto
  have eq: "successor (A \<union> B) h = s" using True by (simp add: successor_def s_def)
  show ?thesis
  proof (cases "s \<in> B")
    case False
    with s have "s \<in> A" "h \<le> s" by auto
    moreover have "Min {x \<in> A. h \<le> x} = s"
      using \<open>s \<in> A\<close> \<open>h \<le> s\<close> assms(1,2) by (intro Min_eqI) (auto simp: s_def intro: Min_le)
    ultimately show ?thesis using eq by (auto simp: successor_def)
  qed (simp add: eq)
next
  case False
  define s where "s = Min (A \<union> B)"
  have s: "s \<in> A \<union> B" using assms unfolding s_def by (intro Min_in) auto
  have eq: "successor (A \<union> B) h = s" using False by (simp add: successor_def s_def)
  show ?thesis
  proof (cases "s \<in> B")
    case False
    with s have "s \<in> A" by auto
    then have "Min A = s" using assms by (intro Min_eqI) (auto simp: s_def intro: Min_le)
    then show ?thesis using eq \<open>\<not> (\<exists>x \<in> A \<union> B. h \<le> x)\<close> by (auto simp: successor_def)
  qed (simp add: eq)
qed

lemma ring_finite: "ring_inv r \<Longrightarrow> finite (dom (nodeHashMap r))"
  unfolding ring_inv_def ring_ok_def using List.finite_set [of "nodeHashs r"] by simp

lemma IsEmpty_iff: "ring_inv r \<Longrightarrow> IsEmpty r \<longleftrightarrow> dom (nodeHashMap r) = {}"
proof -
  assume "ring_inv r"
  then have "set (nodeHashs r) = dom (nodeHashMap r)" by (simp add: ring_inv_def ring_ok_def)
  then have "nodeHashs r = [] \<longleftrightarrow> dom (nodeHashMap r) = {}" by (metis set_empty)
  then show ?thesis by (simp add: IsEmpty_def)
qed

lemma AddNodes_dom:
  "dom (nodeHashMap (AddNodes keys r)) =
     dom (nodeHashMap r) \<union> (\<lambda>key. uint (hashFunc r key)) ` {key \<in> set keys. key \<noteq> []}"
proof -
  have mem: "h \<in> dom (nodeHashMap (AddNodes keys r)) \<longleftrightarrow>
      h \<in> dom (nodeHashMap r) \<or> (\<exists>key \<in> set keys. key \<noteq> [] \<and> uint (hashFunc r key) = h)" for h
  proof (cases "filter (\<lambda>key. key \<noteq> [] \<and> uint (hashFunc r key) = h) (rev keys)")
    case Nil
    then show ?thesis by (auto simp: AddNodes_map filter_empty_conv domIff)
  next
    case (Cons k rest)
    have "k \<in> set (filter (\<lambda>key. key \<noteq> [] \<and> uint (hashFunc r key) = h) (rev keys))"
      by (simp only: Cons) simp
    then have "k \<in> set keys \<and> k \<noteq> [] \<and> uint (hashFunc r k) = h" by simp
    moreover have "h \<in> dom (nodeHashMap (AddNodes keys r))" using Cons by (simp add: AddNodes_map domIff)
    ultimately show ?thesis by blast
  qed
  show ?thesis by (rule set_eqI, simp only: mem Un_iff image_iff mem_Collect_eq) blast
qed

text \<open>The order in which nodes are added does not matter when their hashes differ.\<close>

lemma PickNode_order:
  assumes "set ns = set ms" and "inj_on (hashFunc (NewNodeMap f)) (set ns)"
  shows "PickNode key (AddNodes ns (NewNodeMap f)) = PickNode key (AddNodes ms (NewNodeMap f))"
proof -
  let ?r = "NewNodeMap f" let ?n = "AddNodes ns ?r" and ?m = "AddNodes ms ?r"
  have inv: "ring_inv ?n" "ring_inv ?m" by (intro AddNodes_inv ring_inv_new)+
  have dom: "dom (nodeHashMap ?n) = dom (nodeHashMap ?m)" using assms(1) by (simp add: AddNodes_dom)
  show ?thesis
  proof (cases "IsEmpty ?n")
    case True
    then have "IsEmpty ?m" using IsEmpty_iff inv dom by simp
    with True show ?thesis by (simp add: PickNode_def)
  next
    case False
    then have ne: "\<not> IsEmpty ?m" using IsEmpty_iff inv dom by simp
    define h where "h = successor (dom (nodeHashMap ?n)) (uint (hashFunc ?r key))"
    have a: "nodeHashMap ?n h = Some (PickNode key ?n)" "nodeHashMap ?m h = Some (PickNode key ?m)"
      using PickNode_successor [OF inv(1) False, of key] PickNode_successor [OF inv(2) ne, of key] dom
      by (simp_all add: h_def)
    have "nodeHashMap ?r h = None" by (simp add: NewNodeMap_def)
    with AddNodes_map_cases [OF a(1)] AddNodes_map_cases [OF a(2)]
    have "PickNode key ?n \<in> set ns" "PickNode key ?m \<in> set ms"
      "uint (hashFunc ?r (PickNode key ?n)) = uint (hashFunc ?r (PickNode key ?m))" by auto
    then show ?thesis using assms by (metis inj_onD word_uint_eqI)
  qed
qed

text \<open>A ring of named nodes gives every key to one of them.\<close>

lemma PickNode_mem:
  assumes "ns \<noteq> []" and "[] \<notin> set ns"
  shows "PickNode key (AddNodes ns (NewNodeMap f)) \<in> set ns"
proof -
  let ?r = "AddNodes ns (NewNodeMap f)"
  have inv: "ring_inv ?r" by (intro AddNodes_inv ring_inv_new)
  have "\<not> IsEmpty ?r" using IsEmpty_iff [OF inv] assms by (cases ns) (auto simp: AddNodes_dom)
  from AddNodes_map_cases [OF PickNode_successor [OF inv this, of key]] show ?thesis
    by (auto simp: NewNodeMap_def)
qed

section \<open>Properties\<close>

text \<open>
  C13 (pick_is_successor). On a non-empty ring the binary search finds the node at the successor of the key's
  hash: the least node hash that is not smaller, or the least of all when there is none.  The
  node is one that was added and hashes to that place.
\<close>

theorem pick_is_successor:
  assumes "ring_inv r" and "\<not> IsEmpty r"
  shows "nodeHashMap r (successor (dom (nodeHashMap r)) (uint (hashFunc r key))) = Some (PickNode key r) \<and>
    PickNode key r \<noteq> [] \<and>
    uint (hashFunc r (PickNode key r)) = successor (dom (nodeHashMap r)) (uint (hashFunc r key))"
  using PickNode_successor [OF assms, of key] assms(1) by (simp add: ring_inv_def ring_ok_def)

theorem pick_is_successor_witness:
  "nodeHashMap (AddNodes [''b'', ''a''] (NewNodeMap (Some (\<lambda>s. of_char (hd s)))))
     (successor (dom (nodeHashMap (AddNodes [''b'', ''a''] (NewNodeMap (Some (\<lambda>s. of_char (hd s)))))))
        (uint (hashFunc (AddNodes [''b'', ''a''] (NewNodeMap (Some (\<lambda>s. of_char (hd s))))) ''k''))) =
     Some (PickNode ''k'' (AddNodes [''b'', ''a''] (NewNodeMap (Some (\<lambda>s. of_char (hd s)))))) \<and>
   PickNode ''k'' (AddNodes [''b'', ''a''] (NewNodeMap (Some (\<lambda>s. of_char (hd s))))) \<noteq> [] \<and>
   uint (hashFunc (AddNodes [''b'', ''a''] (NewNodeMap (Some (\<lambda>s. of_char (hd s)))))
       (PickNode ''k'' (AddNodes [''b'', ''a''] (NewNodeMap (Some (\<lambda>s. of_char (hd s))))))) =
     successor (dom (nodeHashMap (AddNodes [''b'', ''a''] (NewNodeMap (Some (\<lambda>s. of_char (hd s)))))))
       (uint (hashFunc (AddNodes [''b'', ''a''] (NewNodeMap (Some (\<lambda>s. of_char (hd s))))) ''k''))"
proof (rule pick_is_successor)
  show "ring_inv (AddNodes [''b'', ''a''] (NewNodeMap (Some (\<lambda>s. of_char (hd s)))))"
    by (intro AddNodes_inv ring_inv_new)
  show "\<not> IsEmpty (AddNodes [''b'', ''a''] (NewNodeMap (Some (\<lambda>s. of_char (hd s)))))"
    by (simp add: IsEmpty_def AddNodes_def AddNode_def NewNodeMap_def)
qed

text \<open>
  C29 (new_nodes_take_keys_only). Adding nodes to a ring moves a key to one of the new nodes or not at all; it never
  moves between the old ones.
\<close>

theorem new_nodes_take_keys_only:
  assumes "ring_inv r" and "\<not> IsEmpty r"
  shows "PickNode key (AddNodes ns r) \<in> set ns \<or> PickNode key (AddNodes ns r) = PickNode key r"
proof -
  let ?r = "AddNodes ns r" and ?h = "uint (hashFunc r key)"
  let ?B = "(\<lambda>n. uint (hashFunc r n)) ` {n \<in> set ns. n \<noteq> []}"
  have inv: "ring_inv ?r" by (rule AddNodes_inv [OF assms(1)])
  have ne: "dom (nodeHashMap r) \<noteq> {}" using assms IsEmpty_iff by blast
  then have "\<not> IsEmpty ?r" using IsEmpty_iff [OF inv] by (auto simp: AddNodes_dom)
  from PickNode_successor [OF inv this, of key]
  have new: "nodeHashMap ?r (successor (dom (nodeHashMap r) \<union> ?B) ?h) = Some (PickNode key ?r)"
    by (simp add: AddNodes_dom)
  from AddNodes_map_cases [OF this] show ?thesis
  proof (elim disjE conjE)
    assume stays: "nodeHashMap r (successor (dom (nodeHashMap r) \<union> ?B) ?h) = Some (PickNode key ?r)"
      and "\<forall>n \<in> set ns. n \<noteq> [] \<longrightarrow> uint (hashFunc r n) \<noteq> successor (dom (nodeHashMap r) \<union> ?B) ?h"
    then have "successor (dom (nodeHashMap r) \<union> ?B) ?h \<notin> ?B" by auto
    then have "successor (dom (nodeHashMap r) \<union> ?B) ?h = successor (dom (nodeHashMap r)) ?h"
      using successor_grow [OF ring_finite [OF assms(1)] _ ne, of ?B ?h] by auto
    then show ?thesis using PickNode_successor [OF assms, of key] stays by simp
  qed simp
qed

theorem new_nodes_take_keys_only_witness:
  "PickNode ''k'' (AddNodes [''c''] (AddNodes [''a''] (NewNodeMap None))) \<in> set [''c''] \<or>
   PickNode ''k'' (AddNodes [''c''] (AddNodes [''a''] (NewNodeMap None))) = PickNode ''k'' (AddNodes [''a''] (NewNodeMap None))"
  by (rule new_nodes_take_keys_only)
    (intro AddNodes_inv ring_inv_new, simp add: IsEmpty_def AddNodes_def AddNode_def NewNodeMap_def Let_def)

text \<open>
  C30 (ring_is_order_independent). Every server of a cluster lists the nodes in its own order, peers first and itself
  last.  They agree on the owner of every key as long as no two nodes have the same hash.
\<close>

theorem ring_is_order_independent:
  assumes "set ns = set ms" and "inj_on (hashFunc (NewNodeMap f)) (set ns)"
  shows "PickNode key (AddNodes ns (NewNodeMap f)) = PickNode key (AddNodes ms (NewNodeMap f))"
  using assms by (rule PickNode_order)

theorem ring_is_order_independent_witness:
  "PickNode ''key'' (AddNodes [''p'', ''q''] (NewNodeMap (Some (\<lambda>s. of_char (hd s))))) =
   PickNode ''key'' (AddNodes [''q'', ''p''] (NewNodeMap (Some (\<lambda>s. of_char (hd s)))))"
  by (rule ring_is_order_independent) (auto simp: NewNodeMap_def)

end
