(* ===== verification/Client.thy ===== *)
theory Client
  imports Connection Parser Utils
begin

text \<open>
  \<^verbatim>\<open>resp/client/client.go\<close>: the pipelining client a cluster node keeps for each peer.  Callers put
  requests into the channel \<^verbatim>\<open>pendingReqs\<close>; one goroutine writes them to the socket and passes
  them on in \<^verbatim>\<open>waitingReqs\<close>; another reads the peer's replies and hands each to the request at
  the head of \<^verbatim>\<open>waitingReqs\<close>.  The goroutines are the steps of \<open>client_event\<close>; a step that the
  code would block on is not enabled (\<open>None\<close>).

  The socket's write errors (\<open>net\<close>) and the outcome of closing and dialling again (\<open>redial\<close>,
  \<open>None\<close> for success) are parameters.
\<close>

definition chanSize :: nat where
  "chanSize = 256"

text \<open>
  \<^verbatim>\<open>waiting\<close> is the counter of the request's wait group; the caller is released at 0.
\<close>

record request =
  req_args :: CmdLine
  req_reply :: "reply option"
  heartbeat :: bool
  waiting :: int
  req_err :: "go_error option"

text \<open>
  Requests are numbered in the order they are created.  \<open>inflight\<close> is a request that has been
  written and is not yet in \<^verbatim>\<open>waitingReqs\<close>; \<open>dials\<close> counts the calls of
  \<^verbatim>\<open>handleConnectionError\<close>.
\<close>

record Client =
  pendingReqs :: "nat list"
  waitingReqs :: "nat list"
  inflight :: "nat option"
  reqs :: "request list"
  wire :: sink
  dials :: nat
  client_closed :: bool

definition MakeClient :: Client where
  "MakeClient = \<lparr>pendingReqs = [], waitingReqs = [], inflight = None, reqs = [],
     wire = \<lparr>written = [], writes = 0\<rparr>, dials = 0, client_closed = False\<rparr>"

section \<open>Steps\<close>

text \<open>
  The first half of \<^verbatim>\<open>Send\<close> and \<^verbatim>\<open>doHeartbeat\<close>: a request with its counter at one goes into
  the channel, when there is room.  Sending on a closed channel panics.
\<close>

definition enqueue :: "CmdLine \<Rightarrow> bool \<Rightarrow> Client \<Rightarrow> Client go option" where
  "enqueue as hb c =
     (if client_closed c then Some (Inl ClosedChannel)
      else if length (pendingReqs c) < chanSize then
        Some (Inr (c\<lparr>reqs := reqs c @ [\<lparr>req_args = as, req_reply = None, heartbeat = hb, waiting = 1, req_err = None\<rparr>],
                     pendingReqs := pendingReqs c @ [length (reqs c)]\<rparr>))
      else None)"

definition doHeartbeat :: "Client \<Rightarrow> Client go option" where
  "doHeartbeat c = enqueue [''PING''] True c"

text \<open>
  \<^verbatim>\<open>handleConnectionError\<close>: closing and dialling again; on success the client writes to a
  new socket.
\<close>

definition handleConnectionError :: "(nat \<Rightarrow> go_error option) \<Rightarrow> Client \<Rightarrow> go_error option \<times> Client" where
  "handleConnectionError redial c =
     (let r = redial (dials c); c = c\<lparr>dials := dials c + 1\<rparr> in
      case r of
        Some e \<Rightarrow> (Some e, c)
      | None \<Rightarrow> (None, c\<lparr>wire := (wire c)\<lparr>written := []\<rparr>\<rparr>))"

definition conn_write :: "write_fault \<Rightarrow> bytes \<Rightarrow> Client \<Rightarrow> go_error option \<times> Client" where
  "conn_write net bs c =
     (case sink_write net bs (wire c) of
        (ok, s) \<Rightarrow> (if ok then None else Some (NetError ''write''), c\<lparr>wire := s\<rparr>))"

text \<open>The retry loop of \<^verbatim>\<open>doRequest\<close>, with the rounds that are left.\<close>

fun retry_loop ::
  "write_fault \<Rightarrow> (nat \<Rightarrow> go_error option) \<Rightarrow> bytes \<Rightarrow> nat \<Rightarrow> go_error option \<Rightarrow> Client \<Rightarrow> go_error option \<times> Client" where
  "retry_loop net redial bs 0 err c = (err, c)"
| "retry_loop net redial bs (Suc n) err c =
     (if err = None then (None, c)
      else
        case handleConnectionError redial c of
          (Some e, c) \<Rightarrow> retry_loop net redial bs n (Some e) c
        | (None, c) \<Rightarrow> (case conn_write net bs c of (err, c) \<Rightarrow> retry_loop net redial bs n err c))"

definition update_req :: "nat \<Rightarrow> (request \<Rightarrow> request) \<Rightarrow> Client \<Rightarrow> Client" where
  "update_req i f c = c\<lparr>reqs := (reqs c)[i := f (reqs c ! i)]\<rparr>"

definition req_done :: "request \<Rightarrow> request" where
  "req_done r = r\<lparr>waiting := waiting r - 1\<rparr>"

text \<open>
  \<^verbatim>\<open>handleWrite\<close> takes the next request and \<^verbatim>\<open>doRequest\<close> writes it; a request without arguments is
  dropped.
\<close>

definition doRequest :: "write_fault \<Rightarrow> (nat \<Rightarrow> go_error option) \<Rightarrow> nat \<Rightarrow> Client \<Rightarrow> Client" where
  "doRequest net redial i c =
     (if length (req_args (reqs c ! i)) = 0 then c
      else
        let bs = ToBytes (MakeMultiBulkReply (req_args (reqs c ! i))) in
        case conn_write net bs c of
          (err, c) \<Rightarrow>
            (case retry_loop net redial bs 3 err c of
               (err, c) \<Rightarrow>
                 if err = None then c\<lparr>inflight := Some i\<rparr>
                 else update_req i (\<lambda>r. req_done (r\<lparr>req_err := err\<rparr>)) c))"

definition handleWrite :: "write_fault \<Rightarrow> (nat \<Rightarrow> go_error option) \<Rightarrow> Client \<Rightarrow> Client option" where
  "handleWrite net redial c =
     (case (inflight c, pendingReqs c) of
        (None, i # is) \<Rightarrow> Some (doRequest net redial i (c\<lparr>pendingReqs := is\<rparr>))
      | _ \<Rightarrow> None)"

text \<open>The send on \<^verbatim>\<open>waitingReqs\<close> at the end of \<^verbatim>\<open>doRequest\<close>.\<close>

definition pass_on :: "Client \<Rightarrow> Client option" where
  "pass_on c =
     (case inflight c of
        None \<Rightarrow> None
      | Some i \<Rightarrow>
          if length (waitingReqs c) < chanSize
          then Some (c\<lparr>waitingReqs := waitingReqs c @ [i], inflight := None\<rparr>) else None)"

text \<open>\<^verbatim>\<open>finishRequest\<close> waits for a request, stores the reply and releases the caller.\<close>

definition finishRequest :: "reply option \<Rightarrow> Client \<Rightarrow> Client option" where
  "finishRequest r c =
     (case waitingReqs c of
        [] \<Rightarrow> None
      | i # is \<Rightarrow> Some (update_req i (\<lambda>q. req_done (q\<lparr>req_reply := r\<rparr>)) (c\<lparr>waitingReqs := is\<rparr>)))"

text \<open>The body of the loop of \<^verbatim>\<open>handleRead\<close>.\<close>

definition payload_reply :: "payload \<Rightarrow> reply option" where
  "payload_reply p = (case Err p of Some e \<Rightarrow> Some (MakeErrReply (Error_string e)) | None \<Rightarrow> Data p)"

definition handleRead_body :: "payload \<Rightarrow> Client \<Rightarrow> Client option" where
  "handleRead_body p c = finishRequest (payload_reply p) c"

text \<open>The second half of \<^verbatim>\<open>Send\<close>: what the caller gets, after the wait or the timeout.\<close>

definition Send_result :: "bool \<Rightarrow> request \<Rightarrow> reply option" where
  "Send_result timeout r =
     (if timeout then Some (MakeErrReply ''server time out'')
      else if req_err r \<noteq> None then Some (MakeErrReply ''request failed'')
      else req_reply r)"

text \<open>Closing the channel of requests a second time panics.\<close>

definition client_Close :: "Client \<Rightarrow> Client go" where
  "client_Close c = (if client_closed c then Inl ClosedChannel else Inr (c\<lparr>client_closed := True\<rparr>))"

text \<open>
  \<^verbatim>\<open>DestroyObject\<close> of \<^verbatim>\<open>cluster/client_pool.go\<close>, which the pool calls on an object it gives up: an
  error, or the closed client.
\<close>

datatype pooled_object = ClientObject Client | OtherObject

definition DestroyObject :: "pooled_object \<Rightarrow> (string + Client) go" where
  "DestroyObject obj =
     (case obj of
        OtherObject \<Rightarrow> Inr (Inl ''object is not a client'')
      | ClientObject c \<Rightarrow> go_bind (client_Close c) (\<lambda>c. Inr (Inr c)))"

definition ValidateObject :: "pooled_object \<Rightarrow> bool" where
  "ValidateObject obj = True"

text \<open>Lending a client and taking it back does nothing to it.\<close>

definition ActivateObject :: "pooled_object \<Rightarrow> string option \<times> pooled_object" where
  "ActivateObject obj = (None, obj)"

definition PassivateObject :: "pooled_object \<Rightarrow> string option \<times> pooled_object" where
  "PassivateObject obj = (None, obj)"

section \<open>Runs\<close>

text \<open>
  One step of one goroutine.  A step \<open>Read p\<close> is one round of the reader for a payload \<open>p\<close> that the peer has
  sent; which payloads it sends, and whether it sends any, is left open here.  \<open>peer_step\<close> below
  has the reader with the channel it reads from.
\<close>

datatype client_event = Enqueue CmdLine bool | Write | PassOn | Read payload

fun client_step ::
  "write_fault \<Rightarrow> (nat \<Rightarrow> go_error option) \<Rightarrow> client_event \<Rightarrow> Client \<Rightarrow> Client option" where
  "client_step net redial (Enqueue as hb) c =
     (case enqueue as hb c of Some (Inr c') \<Rightarrow> Some c' | _ \<Rightarrow> None)"
| "client_step net redial Write c = handleWrite net redial c"
| "client_step net redial PassOn c = pass_on c"
| "client_step net redial (Read p) c = handleRead_body p c"

fun client_run ::
  "write_fault \<Rightarrow> (nat \<Rightarrow> go_error option) \<Rightarrow> client_event list \<Rightarrow> Client \<Rightarrow> Client option" where
  "client_run net redial [] c = Some c"
| "client_run net redial (ev # evs) c =
     (case client_step net redial ev c of None \<Rightarrow> None | Some c' \<Rightarrow> client_run net redial evs c')"

text \<open>
  The next round of the loop of \<^verbatim>\<open>handleRead\<close>, on the payloads the parser will still send on its channel.
  When they are used up the loop has ended, if the connection is closed, or waits, if the peer is silent:
  either way no more requests are finished.  \<open>peer_step\<close> is a step of the goroutines with such a peer.
\<close>

fun handleRead :: "payload list \<Rightarrow> Client \<Rightarrow> (Client \<times> payload list) option" where
  "handleRead [] c = None"
| "handleRead (p # ps) c = (case handleRead_body p c of None \<Rightarrow> None | Some c' \<Rightarrow> Some (c', ps))"

fun peer_step ::
  "write_fault \<Rightarrow> (nat \<Rightarrow> go_error option) \<Rightarrow> client_event \<Rightarrow> Client \<times> payload list \<Rightarrow> (Client \<times> payload list) option" where
  "peer_step net redial (Read p) (c, ps) = (if take 1 ps = [p] then handleRead ps c else None)"
| "peer_step net redial ev (c, ps) = (case client_step net redial ev c of None \<Rightarrow> None | Some c' \<Rightarrow> Some (c', ps))"

fun peer_run ::
  "write_fault \<Rightarrow> (nat \<Rightarrow> go_error option) \<Rightarrow> client_event list \<Rightarrow> Client \<times> payload list \<Rightarrow> (Client \<times> payload list) option" where
  "peer_run net redial [] s = Some s"
| "peer_run net redial (ev # evs) s =
     (case peer_step net redial ev s of None \<Rightarrow> None | Some s' \<Rightarrow> peer_run net redial evs s')"

section \<open>Queues\<close>

text \<open>The requests that are somewhere on their way, in the order they will be answered.\<close>

definition queued :: "Client \<Rightarrow> nat list" where
  "queued c = waitingReqs c @ (case inflight c of None \<Rightarrow> [] | Some i \<Rightarrow> [i]) @ pendingReqs c"

text \<open>
  Every request on its way is one, once, and its caller still waits; no counter is negative.
\<close>

definition client_inv :: "Client \<Rightarrow> bool" where
  "client_inv c \<longleftrightarrow> distinct (queued c) \<and> (\<forall>i \<in> set (queued c). i < length (reqs c) \<and> waiting (reqs c ! i) = 1) \<and>
     (\<forall>r \<in> set (reqs c). waiting r \<in> {0, 1})"

lemma client_inv_MakeClient: "client_inv MakeClient"
  by (simp add: client_inv_def MakeClient_def queued_def)

lemma reqs_frame [simp]:
  "handleConnectionError redial c = (e, c') \<Longrightarrow> reqs c' = reqs c \<and> queued c' = queued c \<and>
     pendingReqs c' = pendingReqs c \<and> waitingReqs c' = waitingReqs c \<and> inflight c' = inflight c"
  by (auto simp: handleConnectionError_def Let_def queued_def split: option.splits)

lemma conn_write_frame [simp]:
  "conn_write net bs c = (e, c') \<Longrightarrow> reqs c' = reqs c \<and> queued c' = queued c \<and>
     pendingReqs c' = pendingReqs c \<and> waitingReqs c' = waitingReqs c \<and> inflight c' = inflight c"
  by (auto simp: conn_write_def queued_def split: prod.splits)

lemma retry_loop_frame:
  "retry_loop net redial bs n err c = (e, c') \<Longrightarrow> reqs c' = reqs c \<and> queued c' = queued c \<and>
     pendingReqs c' = pendingReqs c \<and> waitingReqs c' = waitingReqs c \<and> inflight c' = inflight c"
proof (induction n arbitrary: err c)
  case 0
  then show ?case by simp
next
  case (Suc n)
  show ?case
  proof (cases err)
    case None
    with Suc.prems show ?thesis by simp
  next
    case (Some e0)
    obtain e1 c1 where h: "handleConnectionError redial c = (e1, c1)" by (cases "handleConnectionError redial c")
    obtain e2 c2 where w: "conn_write net bs c1 = (e2, c2)" by (cases "conn_write net bs c1")
    from Suc.prems Some h w reqs_frame [OF h] conn_write_frame [OF w] Suc.IH show ?thesis
      by (cases e1) fastforce+
  qed
qed

lemma update_req_queued [simp]:
  "queued (update_req i f c) = queued c" "length (reqs (update_req i f c)) = length (reqs c)"
  by (simp_all add: update_req_def queued_def)

text \<open>Releasing the caller of the request at a position of the queue, which then leaves it.\<close>

lemma client_inv_release:
  assumes "client_inv c" and "queued c = xs @ i # ys" and "queued c' = xs @ ys"
    and "reqs c' = (reqs c)[i := r]" and "waiting r = waiting (reqs c ! i) - 1"
  shows "client_inv c'"
  unfolding client_inv_def
proof (intro conjI ballI)
  have i: "i < length (reqs c)" "waiting (reqs c ! i) = 1" "i \<notin> set xs" "i \<notin> set ys"
    using assms(1,2) by (auto simp: client_inv_def)
  show "distinct (queued c')" using assms(1-3) by (auto simp: client_inv_def)
  fix j assume j: "j \<in> set (queued c')"
  with assms(1-3) have "j < length (reqs c)" "waiting (reqs c ! j) = 1" by (auto simp: client_inv_def)
  moreover have "j \<noteq> i" using j i assms(3) by auto
  ultimately show "j < length (reqs c')" "waiting (reqs c' ! j) = 1" using assms(4) by simp_all
next
  fix q assume "q \<in> set (reqs c')"
  with assms(1,2,4,5) show "waiting q \<in> {0, 1}"
    using set_update_subset_insert [of "reqs c" i r] by (auto simp: client_inv_def)
qed

lemma client_inv_frame:
  assumes "client_inv c" and "set (queued c') \<subseteq> set (queued c)" and "distinct (queued c')" and "reqs c' = reqs c"
  shows "client_inv c'"
  using assms by (auto simp: client_inv_def)

lemma doRequest_inv:
  assumes "client_inv c" and "inflight c = None" and "pendingReqs c = i # is"
  shows "client_inv (doRequest net redial i (c\<lparr>pendingReqs := is\<rparr>))"
proof (cases "length (req_args (reqs c ! i)) = 0")
  case True
  then show ?thesis using assms
    by (intro client_inv_frame [OF assms(1)]) (auto simp: doRequest_def queued_def client_inv_def)
next
  case False
  let ?bs = "ToBytes (MakeMultiBulkReply (req_args (reqs c ! i)))" and ?c0 = "c\<lparr>pendingReqs := is\<rparr>"
  obtain e1 c1 where w: "conn_write net ?bs ?c0 = (e1, c1)" by (cases "conn_write net ?bs ?c0")
  obtain e2 c2 where l: "retry_loop net redial ?bs 3 e1 c1 = (e2, c2)" by (cases "retry_loop net redial ?bs 3 e1 c1")
  have c2: "reqs c2 = reqs c" "pendingReqs c2 = is" "waitingReqs c2 = waitingReqs c" "inflight c2 = None"
    using conn_write_frame [OF w] retry_loop_frame [OF l] assms(2) by simp_all
  show ?thesis
  proof (cases e2)
    case None
    then have "doRequest net redial i ?c0 = c2\<lparr>inflight := Some i\<rparr>"
      using False w l by (simp add: doRequest_def)
    moreover have "queued (c2\<lparr>inflight := Some i\<rparr>) = queued c" using c2 assms by (simp add: queued_def)
    ultimately show ?thesis using assms(1) c2(1) by (simp add: client_inv_def)
  next
    case (Some e)
    then have d: "doRequest net redial i ?c0 = update_req i (\<lambda>r. req_done (r\<lparr>req_err := e2\<rparr>)) c2"
      using False w l by (simp add: doRequest_def)
    have "queued c = waitingReqs c @ i # is" using assms by (simp add: queued_def)
    from client_inv_release [OF assms(1) this] show ?thesis unfolding d
      using c2 by (simp add: update_req_def req_done_def queued_def)
  qed
qed

lemma client_step_inv:
  assumes "client_inv c" and "client_step net redial ev c = Some c'"
  shows "client_inv c'"
proof (cases ev)
  case (Enqueue as hb)
  let ?r = "\<lparr>req_args = as, req_reply = None, heartbeat = hb, waiting = 1, req_err = None\<rparr>"
  from Enqueue assms(2) have c': "c' = c\<lparr>reqs := reqs c @ [?r], pendingReqs := pendingReqs c @ [length (reqs c)]\<rparr>"
    by (auto simp: enqueue_def split: if_splits)
  have "queued c' = queued c @ [length (reqs c)]" by (simp add: c' queued_def)
  with assms(1) c' show ?thesis by (auto simp: client_inv_def nth_append)
next
  case Write
  with assms show ?thesis
    by (auto simp: handleWrite_def split: option.splits list.splits intro: doRequest_inv)
next
  case PassOn
  with assms obtain i where "inflight c = Some i"
    "c' = c\<lparr>waitingReqs := waitingReqs c @ [i], inflight := None\<rparr>"
    by (auto simp: pass_on_def split: option.splits if_splits)
  then have "queued c' = queued c" "reqs c' = reqs c" by (simp_all add: queued_def)
  with assms(1) show ?thesis by (simp add: client_inv_def)
next
  case (Read p)
  with assms obtain i "is" where w: "waitingReqs c = i # is"
    and c': "c' = update_req i (\<lambda>q. req_done (q\<lparr>req_reply := payload_reply p\<rparr>)) (c\<lparr>waitingReqs := is\<rparr>)"
    by (auto simp: handleRead_body_def finishRequest_def split: list.splits)
  have "queued c = [] @ i # (is @ (case inflight c of None \<Rightarrow> [] | Some i \<Rightarrow> [i]) @ pendingReqs c)"
    using w by (simp add: queued_def)
  from client_inv_release [OF assms(1) this] show ?thesis
    by (simp add: c' update_req_def req_done_def queued_def)
qed

lemma client_run_inv:
  "client_inv c \<Longrightarrow> client_run net redial evs c = Some c' \<Longrightarrow> client_inv c'"
  by (induction evs arbitrary: c) (auto split: option.splits intro: client_step_inv)

section \<open>First in, first out\<close>

fun reads :: "client_event list \<Rightarrow> payload list" where
  "reads [] = []"
| "reads (Read p # evs) = p # reads evs"
| "reads (_ # evs) = reads evs"

fun enqueued :: "client_event list \<Rightarrow> CmdLine list" where
  "enqueued [] = []"
| "enqueued (Enqueue as hb # evs) = as # enqueued evs"
| "enqueued (_ # evs) = enqueued evs"

text \<open>How many requests have been written.\<close>

definition sent_count :: "Client \<Rightarrow> nat" where
  "sent_count c = length (reqs c) - length (pendingReqs c)"

text \<open>
  The invariant of a client whose socket never fails: the requests after the answered ones
  are on their way in order, the answered ones hold the payloads in order, and the socket
  has the bytes of the requests that were written.
\<close>

definition fifo_inv :: "payload list \<Rightarrow> CmdLine list \<Rightarrow> Client \<Rightarrow> bool" where
  "fifo_inv ps qs c \<longleftrightarrow>
     map req_args (reqs c) = qs \<and> length ps \<le> length qs \<and> queued c = [length ps..<length qs] \<and>
     (\<forall>i < length ps. req_reply (reqs c ! i) = payload_reply (ps ! i) \<and> waiting (reqs c ! i) = 0) \<and>
     (\<forall>i. length ps \<le> i \<longrightarrow> i < length qs \<longrightarrow> req_reply (reqs c ! i) = None \<and> waiting (reqs c ! i) = 1) \<and>
     (\<forall>r \<in> set (reqs c). req_err r = None) \<and>
     written (wire c) = concat (map (\<lambda>as. ToBytes (MultiBulkReply as)) (take (sent_count c) qs))"

lemma fifo_inv_MakeClient: "fifo_inv [] [] MakeClient"
  by (simp add: fifo_inv_def MakeClient_def queued_def)

lemma doRequest_ok:
  assumes "\<forall>n. net n = None" and "req_args (reqs c ! i) \<noteq> []"
  shows "doRequest net redial i c = c\<lparr>inflight := Some i,
    wire := \<lparr>written = written (wire c) @ ToBytes (MultiBulkReply (req_args (reqs c ! i))),
             writes = writes (wire c) + 1\<rparr>\<rparr>"
  using assms
  by (cases c) (simp add: doRequest_def conn_write_def sink_write_def MakeMultiBulkReply_def eval_nat_numeral Let_def)

lemma upt_Cons_iff: "[m..<n] = i # is \<longleftrightarrow> m < n \<and> i = m \<and> is = [Suc m..<n]"
  by (auto simp: upt_rec [of m n])

lemma fifo_step:
  assumes net: "\<forall>n. net n = None" and inv: "fifo_inv ps qs c" and ne: "[] \<notin> set qs" "[] \<notin> set (enqueued [ev])"
    and step: "client_step net redial ev c = Some c'"
  shows "fifo_inv (ps @ reads [ev]) (qs @ enqueued [ev]) c'"
proof -
  have f: "map req_args (reqs c) = qs" "\<forall>r \<in> set (reqs c). req_err r = None"
    "\<forall>i < length ps. req_reply (reqs c ! i) = payload_reply (ps ! i) \<and> waiting (reqs c ! i) = 0"
    "\<forall>i. length ps \<le> i \<longrightarrow> i < length qs \<longrightarrow> req_reply (reqs c ! i) = None \<and> waiting (reqs c ! i) = 1"
    "written (wire c) = concat (map (\<lambda>as. ToBytes (MultiBulkReply as)) (take (sent_count c) qs))"
    using inv unfolding fifo_inv_def by blast+
  have len: "length (reqs c) = length qs" and q: "queued c = [length ps..<length qs]" and le: "length ps \<le> length qs"
    using inv by (auto simp: fifo_inv_def)
  have pend: "length (pendingReqs c) \<le> length qs"
    using arg_cong [OF q, of length] by (simp add: queued_def)
  show ?thesis
  proof (cases ev)
    case (Enqueue as hb)
    let ?r = "\<lparr>req_args = as, req_reply = None, heartbeat = hb, waiting = 1, req_err = None\<rparr>"
    from Enqueue step have c': "c' = c\<lparr>reqs := reqs c @ [?r], pendingReqs := pendingReqs c @ [length (reqs c)]\<rparr>"
      by (auto simp: enqueue_def split: if_splits)
    have g1: "queued c' = [length ps..<length (qs @ [as])]" using q le len by (simp add: c' queued_def)
    have g2: "sent_count c' = sent_count c" using len pend by (simp add: sent_count_def c')
    have g3: "sent_count c \<le> length qs" using len by (simp add: sent_count_def)
    have g4: "map req_args (reqs c') = qs @ [as]" using f(1) by (simp add: c')
    have g5: "\<forall>i < length ps. req_reply (reqs c' ! i) = payload_reply (ps ! i) \<and> waiting (reqs c' ! i) = 0"
      using f(3) le len by (simp add: c' nth_append)
    have g6: "\<forall>i. length ps \<le> i \<longrightarrow> i < length (qs @ [as]) \<longrightarrow> req_reply (reqs c' ! i) = None \<and> waiting (reqs c' ! i) = 1"
    proof (intro allI impI)
      fix j assume j: "length ps \<le> j" "j < length (qs @ [as])"
      show "req_reply (reqs c' ! j) = None \<and> waiting (reqs c' ! j) = 1"
      proof (cases "j < length qs")
        case True
        with f(4) j(1) have "req_reply (reqs c ! j) = None \<and> waiting (reqs c ! j) = 1" by blast
        with True len show ?thesis by (simp add: c' nth_append)
      next
        case False
        with j len have "j = length (reqs c)" by simp
        then show ?thesis by (simp add: c' nth_append)
      qed
    qed
    have g7: "\<forall>r \<in> set (reqs c'). req_err r = None" using f(2) by (simp add: c')
    have g8: "wire c' = wire c" by (simp add: c')
    have ev: "ps @ reads [ev] = ps" "qs @ enqueued [ev] = qs @ [as]" by (simp_all add: Enqueue)
    have g9: "written (wire c') = concat (map (\<lambda>as. ToBytes (MultiBulkReply as)) (take (sent_count c') (qs @ [as])))"
      unfolding g2 g8 f(5) using g3 by simp
    have g10: "length ps \<le> length (qs @ [as])" using le by simp
    show ?thesis unfolding fifo_inv_def ev by (intro conjI g1 g4 g5 g6 g7 g9 g10)
  next
    case Write
    with step obtain i "is" where p: "inflight c = None" "pendingReqs c = i # is"
      and c': "c' = doRequest net redial i (c\<lparr>pendingReqs := is\<rparr>)"
      by (auto simp: handleWrite_def split: option.splits list.splits)
    have w: "waitingReqs c @ i # is = [length ps..<length qs]" using q p by (simp add: queued_def)
    then have i: "i = length qs - Suc (length is)" "i < length qs"
    proof -
      have "length (waitingReqs c) + Suc (length is) = length qs - length ps"
        using arg_cong [OF w, of length] by simp
      moreover from this have "([length ps..<length qs]) ! length (waitingReqs c) = length ps + length (waitingReqs c)"
        by simp
      moreover have "([length ps..<length qs]) ! length (waitingReqs c) = i" using w by (metis nth_append_length)
      ultimately show "i = length qs - Suc (length is)" "i < length qs" using le by auto
    qed
    have args: "req_args (reqs c ! i) = qs ! i" using arg_cong [OF f(1), of "\<lambda>l. l ! i"] i(2) len by simp
    have "qs ! i \<noteq> []" using ne(1) i(2) nth_mem by metis
    then have c'2: "c' = c\<lparr>pendingReqs := is, inflight := Some i,
        wire := \<lparr>written = written (wire c) @ ToBytes (MultiBulkReply (qs ! i)), writes = writes (wire c) + 1\<rparr>\<rparr>"
      using doRequest_ok [OF net, of "c\<lparr>pendingReqs := is\<rparr>" i redial] args by (simp add: c')
    have sent: "sent_count c = i" "sent_count c' = Suc i"
      using i len p(2) pend by (simp_all add: sent_count_def c'2)
    have "queued c' = queued c" using p by (simp add: queued_def c'2)
    then have g1: "queued c' = [length ps..<length qs]" using q by simp
    have reqs': "reqs c' = reqs c" by (simp add: c'2)
    have ev: "ps @ reads [ev] = ps" "qs @ enqueued [ev] = qs" by (simp_all add: Write)
    have g2: "written (wire c') = concat (map (\<lambda>as. ToBytes (MultiBulkReply as)) (take (sent_count c') qs))"
      unfolding sent(2) take_Suc_conv_app_nth [OF i(2)] using f(5) sent(1) by (simp add: c'2)
    show ?thesis unfolding fifo_inv_def ev reqs' by (intro conjI g1 g2 f(1-4) le)
  next
    case PassOn
    with step obtain i where i: "inflight c = Some i"
      "c' = c\<lparr>waitingReqs := waitingReqs c @ [i], inflight := None\<rparr>"
      by (auto simp: pass_on_def split: option.splits if_splits)
    have same: "queued c' = queued c" "sent_count c' = sent_count c" "reqs c' = reqs c" "wire c' = wire c"
      using i by (simp_all add: queued_def sent_count_def)
    have ev: "ps @ reads [ev] = ps" "qs @ enqueued [ev] = qs" by (simp_all add: PassOn)
    show ?thesis unfolding ev fifo_inv_def same using inv unfolding fifo_inv_def .
  next
    case (Read p)
    with step obtain i "is" where w: "waitingReqs c = i # is"
      and c': "c' = update_req i (\<lambda>q. req_done (q\<lparr>req_reply := payload_reply p\<rparr>)) (c\<lparr>waitingReqs := is\<rparr>)"
      by (auto simp: handleRead_body_def finishRequest_def split: list.splits)
    have "i # queued (c\<lparr>waitingReqs := is\<rparr>) = [length ps..<length qs]" using q w by (simp add: queued_def)
    then have i: "i = length ps" "length ps < length qs"
      and q': "queued (c\<lparr>waitingReqs := is\<rparr>) = [Suc (length ps)..<length qs]"
      using upt_Cons_iff by metis+
    have qc': "queued c' = [Suc (length ps)..<length qs]" using q' by (simp add: c')
    have rc': "reqs c' = (reqs c)[length ps := req_done ((reqs c ! length ps)\<lparr>req_reply := payload_reply p\<rparr>)]"
      by (simp add: c' update_req_def i(1))
    have lt: "length ps < length (reqs c)" using i(2) len by simp
    have mapeq: "map req_args (reqs c') = qs"
      using f(1) lt by (simp add: rc' map_update req_done_def) (metis list_update_id nth_map)
    have ans: "\<forall>j < length (ps @ [p]). req_reply (reqs c' ! j) = payload_reply ((ps @ [p]) ! j) \<and> waiting (reqs c' ! j) = 0"
    proof (intro allI impI)
      fix j assume j: "j < length (ps @ [p])"
      show "req_reply (reqs c' ! j) = payload_reply ((ps @ [p]) ! j) \<and> waiting (reqs c' ! j) = 0"
      proof (cases "j = length ps")
        case True
        moreover have "waiting (reqs c ! length ps) = 1" using f(4) i(2) by blast
        ultimately show ?thesis using lt by (simp add: rc' req_done_def)
      next
        case False
        with j have "j < length ps" by simp
        with f(3) show ?thesis by (simp add: rc' nth_append)
      qed
    qed
    have rest: "\<forall>j. length (ps @ [p]) \<le> j \<longrightarrow> j < length qs \<longrightarrow> req_reply (reqs c' ! j) = None \<and> waiting (reqs c' ! j) = 1"
      using f(4) by (simp add: rc')
    have errs: "\<forall>r \<in> set (reqs c'). req_err r = None"
    proof
      fix r assume "r \<in> set (reqs c')"
      then have "r \<in> set (reqs c) \<or> r = req_done ((reqs c ! length ps)\<lparr>req_reply := payload_reply p\<rparr>)"
        using set_update_subset_insert [of "reqs c" "length ps"] by (auto simp: rc')
      then show "req_err r = None" using f(2) lt by (auto simp: req_done_def)
    qed
    have sent: "sent_count c' = sent_count c" "wire c' = wire c" by (simp_all add: sent_count_def c' update_req_def)
    have ev: "ps @ reads [ev] = ps @ [p]" "qs @ enqueued [ev] = qs" by (simp_all add: Read)
    have g1: "queued c' = [length (ps @ [p])..<length qs]" using qc' by simp
    have g2: "length (ps @ [p]) \<le> length qs" using i(2) by simp
    show ?thesis unfolding fifo_inv_def ev sent by (intro conjI mapeq g1 g2 ans rest errs f(5))
  qed
qed

lemma reads_enqueued_append [simp]:
  "reads (evs @ evs') = reads evs @ reads evs'" "enqueued (evs @ evs') = enqueued evs @ enqueued evs'"
  by (induction evs rule: reads.induct) simp_all

lemma fifo_run:
  assumes net: "\<forall>n. net n = None"
  shows "fifo_inv ps qs c \<Longrightarrow> [] \<notin> set qs \<Longrightarrow> [] \<notin> set (enqueued evs) \<Longrightarrow>
    client_run net redial evs c = Some c' \<Longrightarrow> fifo_inv (ps @ reads evs) (qs @ enqueued evs) c'"
proof (induction evs arbitrary: c ps qs)
  case Nil
  then show ?case by simp
next
  case (Cons ev evs)
  obtain c1 where c1: "client_step net redial ev c = Some c1" "client_run net redial evs c1 = Some c'"
    using Cons.prems(4) by (auto split: option.splits)
  have split: "enqueued (ev # evs) = enqueued [ev] @ enqueued evs" "reads (ev # evs) = reads [ev] @ reads evs"
    using reads_enqueued_append [of "[ev]" evs] by simp_all
  with Cons.prems(3) have ne: "[] \<notin> set (enqueued [ev])" "[] \<notin> set (enqueued evs)" by auto
  from Cons.IH [OF fifo_step [OF net Cons.prems(1,2) ne(1) c1(1)] _ ne(2) c1(2)] Cons.prems(2) ne(1)
  show ?case unfolding split by simp
qed

section \<open>Progress\<close>

text \<open>What is left to do for the requests on their way: write, pass on, answer.\<close>

definition work :: "Client \<Rightarrow> nat" where
  "work c = 3 * length (pendingReqs c) + 2 * (case inflight c of None \<Rightarrow> 0 | Some _ \<Rightarrow> 1) + length (waitingReqs c)"

definition is_enqueue :: "client_event \<Rightarrow> bool" where
  "is_enqueue ev \<longleftrightarrow> (\<exists>as hb. ev = Enqueue as hb)"

lemma doRequest_frame:
  assumes "inflight c = None"
  shows "pendingReqs (doRequest net redial i c) = pendingReqs c \<and>
    waitingReqs (doRequest net redial i c) = waitingReqs c \<and>
    inflight (doRequest net redial i c) \<in> {None, Some i}"
proof -
  let ?bs = "ToBytes (MakeMultiBulkReply (req_args (reqs c ! i)))"
  obtain e1 c1 where w: "conn_write net ?bs c = (e1, c1)" by (cases "conn_write net ?bs c")
  obtain e2 c2 where l: "retry_loop net redial ?bs 3 e1 c1 = (e2, c2)" by (cases "retry_loop net redial ?bs 3 e1 c1")
  show ?thesis
    using conn_write_frame [OF w] retry_loop_frame [OF l] assms w l
    by (simp add: doRequest_def update_req_def)
qed

lemma work_decreases:
  assumes "client_step net redial ev c = Some c'" and "\<not> is_enqueue ev"
  shows "work c' < work c"
proof (cases ev)
  case (Enqueue as hb)
  with assms(2) show ?thesis by (simp add: is_enqueue_def)
next
  case Write
  with assms obtain i "is" where p: "inflight c = None" "pendingReqs c = i # is"
    and c': "c' = doRequest net redial i (c\<lparr>pendingReqs := is\<rparr>)"
    by (auto simp: handleWrite_def split: option.splits list.splits)
  with doRequest_frame [of "c\<lparr>pendingReqs := is\<rparr>" net redial i] show ?thesis
    by (auto simp: work_def)
next
  case PassOn
  with assms show ?thesis by (auto simp: pass_on_def work_def split: option.splits if_splits)
next
  case (Read p)
  with assms show ?thesis
    by (auto simp: handleRead_body_def finishRequest_def update_req_def work_def split: list.splits)
qed

lemma peer_step_client:
  "peer_step net redial ev (c, ps) = Some (c', ps') \<Longrightarrow> client_step net redial ev c = Some c' \<and> ps = reads [ev] @ ps'"
  by (cases ev; cases ps) (auto split: option.splits if_splits)

lemma peer_run_length:
  "peer_run net redial evs (c, ps) = Some (c', ps') \<Longrightarrow> \<forall>ev \<in> set evs. \<not> is_enqueue ev \<Longrightarrow>
   length evs + work c' \<le> work c"
proof (induction evs arbitrary: c ps)
  case Nil
  then show ?case by simp
next
  case (Cons ev evs)
  then obtain c1 ps1 where 1: "peer_step net redial ev (c, ps) = Some (c1, ps1)"
      "peer_run net redial evs (c1, ps1) = Some (c', ps')" by (auto split: option.splits)
  then have "work c1 < work c" using peer_step_client work_decreases Cons.prems(2) by (metis list.set_intros(1))
  with Cons.IH [OF 1(2)] Cons.prems(2) show ?case by simp
qed

text \<open>When nothing can move, no request is on its way or the peer has nothing more to say.\<close>

lemma at_rest:
  assumes "\<forall>ev. \<not> is_enqueue ev \<longrightarrow> peer_step net redial ev (c, ps) = None"
  shows "queued c = [] \<or> ps = []"
proof (rule ccontr)
  assume "\<not> (queued c = [] \<or> ps = [])"
  then obtain p ps1 where ne: "queued c \<noteq> []" "ps = p # ps1" by (cases ps) auto
  have "\<not> is_enqueue Write" "\<not> is_enqueue PassOn" "\<not> is_enqueue (Read p)" by (simp_all add: is_enqueue_def)
  with assms have "peer_step net redial Write (c, ps) = None" "peer_step net redial PassOn (c, ps) = None"
    "peer_step net redial (Read p) (c, ps) = None" by blast+
  with ne show False
    by (auto simp: handleWrite_def pass_on_def handleRead_body_def finishRequest_def queued_def chanSize_def
        split: option.splits list.splits if_splits)
qed

text \<open>
  What happens to the requests that were on their way at the beginning: \<open>k\<close> of them have been answered, with
  the first \<open>k\<close> payloads, and the others still are.
\<close>

definition drained :: "Client \<Rightarrow> payload list \<Rightarrow> nat \<Rightarrow> Client \<Rightarrow> payload list \<Rightarrow> bool" where
  "drained c0 ps0 k c ps \<longleftrightarrow> client_inv c \<and> k \<le> length ps0 \<and> k \<le> length (queued c0) \<and>
     ps = drop k ps0 \<and> queued c = drop k (queued c0) \<and>
     (\<forall>j < k. waiting (reqs c ! (queued c0 ! j)) = 0 \<and>
        Send_result False (reqs c ! (queued c0 ! j)) = payload_reply (ps0 ! j)) \<and>
     (\<forall>i \<in> set (queued c). req_args (reqs c ! i) \<noteq> [] \<and> req_err (reqs c ! i) = None)"

lemma drained_step:
  assumes d: "drained c0 ps0 k c ps" and dist: "distinct (queued c0)" and net: "\<forall>n. net n = None"
    and ev: "\<not> is_enqueue ev" and step: "peer_step net redial ev (c, ps) = Some (c', ps')"
  shows "\<exists>k'. drained c0 ps0 k' c' ps'"
proof -
  have cs: "client_step net redial ev c = Some c'" "ps = reads [ev] @ ps'" using peer_step_client [OF step] by auto
  have inv: "client_inv c'" using d client_step_inv [OF _ cs(1)] by (simp add: drained_def)
  have same: "drained c0 ps0 k c' ps'" if "reqs c' = reqs c" "queued c' = queued c" "ps' = ps"
    using d inv that by (simp add: drained_def)
  show ?thesis
  proof (cases ev)
    case (Enqueue as hb)
    with ev show ?thesis by (simp add: is_enqueue_def)
  next
    case Write
    with cs obtain i "is" where p: "inflight c = None" "pendingReqs c = i # is"
      and c': "c' = doRequest net redial i (c\<lparr>pendingReqs := is\<rparr>)"
      by (auto simp: handleWrite_def split: option.splits list.splits)
    have "i \<in> set (queued c)" using p by (simp add: queued_def)
    with d have "req_args (reqs (c\<lparr>pendingReqs := is\<rparr>) ! i) \<noteq> []" by (simp add: drained_def)
    from doRequest_ok [OF net this] c' p have "reqs c' = reqs c" "queued c' = queued c" by (simp_all add: queued_def)
    with same cs(2) Write show ?thesis by auto
  next
    case PassOn
    with cs have "reqs c' = reqs c" "queued c' = queued c" "ps' = ps"
      by (auto simp: pass_on_def queued_def split: option.splits if_splits)
    with same show ?thesis by blast
  next
    case (Read p)
    with cs obtain i "is" where w: "waitingReqs c = i # is"
      and c': "c' = update_req i (\<lambda>q. req_done (q\<lparr>req_reply := payload_reply p\<rparr>)) (c\<lparr>waitingReqs := is\<rparr>)"
      by (auto simp: handleRead_body_def finishRequest_def split: list.splits)
    have q: "queued c = i # queued c'" using w by (simp add: c' queued_def update_req_def)
    have d': "client_inv c" "k \<le> length ps0" "p # ps' = drop k ps0" "i # queued c' = drop k (queued c0)"
      using d cs(2) Read q by (simp_all add: drained_def)
    then have k: "k < length ps0" "k < length (queued c0)" by (metis length_drop length_greater_0_conv list.discI zero_less_diff)+
    then have at: "ps0 ! k = p" "ps' = drop (Suc k) ps0" "queued c0 ! k = i" "queued c' = drop (Suc k) (queued c0)"
      using d'(3,4) by (simp_all add: Cons_nth_drop_Suc [symmetric])
    have i: "i < length (reqs c)" "waiting (reqs c ! i) = 1" "req_err (reqs c ! i) = None"
      using d q by (auto simp: drained_def client_inv_def)
    have r: "reqs c' = (reqs c)[i := req_done ((reqs c ! i)\<lparr>req_reply := payload_reply p\<rparr>)]"
      by (simp add: c' update_req_def)
    have "waiting (reqs c' ! (queued c0 ! j)) = 0 \<and> Send_result False (reqs c' ! (queued c0 ! j)) = payload_reply (ps0 ! j)"
      if j: "j < Suc k" for j
    proof (cases "j = k")
      case True
      with i at(1,3) show ?thesis by (simp add: r req_done_def Send_result_def)
    next
      case False
      then have "queued c0 ! j \<noteq> i" using j k(2) at(3) dist by (metis less_SucE less_trans nth_eq_iff_index_eq order_less_irrefl)
      with d j False show ?thesis by (simp add: r drained_def)
    qed
    moreover have "req_args (reqs c' ! l) \<noteq> [] \<and> req_err (reqs c' ! l) = None" if l: "l \<in> set (queued c')" for l
    proof -
      have "l \<in> set (queued c)" using l q by simp
      with d have "req_args (reqs c ! l) \<noteq> [] \<and> req_err (reqs c ! l) = None" by (simp add: drained_def)
      then show ?thesis using i(1) by (cases "l = i") (simp_all add: r req_done_def)
    qed
    ultimately have "drained c0 ps0 (Suc k) c' ps'" using inv k at(2,4) by (simp add: drained_def)
    then show ?thesis ..
  qed
qed

lemma drained_run:
  assumes "distinct (queued c0)" and "\<forall>n. net n = None"
  shows "drained c0 ps0 k c ps \<Longrightarrow> \<forall>ev \<in> set evs. \<not> is_enqueue ev \<Longrightarrow> peer_run net redial evs (c, ps) = Some (c', ps') \<Longrightarrow>
    \<exists>k'. drained c0 ps0 k' c' ps'"
proof (induction evs arbitrary: c ps k)
  case Nil
  then show ?case by auto
next
  case (Cons ev evs)
  then obtain c1 ps1 where 1: "peer_step net redial ev (c, ps) = Some (c1, ps1)"
      "peer_run net redial evs (c1, ps1) = Some (c', ps')" by (auto split: option.splits)
  from drained_step [OF Cons.prems(1) assms _ 1(1)] Cons.prems(2) Cons.IH [OF _ _ 1(2)] show ?case by auto
qed

section \<open>Properties\<close>

text \<open>
  C12 (replies_go_to_their_requests). On a socket that does not fail, whatever the goroutines' interleaving, the requests
  are written whole and in order, the \<open>n\<close>-th payload of the peer releases the \<open>n\<close>-th request
  with exactly that reply, and no other request has a reply or is released.
\<close>

theorem replies_go_to_their_requests:
  assumes "\<forall>n. net n = None" and "[] \<notin> set (enqueued evs)" and "client_run net redial evs MakeClient = Some c"
  shows "map req_args (reqs c) = enqueued evs \<and> length (reads evs) \<le> length (enqueued evs) \<and>
    (\<forall>i < length (reads evs). Send_result False (reqs c ! i) = payload_reply (reads evs ! i) \<and> waiting (reqs c ! i) = 0) \<and>
    (\<forall>i. length (reads evs) \<le> i \<longrightarrow> i < length (enqueued evs) \<longrightarrow> waiting (reqs c ! i) = 1) \<and>
    written (wire c) = concat (map (\<lambda>as. ToBytes (MultiBulkReply as)) (take (sent_count c) (enqueued evs)))"
proof -
  have inv: "fifo_inv (reads evs) (enqueued evs) c"
    using fifo_run [OF assms(1) fifo_inv_MakeClient _ assms(2,3)] by simp
  have "Send_result False (reqs c ! i) = req_reply (reqs c ! i)" if "i < length (reads evs)" for i
  proof -
    have "map req_args (reqs c) = enqueued evs" and "length (reads evs) \<le> length (enqueued evs)"
      using inv unfolding fifo_inv_def by auto
    then have "length (reqs c) = length (enqueued evs)" "length (reads evs) \<le> length (enqueued evs)"
      by (metis length_map)+
    then have "reqs c ! i \<in> set (reqs c)" using that by simp
    then have "req_err (reqs c ! i) = None" using inv unfolding fifo_inv_def by blast
    then show ?thesis by (simp add: Send_result_def)
  qed
  with inv show ?thesis unfolding fifo_inv_def by auto
qed

theorem replies_go_to_their_requests_witness:
  "\<exists>c. client_run (\<lambda>n. None) (\<lambda>n. None)
      [Enqueue [''GET'', ''k''] False, Write, PassOn, Read \<lparr>Data = Some OkReply, Err = None\<rparr>] MakeClient = Some c \<and>
    map req_args (reqs c) = enqueued [Enqueue [''GET'', ''k''] False, Write, PassOn, Read \<lparr>Data = Some OkReply, Err = None\<rparr>] \<and>
    Send_result False (reqs c ! 0) = Some OkReply"
proof -
  let ?evs = "[Enqueue [''GET'', ''k''] False, Write, PassOn, Read \<lparr>Data = Some OkReply, Err = None\<rparr>]"
  obtain c where c: "client_run (\<lambda>n. None) (\<lambda>n. None) ?evs MakeClient = Some c"
    by (simp add: MakeClient_def enqueue_def chanSize_def handleWrite_def pass_on_def doRequest_ok
        handleRead_body_def finishRequest_def)
  with replies_go_to_their_requests [OF _ _ c] show ?thesis by (auto simp: payload_reply_def)
qed

text \<open>
  With any write errors, redials and interleaving, the wait counter of every request is
  1 or 0, and it is 1 while the request is on its way: no caller is released twice, which
  would panic, and none before its request has been answered or given up.
\<close>

theorem wait_groups_never_negative:
  assumes "client_run net redial evs MakeClient = Some c"
  shows "(\<forall>r \<in> set (reqs c). waiting r \<in> {0, 1}) \<and> distinct (queued c) \<and>
    (\<forall>i \<in> set (queued c). i < length (reqs c) \<and> waiting (reqs c ! i) = 1)"
  using client_run_inv [OF client_inv_MakeClient assms] by (auto simp: client_inv_def)

theorem wait_groups_never_negative_witness:
  "\<exists>c. client_run (\<lambda>n. Some 0) (\<lambda>n. Some (NetError ''refused'')) [Enqueue [''PING''] True, Write] MakeClient = Some c \<and>
    (\<forall>r \<in> set (reqs c). waiting r \<in> {0, 1}) \<and> distinct (queued c)"
proof -
  obtain c where c: "client_run (\<lambda>n. Some 0) (\<lambda>n. Some (NetError ''refused'')) [Enqueue [''PING''] True, Write] MakeClient = Some c"
    by (simp add: MakeClient_def enqueue_def chanSize_def handleWrite_def split: prod.splits)
  from wait_groups_never_negative [OF c] c show ?thesis by blast
qed

text \<open>
  C23 (requests_drain). The requests on their way on a socket that does not fail, none of them without arguments, and a
  peer that sends the payloads \<open>ps\<close> and then no more.  However the writer, the hand-over and the reader
  interleave, without new requests they make at most \<open>work c\<close> steps.  When none of them can move, the
  callers of as many requests as the peer has sent payloads are released, each with its payload, in order;
  the others still wait, and are left to their time-outs.
\<close>

theorem requests_drain:
  assumes "client_inv c" and "\<forall>i \<in> set (queued c). req_args (reqs c ! i) \<noteq> [] \<and> req_err (reqs c ! i) = None"
    and "\<forall>n. net n = None" and "peer_run net redial evs (c, ps) = Some (c', ps')" and "\<forall>ev \<in> set evs. \<not> is_enqueue ev"
  shows "length evs \<le> work c \<and>
    ((\<forall>ev. \<not> is_enqueue ev \<longrightarrow> peer_step net redial ev (c', ps') = None) \<longrightarrow>
      queued c' = drop (length ps) (queued c) \<and>
      (\<forall>j < min (length ps) (length (queued c)). waiting (reqs c' ! (queued c ! j)) = 0 \<and>
         Send_result False (reqs c' ! (queued c ! j)) = payload_reply (ps ! j)) \<and>
      (\<forall>i \<in> set (queued c'). waiting (reqs c' ! i) = 1))"
proof (intro conjI impI)
  show "length evs \<le> work c" using peer_run_length [OF assms(4,5)] by simp
  assume rest: "\<forall>ev. \<not> is_enqueue ev \<longrightarrow> peer_step net redial ev (c', ps') = None"
  have "distinct (queued c)" using assms(1) by (simp add: client_inv_def)
  moreover have "drained c ps 0 c ps" using assms(1,2) by (simp add: drained_def)
  ultimately obtain k where k: "drained c ps k c' ps'" using drained_run assms(3,4,5) by blast
  with at_rest [OF rest] have m: "k = min (length ps) (length (queued c))" by (auto simp: drained_def)
  have "drop (min (length ps) (length (queued c))) (queued c) = drop (length ps) (queued c)" by (simp add: min_def)
  with k m show "queued c' = drop (length ps) (queued c)" by (simp add: drained_def)
  show "\<forall>j < min (length ps) (length (queued c)). waiting (reqs c' ! (queued c ! j)) = 0 \<and>
      Send_result False (reqs c' ! (queued c ! j)) = payload_reply (ps ! j)"
    using k m by (simp add: drained_def)
  show "\<forall>i \<in> set (queued c'). waiting (reqs c' ! i) = 1" using k by (simp add: drained_def client_inv_def)
qed

theorem requests_drain_witness:
  "\<exists>c c' ps'. client_run (\<lambda>n. None) (\<lambda>n. None) [Enqueue [''GET'', ''x''] False, Write, PassOn, Enqueue [''GET'', ''y''] False]
      MakeClient = Some c \<and>
    peer_run (\<lambda>n. None) (\<lambda>n. None) [Read \<lparr>Data = Some OkReply, Err = None\<rparr>, Write, PassOn] (c, [\<lparr>Data = Some OkReply, Err = None\<rparr>]) =
      Some (c', ps') \<and>
    queued c' = [1] \<and> Send_result False (reqs c' ! 0) = Some OkReply \<and> waiting (reqs c' ! 1) = 1"
proof -
  let ?p = "\<lparr>Data = Some OkReply, Err = None\<rparr>"
  let ?q = "\<lambda>as. \<lparr>req_args = as, req_reply = None, heartbeat = False, waiting = 1, req_err = None\<rparr>"
  obtain c where c: "client_run (\<lambda>n. None) (\<lambda>n. None)
      [Enqueue [''GET'', ''x''] False, Write, PassOn, Enqueue [''GET'', ''y''] False] MakeClient = Some c"
    and q: "queued c = [0, 1]" "reqs c = [?q [''GET'', ''x''], ?q [''GET'', ''y'']]"
      "waitingReqs c = [0]" "pendingReqs c = [1]" "inflight c = None"
    by (simp add: MakeClient_def enqueue_def chanSize_def handleWrite_def pass_on_def doRequest_ok queued_def)
  obtain c' ps' where r: "peer_run (\<lambda>n. None) (\<lambda>n. None) [Read ?p, Write, PassOn] (c, [?p]) = Some (c', ps')"
    and e: "ps' = []" "waitingReqs c' = [1]" "pendingReqs c' = []" "inflight c' = None"
    using q by (simp add: handleRead_body_def finishRequest_def handleWrite_def pass_on_def doRequest_ok
        update_req_def req_done_def chanSize_def)
  have "peer_step (\<lambda>n. None) (\<lambda>n. None) ev (c', ps') = None" if "\<not> is_enqueue ev" for ev
    using that e by (cases ev) (simp_all add: is_enqueue_def handleWrite_def pass_on_def)
  moreover have "client_inv c" using client_run_inv [OF client_inv_MakeClient c] .
  ultimately have "queued c' = drop 1 (queued c)" "Send_result False (reqs c' ! (queued c ! 0)) = payload_reply ?p"
      "\<forall>i \<in> set (queued c'). waiting (reqs c' ! i) = 1"
    using requests_drain [OF _ _ _ r] q by (auto simp: is_enqueue_def)
  with q c r show ?thesis by (auto simp: payload_reply_def)
qed

text \<open>
  C37 (reconnect_shifts_replies). A reconnect breaks the matching for good.  Two requests are unanswered when the write
  of a third fails and the client dials again; the old reader reports the end of the old
  connection to the first.  The first payload of the new connection, which answers the third
  request, is then handed to the second, and the third still waits.
\<close>

theorem reconnect_shifts_replies:
  assumes "a \<noteq> []" and "b \<noteq> []" and "d \<noteq> []"
  shows "\<exists>c. client_run (\<lambda>n. if n = 2 then Some 0 else None) (\<lambda>n. None)
      [Enqueue a False, Write, PassOn, Enqueue b False, Write, PassOn, Enqueue d False, Write, PassOn,
       Read \<lparr>Data = None, Err = Some EOF\<rparr>, Read \<lparr>Data = Some r, Err = None\<rparr>] MakeClient = Some c \<and>
    written (wire c) = ToBytes (MultiBulkReply d) \<and>
    Send_result False (reqs c ! 1) = Some r \<and> waiting (reqs c ! 1) = 0 \<and>
    Send_result False (reqs c ! 2) = None \<and> waiting (reqs c ! 2) = 1"
  using assms
  by (simp add: MakeClient_def enqueue_def chanSize_def handleWrite_def pass_on_def doRequest_def
      conn_write_def sink_write_def handleConnectionError_def handleRead_body_def finishRequest_def
      update_req_def req_done_def Send_result_def payload_reply_def MakeMultiBulkReply_def
      eval_nat_numeral Let_def)

theorem reconnect_shifts_replies_witness:
  "\<exists>c. client_run (\<lambda>n. if n = 2 then Some 0 else None) (\<lambda>n. None)
      [Enqueue [''GET'', ''x''] False, Write, PassOn, Enqueue [''GET'', ''y''] False, Write, PassOn, Enqueue [''GET'', ''z''] False, Write, PassOn,
       Read \<lparr>Data = None, Err = Some EOF\<rparr>, Read \<lparr>Data = Some (MultiBulkReply [''z'']), Err = None\<rparr>] MakeClient = Some c \<and>
    written (wire c) = ToBytes (MultiBulkReply [''GET'', ''z'']) \<and>
    Send_result False (reqs c ! 1) = Some (MultiBulkReply [''z'']) \<and> waiting (reqs c ! 1) = 0 \<and>
    Send_result False (reqs c ! 2) = None \<and> waiting (reqs c ! 2) = 1"
  by (rule reconnect_shifts_replies) simp_all

end
