(* ===== verification/Cluster.thy ===== *)
theory Cluster
  imports Standalone ConsistentHash "HOL-Library.AList" "HOL-Library.Multiset"
begin

text \<open>
  \<^verbatim>\<open>cluster/*.go\<close>: one node of a cluster.  It routes a command with one key to the node that
  owns the key on the hash ring, sends DEL and FLUSHDB to every node, and executes the rest
  itself.

  What a node uses beside its own fields is the record \<open>services\<close>, over a world of any
  type: its own database, the pools of clients to its peers (a third-party package), the
  clients' \<^verbatim>\<open>Send\<close>, and the order in which Go ranges over a map.
\<close>

section \<open>A node\<close>

text \<open>\<open>peerConnection\<close> is the set of keys of the map of pools.\<close>

record ClusterDatabase =
  self :: string
  nodes :: "string list"
  peerPicker :: NodeMap
  peerConnection :: "string set"

definition MakeClusterDatabase :: "ServerProperties \<Rightarrow> ClusterDatabase" where
  "MakeClusterDatabase cfg =
     (let ns = Peers cfg @ [Self cfg] in
      \<lparr>self = Self cfg, nodes = ns, peerPicker = AddNodes ns (NewNodeMap None),
       peerConnection = set (Peers cfg)\<rparr>)"

record 'w services =
  db_Exec :: "'w db_exec"
  BorrowObject :: "string \<Rightarrow> 'w \<Rightarrow> (go_error + nat) \<times> 'w"
  ReturnObject :: "string \<Rightarrow> nat \<Rightarrow> 'w \<Rightarrow> 'w"
  Send :: "string \<Rightarrow> nat \<Rightarrow> CmdLine \<Rightarrow> 'w \<Rightarrow> reply option \<times> 'w"
  range_order :: "(string \<times> reply option) list \<Rightarrow> (string \<times> reply option) list"

section \<open>Relaying\<close>

definition getPeerClient ::
  "'w services \<Rightarrow> ClusterDatabase \<Rightarrow> string \<Rightarrow> 'w \<Rightarrow> (go_error + nat) \<times> 'w" where
  "getPeerClient sv cl peer w =
     (if peer \<notin> peerConnection cl then (Inl (ErrorString ''getPeerClient connection not found''), w)
      else BorrowObject sv peer w)"

definition returnPeerClient :: "'w services \<Rightarrow> ClusterDatabase \<Rightarrow> string \<Rightarrow> nat \<Rightarrow> 'w \<Rightarrow> 'w" where
  "returnPeerClient sv cl peer cn w =
     (if peer \<notin> peerConnection cl then w else ReturnObject sv peer cn w)"

definition relay ::
  "'w services \<Rightarrow> ClusterDatabase \<Rightarrow> string \<Rightarrow> 'w \<Rightarrow> Connection \<Rightarrow> CmdLine \<Rightarrow>
     reply option \<times> 'w \<times> Connection" where
  "relay sv cl peer w c as =
     (if peer = self cl then db_Exec sv w c as
      else
        case getPeerClient sv cl peer w of
          (Inl err, w) \<Rightarrow> (Some (MakeErrReply (''relay failed'' @ Error_string err)), w, c)
        | (Inr cn, w) \<Rightarrow>
            (case Send sv peer cn (ToCmdLine2 ''SELECT'' [Itoa (GetDBIndex c)]) w of
               (_, w) \<Rightarrow>
                 (case Send sv peer cn as w of
                    (r, w) \<Rightarrow> (r, returnPeerClient sv cl peer cn w, c))))"

text \<open>The loop over the nodes; \<open>results\<close> is the map, as an association list.\<close>

fun boardcast_loop ::
  "'w services \<Rightarrow> ClusterDatabase \<Rightarrow> string list \<Rightarrow> (string \<times> reply option) list \<Rightarrow> 'w \<Rightarrow> Connection \<Rightarrow> CmdLine \<Rightarrow>
     (string \<times> reply option) list \<times> 'w \<times> Connection" where
  "boardcast_loop sv cl [] results w c as = (results, w, c)"
| "boardcast_loop sv cl (peer # peers) results w c as =
     (case relay sv cl peer w c as of
        (r, w, c) \<Rightarrow> boardcast_loop sv cl peers (AList.update peer r results) w c as)"

definition boardcast ::
  "'w services \<Rightarrow> ClusterDatabase \<Rightarrow> 'w \<Rightarrow> Connection \<Rightarrow> CmdLine \<Rightarrow>
     (string \<times> reply option) list \<times> 'w \<times> Connection" where
  "boardcast sv cl w c as = boardcast_loop sv cl (nodes cl) [] w c as"

section \<open>Commands\<close>

text \<open>A command of the router; a panic keeps the effects made before it.\<close>

type_synonym 'w CmdFunc =
  "'w services \<Rightarrow> ClusterDatabase \<Rightarrow> 'w \<Rightarrow> Connection \<Rightarrow> CmdLine \<Rightarrow> reply option go \<times> 'w \<times> Connection"

definition returns :: "reply option \<times> 'w \<times> Connection \<Rightarrow> reply option go \<times> 'w \<times> Connection" where
  "returns x = (case x of (r, w, c) \<Rightarrow> (Inr r, w, c))"

definition defaultFunc :: "'w CmdFunc" where
  "defaultFunc sv cl w c cmdArgs =
     (case go_index cmdArgs 1 of
        Inl p \<Rightarrow> (Inl p, w, c)
      | Inr key \<Rightarrow> returns (relay sv cl (PickNode key (peerPicker cl)) w c cmdArgs))"

text \<open>
  The loops over the replies stop at the first error; \<open>Inl\<close> is the error reply, which is
  asserted to implement \<^verbatim>\<open>ErrorReply\<close>.
\<close>

definition as_error :: "reply option \<Rightarrow> reply go" where
  "as_error r = (case r of Some x \<Rightarrow> if is_ErrorReply x then Inr x else Inl TypeAssertion | None \<Rightarrow> Inl TypeAssertion)"

fun del_loop :: "(string \<times> reply option) list \<Rightarrow> int64 \<Rightarrow> (reply + int64) go" where
  "del_loop [] successCount = Inr (Inr successCount)"
| "del_loop ((peer, r) # replies) successCount =
     go_bind (IsErrReply r) (\<lambda>isErr.
       if isErr then go_bind (as_error r) (\<lambda>e. Inr (Inl e))
       else
         case r of
           Some (IntReply n) \<Rightarrow> del_loop replies (successCount + n)
         | _ \<Rightarrow> Inr (Inl (MakeErrReply ''ERR Del command failed'')))"

definition Del :: "'w CmdFunc" where
  "Del sv cl w c cmdArgs =
     (case boardcast sv cl w c cmdArgs of
        (replies, w, c) \<Rightarrow>
          (go_bind (del_loop (range_order sv replies) 0) (\<lambda>res.
             case res of Inl errReply \<Rightarrow> Inr (Some errReply) | Inr n \<Rightarrow> Inr (Some (MakeIntReply n))),
           w, c))"

fun flushdb_loop :: "(string \<times> reply option) list \<Rightarrow> reply option go" where
  "flushdb_loop [] = Inr None"
| "flushdb_loop ((peer, r) # replies) =
     go_bind (IsErrReply r) (\<lambda>isErr.
       if isErr then go_bind (as_error r) (\<lambda>e. Inr (Some e)) else flushdb_loop replies)"

definition flushdb :: "'w CmdFunc" where
  "flushdb sv cl w c cmdArgs =
     (case boardcast sv cl w c cmdArgs of
        (replies, w, c) \<Rightarrow>
          (go_bind (flushdb_loop (range_order sv replies)) (\<lambda>errReply.
             case errReply of Some e \<Rightarrow> Inr (Some e) | None \<Rightarrow> Inr (Some OkReply)),
           w, c))"

definition ping :: "'w CmdFunc" where
  "ping sv cl w c cmdArgs = returns (db_Exec sv w c cmdArgs)"

definition cluster_execSelect :: "'w CmdFunc" where
  "cluster_execSelect sv cl w c cmdArgs = returns (db_Exec sv w c cmdArgs)"

definition Rename :: "'w CmdFunc" where
  "Rename sv cl w c cmdArgs =
     (if length cmdArgs \<noteq> 3 then (Inr (Some (ArgNumErrReply ''rename'')), w, c)
      else
        let old = cmdArgs ! 1; cur = cmdArgs ! 2;
            oldPeer = PickNode old (peerPicker cl);
            curPeer = PickNode cur (peerPicker cl)
        in if oldPeer \<noteq> curPeer then
             (Inr (Some (MakeErrReply ''ERR cross slot rename is not allowed'')), w, c)
           else returns (relay sv cl cur w c cmdArgs))"

definition makeRouter :: "string \<rightharpoonup> 'w CmdFunc" where
  "makeRouter = Map.empty
     (''exists'' \<mapsto> defaultFunc, ''del'' \<mapsto> defaultFunc, ''get'' \<mapsto> defaultFunc,
      ''type'' \<mapsto> defaultFunc, ''set'' \<mapsto> defaultFunc, ''setnx'' \<mapsto> defaultFunc,
      ''getset'' \<mapsto> defaultFunc, ''ping'' \<mapsto> ping, ''rename'' \<mapsto> Rename,
      ''renamenx'' \<mapsto> Rename, ''flushdb'' \<mapsto> flushdb, ''del'' \<mapsto> Del,
      ''select'' \<mapsto> cluster_execSelect)"

text \<open>
  \<^verbatim>\<open>Exec\<close>: a panic, in looking up the name included, is recovered and answered.
\<close>

definition Cluster_Exec :: "(nat \<Rightarrow> nat) \<Rightarrow> 'w services \<Rightarrow> ClusterDatabase \<Rightarrow> 'w db_exec" where
  "Cluster_Exec u sv cl w c as =
     (case go_index as 0 of
        Inl p \<Rightarrow> (Some UnknowErrReply, w, c)
      | Inr name \<Rightarrow>
          let CmdName = ToLower u name in
          case makeRouter CmdName of
            Some cmdFunc \<Rightarrow>
              (case cmdFunc sv cl w c as of
                 (Inl p, w, c) \<Rightarrow> (Some UnknowErrReply, w, c)
               | (Inr r, w, c) \<Rightarrow> (r, w, c))
          | None \<Rightarrow>
              (Some (MakeErrReply (''ERR unknown command '' @ [QUOTE] @ CmdName @ [QUOTE])), w, c))"

lemmas cluster_commands = defaultFunc_def Del_def flushdb_def ping_def cluster_execSelect_def Rename_def

lemma makeRouter_simps [simp]:
  "makeRouter ''exists'' = Some defaultFunc" "makeRouter ''get'' = Some defaultFunc"
  "makeRouter ''type'' = Some defaultFunc" "makeRouter ''set'' = Some defaultFunc"
  "makeRouter ''setnx'' = Some defaultFunc" "makeRouter ''getset'' = Some defaultFunc"
  "makeRouter ''ping'' = Some ping" "makeRouter ''rename'' = Some Rename"
  "makeRouter ''renamenx'' = Some Rename" "makeRouter ''flushdb'' = Some flushdb"
  "makeRouter ''del'' = Some Del" "makeRouter ''select'' = Some cluster_execSelect"
  "makeRouter ''strlen'' = None" "makeRouter ''keys'' = None"
  by (simp_all add: makeRouter_def)

lemma makeRouter_cases:
  assumes "makeRouter name = Some f"
  obtains (default) "f = defaultFunc" "name \<in> {''exists'', ''get'', ''type'', ''set'', ''setnx'', ''getset''}"
  | (del) "f = Del" "name = ''del''"
  | (flush) "f = flushdb" "name = ''flushdb''"
  | (ping) "f = ping" "name = ''ping''"
  | (select) "f = cluster_execSelect" "name = ''select''"
  | (rename) "f = Rename" "name \<in> {''rename'', ''renamenx''}"
  using assms by (auto simp: makeRouter_def split: if_splits)

section \<open>What services keep, a node keeps\<close>

text \<open>
  A predicate of the world and the client that every service keeps is kept by every command.
\<close>

locale kept_by_services =
  fixes sv :: "'w services" and P :: "'w \<Rightarrow> Connection \<Rightarrow> bool"
  assumes db_keeps: "P w c \<Longrightarrow> as \<noteq> [] \<Longrightarrow> db_Exec sv w c as = (r, w', c') \<Longrightarrow> P w' c' \<and> conn c' = conn c"
    and borrow_keeps: "P w c \<Longrightarrow> BorrowObject sv peer w = (x, w') \<Longrightarrow> P w' c"
    and return_keeps: "P w c \<Longrightarrow> P (ReturnObject sv peer i w) c"
    and send_keeps: "P w c \<Longrightarrow> as \<noteq> [] \<Longrightarrow> Send sv peer i as w = (r, w') \<Longrightarrow> P w' c"
begin

lemma relay_keeps:
  assumes "P w c" and "as \<noteq> []" and "relay sv cl peer w c as = (r, w', c')"
  shows "P w' c' \<and> conn c' = conn c"
proof (cases "peer = self cl")
  case True
  with assms(3) have "db_Exec sv w c as = (r, w', c')" by (simp add: relay_def)
  from db_keeps [OF assms(1,2) this] show ?thesis .
next
  case False
  obtain x w1 where g: "getPeerClient sv cl peer w = (x, w1)" by (cases "getPeerClient sv cl peer w")
  have P1: "P w1 c" using g assms(1) borrow_keeps by (auto simp: getPeerClient_def split: if_splits)
  show ?thesis
  proof (cases x)
    case (Inl e)
    with g P1 assms(3) False show ?thesis by (auto simp: relay_def)
  next
    case (Inr i)
    obtain r2 w2 where s: "Send sv peer i (ToCmdLine2 ''SELECT'' [Itoa (GetDBIndex c)]) w1 = (r2, w2)"
      by (cases "Send sv peer i (ToCmdLine2 ''SELECT'' [Itoa (GetDBIndex c)]) w1")
    obtain r3 w3 where t: "Send sv peer i as w2 = (r3, w3)" by (cases "Send sv peer i as w2")
    have "P w3 c" using send_keeps [OF send_keeps [OF P1 _ s] assms(2) t] by (simp add: ToCmdLine2_def)
    then have "P (returnPeerClient sv cl peer i w3) c" by (simp add: returnPeerClient_def return_keeps)
    with False g Inr s t assms(3) show ?thesis by (auto simp: relay_def)
  qed
qed

lemma boardcast_loop_keeps:
  "P w c \<Longrightarrow> as \<noteq> [] \<Longrightarrow> boardcast_loop sv cl peers results w c as = (rs, w', c') \<Longrightarrow>
   P w' c' \<and> conn c' = conn c"
proof (induction peers arbitrary: results w c)
  case Nil
  then show ?case by simp
next
  case (Cons peer peers)
  obtain r w1 c1 where "relay sv cl peer w c as = (r, w1, c1)" by (cases "relay sv cl peer w c as")
  with relay_keeps [OF Cons.prems(1,2) this] Cons show ?case by fastforce
qed

lemma CmdFunc_keeps:
  assumes "P w c" and "as \<noteq> []" and "makeRouter name = Some f" and "f sv cl w c as = (x, w', c')"
  shows "P w' c' \<and> conn c' = conn c"
  using assms(3)
proof (cases rule: makeRouter_cases)
  case default
  with assms relay_keeps [OF assms(1,2)] show ?thesis
    by (auto simp: defaultFunc_def returns_def split: sum.splits prod.splits)
next
  case del
  with assms boardcast_loop_keeps [OF assms(1,2)] show ?thesis
    by (auto simp: Del_def boardcast_def split: prod.splits)
next
  case flush
  with assms boardcast_loop_keeps [OF assms(1,2)] show ?thesis
    by (auto simp: flushdb_def boardcast_def split: prod.splits)
next
  case ping
  with assms db_keeps [OF assms(1,2)] show ?thesis by (auto simp: ping_def returns_def split: prod.splits)
next
  case select
  with assms db_keeps [OF assms(1,2)] show ?thesis
    by (auto simp: cluster_execSelect_def returns_def split: prod.splits)
next
  case rename
  with assms relay_keeps [OF assms(1,2)] show ?thesis
    by (auto simp: Rename_def returns_def Let_def split: prod.splits if_splits)
qed

lemma Cluster_Exec_keeps:
  assumes "P w c" and "as \<noteq> []" and "Cluster_Exec u sv cl w c as = (r, w', c')"
  shows "P w' c' \<and> conn c' = conn c"
proof (cases "makeRouter (ToLower u (hd as)) :: 'w CmdFunc option")
  case None
  with assms show ?thesis by (cases as) (auto simp: Cluster_Exec_def Let_def)
next
  case (Some f)
  obtain x w1 c1 where f: "f sv cl w c as = (x, w1, c1)" by (cases "f sv cl w c as")
  with assms Some have "w' = w1" "c' = c1"
    by (cases as; cases x; auto simp: Cluster_Exec_def Let_def)+
  with CmdFunc_keeps [OF assms(1,2) Some f] show ?thesis by simp
qed

end

section \<open>Adding up deletions\<close>

lemma sum_list_permuted:
  fixes f :: "'a \<Rightarrow> 'b :: comm_monoid_add"
  assumes "mset xs = mset ys"
  shows "sum_list (map f xs) = sum_list (map f ys)"
proof -
  have "mset (map f xs) = mset (map f ys)" using assms by simp
  then show ?thesis by (metis sum_mset_sum_list)
qed

lemma del_loop_Some:
  assumes "r \<noteq> NoReply"
  shows "del_loop ((peer, Some r) # rs) n =
    (case r of IntReply k \<Rightarrow> del_loop rs (n + k)
     | _ \<Rightarrow> Inr (Inl (if is_ErrorReply r then r else MakeErrReply ''ERR Del command failed'')))"
  using assms by (cases r) (simp_all add: IsErrReply_Some is_ErrorReply_def as_error_def)

lemma del_loop_ints:
  "\<forall>x \<in> set rs. snd x = Some (IntReply (k x)) \<Longrightarrow> del_loop rs n = Inr (Inr (n + sum_list (map k rs)))"
proof (induction rs arbitrary: n)
  case Nil
  then show ?case by simp
next
  case (Cons x rs)
  then have "x = (fst x, Some (IntReply (k x)))" by (cases x) simp
  with Cons del_loop_Some [of "IntReply (k x)" "fst x" rs n] show ?case by (simp add: add.assoc)
qed

lemma del_loop_error:
  "\<forall>x \<in> set rs. \<exists>r. snd x = Some r \<and> r \<noteq> NoReply \<Longrightarrow> \<exists>x \<in> set rs. \<forall>n. snd x \<noteq> Some (IntReply n) \<Longrightarrow>
   \<exists>e. del_loop rs n = Inr (Inl e) \<and> is_ErrorReply e"
proof (induction rs arbitrary: n)
  case Nil
  then show ?case by simp
next
  case (Cons x rs)
  then obtain peer r where x: "x = (peer, Some r)" "r \<noteq> NoReply" by (cases x) auto
  have m: "is_ErrorReply (MakeErrReply t)" for t by (simp add: MakeErrReply_def is_ErrorReply_def)
  show ?case
  proof (cases "\<exists>k. r = IntReply k")
    case True
    then obtain k where k: "r = IntReply k" by blast
    with x Cons.prems have "\<exists>x \<in> set rs. \<forall>n. snd x \<noteq> Some (IntReply n)" by auto
    from Cons.IH [OF _ this, of "n + k"] Cons.prems(1) x k show ?thesis
      by (simp add: del_loop_Some del: del_loop.simps)
  next
    case False
    with x m show ?thesis by (cases r) (simp_all add: del_loop_Some del: del_loop.simps)
  qed
qed

section \<open>Properties\<close>

text \<open>The number in an integer reply.\<close>

fun reply_int :: "reply option \<Rightarrow> int64" where
  "reply_int (Some (IntReply n)) = n"
| "reply_int _ = 0"

text \<open>
  C28 (del_adds_up). DEL in a cluster answers the sum of the nodes' counts, wrapping at 64 bits, when every node
  answers a number, and an error otherwise, in whatever order Go ranges over the replies.
\<close>

theorem del_adds_up:
  assumes "\<forall>xs. mset (range_order sv xs) = mset xs" and "boardcast sv cl w c as = (rs, w', c')"
    and "\<forall>x \<in> set rs. \<exists>r. snd x = Some r \<and> r \<noteq> NoReply"
  shows "\<exists>a. Del sv cl w c as = (Inr (Some a), w', c') \<and>
    (if \<forall>x \<in> set rs. \<exists>n. snd x = Some (IntReply n)
     then a = IntReply (sum_list (map (\<lambda>x. reply_int (snd x)) rs)) else is_ErrorReply a)"
proof -
  let ?xs = "range_order sv rs" and ?k = "\<lambda>x. reply_int (snd x)"
  have m: "mset ?xs = mset rs" using assms(1) by blast
  then have s: "set ?xs = set rs" by (rule mset_eq_setD)
  show ?thesis
  proof (cases "\<forall>x \<in> set rs. \<exists>n. snd x = Some (IntReply n)")
    case True
    then have "\<forall>x \<in> set ?xs. snd x = Some (IntReply (?k x))" unfolding s by (metis reply_int.simps(1))
    moreover note sum_list_permuted [OF m, of ?k]
    ultimately show ?thesis using True assms(2) del_loop_ints [of ?xs ?k 0]
      by (simp add: Del_def MakeIntReply_def)
  next
    case False
    with s assms(3) obtain e where "del_loop ?xs 0 = Inr (Inl e)" "is_ErrorReply e"
      using del_loop_error [of ?xs 0] by auto
    with assms(2) show ?thesis unfolding if_not_P [OF False] by (simp add: Del_def)
  qed
qed

theorem del_adds_up_witness:
  "\<exists>a. Del \<lparr>db_Exec = (\<lambda>w c as. (Some (IntReply 2), w, c)), BorrowObject = (\<lambda>peer w. (Inr 0, w)),
        ReturnObject = (\<lambda>peer i w. w), Send = (\<lambda>peer i as w. (Some (IntReply 1), w)), range_order = rev\<rparr>
      \<lparr>self = ''a'', nodes = [''b'', ''c'', ''a''], peerPicker = NewNodeMap None, peerConnection = {''b'', ''c''}\<rparr>
      () fake_connection [''del'', ''k''] = (Inr (Some a), (), fake_connection) \<and> a = IntReply 4"
proof -
  let ?sv = "\<lparr>db_Exec = (\<lambda>w c as. (Some (IntReply 2), w, c)), BorrowObject = (\<lambda>peer w. (Inr 0, w)),
        ReturnObject = (\<lambda>peer i w. w), Send = (\<lambda>peer i as w. (Some (IntReply 1), w)), range_order = rev\<rparr>"
  let ?cl = "\<lparr>self = ''a'', nodes = [''b'', ''c'', ''a''], peerPicker = NewNodeMap None, peerConnection = {''b'', ''c''}\<rparr>"
  have "boardcast ?sv ?cl () fake_connection [''del'', ''k''] =
      ([(''b'', Some (IntReply 1)), (''c'', Some (IntReply 1)), (''a'', Some (IntReply 2))], (), fake_connection)"
    by (simp add: boardcast_def relay_def getPeerClient_def returnPeerClient_def)
  from del_adds_up [OF _ this] show ?thesis by simp
qed

text \<open>
  RENAME of two keys of the same owner is relayed to the node with the name of the new key,
  not to the owner.  Unless the new key is the name of a node, it fails and changes nothing,
  even when the node owns both keys itself.
\<close>

theorem rename_never_leaves_the_node:
  fixes sv :: "'w services"
  assumes "ToLower u name \<in> {''rename'', ''renamenx''}"
    and "PickNode old (peerPicker cl) = PickNode new (peerPicker cl)"
    and "new \<noteq> self cl" and "new \<notin> peerConnection cl"
  shows "Cluster_Exec u sv cl w c [name, old, new] =
    (Some (StandardErrReply ''relay failedgetPeerClient connection not found''), w, c)"
proof -
  have "makeRouter (ToLower u name) = Some (Rename :: 'w CmdFunc)" using assms(1) by auto
  with assms(2-4) show ?thesis
    by (simp add: Cluster_Exec_def Rename_def returns_def relay_def getPeerClient_def MakeErrReply_def)
qed

theorem rename_never_leaves_the_node_witness:
  "Cluster_Exec id \<lparr>db_Exec = (\<lambda>w c as. (Some OkReply, w, c)), BorrowObject = (\<lambda>peer w. (Inr 0, w)),
        ReturnObject = (\<lambda>peer i w. w), Send = (\<lambda>peer i as w. (Some OkReply, w)), range_order = id\<rparr>
      (MakeClusterDatabase (zero_properties\<lparr>Self := ''a''\<rparr>)) () fake_connection [''RENAME'', ''k'', ''l''] =
    (Some (StandardErrReply ''relay failedgetPeerClient connection not found''), (), fake_connection)"
proof (rule rename_never_leaves_the_node)
  show "ToLower id ''RENAME'' \<in> {''rename'', ''renamenx''}"
    by (subst ToLower_ascii) (simp_all add: ascii_def ascii_lower_def char_of_eq_iff)
qed (simp_all add: MakeClusterDatabase_def zero_properties_def AddNodes_def AddNode_def NewNodeMap_def
      PickNode_def IsEmpty_def sort_Search_def search_loop.simps Let_def)

end
