(* ===== verification/Network.thy ===== *)
theory Network
  imports Cluster Client Handler
begin

text \<open>
  The nodes of a cluster connected with each other: the services of \<open>Cluster\<close>, given by the
  other components of the program.  A node's database is a standalone server.  \<^verbatim>\<open>Send\<close> puts the
  serialised request on the client's connection; the peer's parser and handler execute what
  has arrived, with the peer's own cluster database; the client's parser reads the replies,
  and the \<open>n\<close>-th one goes to the \<open>n\<close>-th request (\<open>Client.replies_go_to_their_requests\<close>).

  Requests of clients outside the cluster are executed one at a time.  Connections between
  nodes do not fail.  The pool (a third-party package) is the parameter \<open>pool\<close>: the number of
  the client it lends when some are lent already, or \<open>None\<close> when it has none to lend, as its default
  configuration with at most eight clients does.  \<^verbatim>\<open>BorrowObject\<close> then waits for one to be returned.
  A request executed by a peer may relay again; \<open>fuel\<close> bounds the depth of this.

  \<open>stuck\<close> records that the request came to a point it does not get past by itself: a client was to be
  borrowed when none was left, or the bound on the depth was reached.  Every client on the way there is
  lent to a call that waits further up, so only the time-out of such a call lets the request go on.  What
  the definitions give once \<open>stuck\<close> is set is not claimed to be what the program does.
\<close>

section \<open>The world\<close>

text \<open>
  \<open>requests\<close> are the bytes the client has sent and \<open>asked\<close> the number of requests in them;
  \<open>seen\<close> payloads of them have been handled on \<open>server_side\<close>, the peer's connection object,
  whose sink holds the bytes that go back.  \<open>up\<close> says that the peer still serves it.
\<close>

record link =
  requests :: bytes
  asked :: nat
  seen :: nat
  server_side :: Connection
  up :: bool

definition new_link :: link where
  "new_link = \<lparr>requests = [], asked = 0, seen = 0, server_side = NewConnection \<lparr>written = [], writes = 0\<rparr>, up = True\<rparr>"

record node =
  node_env :: env
  node_cluster :: ClusterDatabase
  node_db :: StandaloneDatabase

record world =
  node_at :: "string \<rightharpoonup> node"
  links :: "string \<times> string \<times> nat \<Rightarrow> link"
  lent :: "string \<times> string \<Rightarrow> nat set"
  stuck :: bool

section \<open>Services\<close>

definition local_exec :: "string \<Rightarrow> world db_exec" where
  "local_exec a w c as =
     (case node_at w a of
        None \<Rightarrow> (None, w, c)
      | Some nd \<Rightarrow>
          (case Exec (node_env nd) (node_db nd) c as of
             (r, d, c) \<Rightarrow> (r, w\<lparr>node_at := (node_at w)(a \<mapsto> nd\<lparr>node_db := d\<rparr>)\<rparr>, c)))"

text \<open>Borrowing waits when the pool has no client left, and fails when the peer cannot be dialled.\<close>

type_synonym pool = "nat set \<Rightarrow> nat option"

definition borrow :: "pool \<Rightarrow> string \<Rightarrow> string \<Rightarrow> world \<Rightarrow> (go_error + nat) \<times> world" where
  "borrow pool a b w =
     (case pool (lent w (a, b)) of
        None \<Rightarrow> (Inl (NetError ''waiting for a client''), w\<lparr>stuck := True\<rparr>)
      | Some i \<Rightarrow>
          (case node_at w b of
             None \<Rightarrow> (Inl (NetError ''connection refused''), w)
           | Some nd \<Rightarrow> (Inr i, w\<lparr>lent := (lent w)((a, b) := insert i (lent w (a, b)))\<rparr>)))"

definition give_back :: "string \<Rightarrow> string \<Rightarrow> nat \<Rightarrow> world \<Rightarrow> world" where
  "give_back a b i w = w\<lparr>lent := (lent w)((a, b) := lent w (a, b) - {i})\<rparr>"

text \<open>
  The payloads a parser has sent when these bytes have arrived on a stream that stays open:
  those before the error it would report if the stream ended here.
\<close>

definition arrived :: "bytes \<Rightarrow> payload list" where
  "arrived bs =
     (case ParseStream \<lparr>unread = bs, read_err = EOF\<rparr> of
        (ps, Closed) \<Rightarrow> butlast ps
      | (ps, Abandoned p) \<Rightarrow> ps)"

text \<open>The peer handles what has arrived since; the handler stops only by closing.\<close>

definition serve_link :: "world db_exec \<Rightarrow> link \<Rightarrow> world \<Rightarrow> link \<times> world" where
  "serve_link exec l w =
     (if \<not> up l then (l, w)
      else
        let ps = arrived (requests l) in
        case handle_payloads exec (\<lambda>n. None) (drop (seen l) ps) Closed w (server_side l) of
          (e, w, c) \<Rightarrow> (l\<lparr>seen := length ps, server_side := c, up := (e = ChannelClosed)\<rparr>, w))"

text \<open>
  The reply to the last request: that many payloads must have come back, the last one the end
  of the stream when the peer has closed the connection.  Otherwise the client times out.
\<close>

definition answer :: "CmdLine \<Rightarrow> link \<Rightarrow> reply option" where
  "answer as l =
     (let rs = arrived (sent_bytes (server_side l)) @ (if up l then [] else [\<lparr>Data = None, Err = Some EOF\<rparr>]);
          timeout = (length rs < asked l);
          r = (if timeout then None else payload_reply (rs ! (asked l - 1)))
      in Send_result timeout
           \<lparr>req_args = as, req_reply = r, heartbeat = False, waiting = (if timeout then 1 else 0), req_err = None\<rparr>)"

text \<open>\<^verbatim>\<open>doRequest\<close> drops a request without arguments, and its sender times out.\<close>

definition link_send :: "world db_exec \<Rightarrow> CmdLine \<Rightarrow> link \<Rightarrow> world \<Rightarrow> reply option \<times> link \<times> world" where
  "link_send exec as l w =
     (if length as = 0 then (Some (MakeErrReply ''server time out''), l, w)
      else
        let l = l\<lparr>requests := requests l @ ToBytes (MakeMultiBulkReply as), asked := asked l + 1\<rparr> in
        case serve_link exec l w of (l, w) \<Rightarrow> (answer as l, l, w))"

fun services ::
  "pool \<Rightarrow> ((string \<times> reply option) list \<Rightarrow> (string \<times> reply option) list) \<Rightarrow> nat \<Rightarrow> string \<Rightarrow>
     world services" where
  "services pool order 0 a =
     \<lparr>db_Exec = local_exec a, BorrowObject = borrow pool a, ReturnObject = give_back a,
      Send = (\<lambda>b i as w. (Some (MakeErrReply ''server time out''), w\<lparr>stuck := True\<rparr>)),
      range_order = order\<rparr>"
| "services pool order (Suc fuel) a =
     \<lparr>db_Exec = local_exec a, BorrowObject = borrow pool a, ReturnObject = give_back a,
      Send = (\<lambda>b i as w.
        case node_at w b of
          None \<Rightarrow> (Some (MakeErrReply ''server time out''), w)
        | Some nd \<Rightarrow>
            (case link_send (Cluster_Exec (fst (node_env nd)) (services pool order fuel b) (node_cluster nd))
                    as (links w (a, b, i)) w of
               (r, l, w) \<Rightarrow> (r, w\<lparr>links := (links w)((a, b, i) := l)\<rparr>))),
      range_order = order\<rparr>"

text \<open>A request of a client of node \<open>a\<close>.\<close>

definition node_Exec ::
  "pool \<Rightarrow> ((string \<times> reply option) list \<Rightarrow> (string \<times> reply option) list) \<Rightarrow> nat \<Rightarrow> string \<Rightarrow>
     world db_exec" where
  "node_Exec pool order fuel a w c as =
     (case node_at w a of
        None \<Rightarrow> (None, w, c)
      | Some nd \<Rightarrow> Cluster_Exec (fst (node_env nd)) (services pool order fuel a) (node_cluster nd) w c as)"

section \<open>Streams that stay open\<close>

lemma arrived_ok: "list_all payload_ok (arrived bs)"
proof -
  obtain ps fin where p: "parse_loop \<lparr>unread = bs, read_err = EOF\<rparr> init_state = (ps, fin)"
    by (cases "parse_loop \<lparr>unread = bs, read_err = EOF\<rparr> init_state")
  then have "list_all payload_ok ps" using parse_loop_payloads [OF state_inv_init p] by (simp add: list_all_iff)
  moreover have "list_all payload_ok (butlast ps)" using calculation by (auto simp: list_all_iff dest: in_set_butlastD)
  ultimately show ?thesis using p by (auto simp: arrived_def ParseStream_def parse0_def split: parse_end.splits)
qed

lemma arrived_commands: "\<forall>cmd \<in> set cmds. clean_cmd cmd \<Longrightarrow> arrived (log_bytes cmds) = map command_payload cmds"
  using parse_commands [of cmds "[]" EOF]
  by (simp add: arrived_def ParseStream_def parse0_def log_bytes_def)

lemma parse_replies:
  "\<forall>r \<in> set rs. wire_safe r \<Longrightarrow>
   parse_loop \<lparr>unread = concat (map ToBytes rs) @ rest, read_err = e\<rparr> init_state =
     (map (\<lambda>r. \<lparr>Data = Some (received r), Err = None\<rparr>) rs @ fst (parse_loop \<lparr>unread = rest, read_err = e\<rparr> init_state),
      snd (parse_loop \<lparr>unread = rest, read_err = e\<rparr> init_state))"
  by (induction rs) (simp_all add: parse_reply)

lemma arrived_replies:
  "\<forall>r \<in> set rs. wire_safe r \<Longrightarrow>
   arrived (concat (map ToBytes rs)) = map (\<lambda>r. \<lparr>Data = Some (received r), Err = None\<rparr>) rs"
  using parse_replies [of rs "[]" EOF] by (simp add: arrived_def ParseStream_def parse0_def)

section \<open>Connections in step\<close>

text \<open>
  A connection is in step when clean commands have been sent, all have been handled, and as
  many replies that are safe to send have come back.
\<close>

definition in_step :: "link \<Rightarrow> bool" where
  "in_step l \<longleftrightarrow> up l \<and>
     (\<exists>cmds. requests l = log_bytes cmds \<and> (\<forall>cmd \<in> set cmds. clean_cmd cmd) \<and> seen l = length cmds) \<and>
     (\<exists>rs s. conn (server_side l) = Some s \<and> written s = concat (map ToBytes rs) \<and>
        (\<forall>r \<in> set rs. wire_safe r) \<and> length rs = asked l)"

lemma in_step_new: "in_step new_link"
  unfolding in_step_def
proof (intro conjI)
  show "\<exists>cmds. requests new_link = log_bytes cmds \<and> (\<forall>cmd \<in> set cmds. clean_cmd cmd) \<and> seen new_link = length cmds"
    by (rule exI [of _ "[]"]) (simp add: new_link_def)
  show "\<exists>rs s. conn (server_side new_link) = Some s \<and> written s = concat (map ToBytes rs) \<and>
      (\<forall>r \<in> set rs. wire_safe r) \<and> length rs = asked new_link"
    by (rule exI [of _ "[]"]) (simp add: new_link_def NewConnection_def)
qed (simp add: new_link_def)

text \<open>
  One clean command on a connection in step: the peer executes it once, on the server's side
  of the connection, and the client obtains the reply as its parser reads it.
\<close>

lemma link_send_step:
  assumes "in_step l" and "clean_cmd as" and "exec w (server_side l) as = (Some r, w', c')"
    and "conn c' = conn (server_side l)" and "wire_safe r"
  shows "\<exists>l'. link_send exec as l w = (Some (received r), l', w') \<and> in_step l' \<and>
    selectedDB (server_side l') = selectedDB c'"
proof -
  from assms(1) obtain cmds rs s where up: "up l" and
    req: "requests l = log_bytes cmds" "\<forall>cmd \<in> set cmds. clean_cmd cmd" "seen l = length cmds" and
    rep: "conn (server_side l) = Some s" "written s = concat (map ToBytes rs)" "\<forall>r \<in> set rs. wire_safe r"
      "length rs = asked l"
    unfolding in_step_def by blast
  let ?s = "\<lparr>written = written s @ ToBytes r, writes = writes s + 1\<rparr>"
  let ?c = "c'\<lparr>conn := Some ?s\<rparr>"
  let ?l = "l\<lparr>requests := log_bytes (cmds @ [as]), asked := asked l + 1, seen := length (cmds @ [as]), server_side := ?c,
    up := True\<rparr>"
  have clean: "\<forall>cmd \<in> set (cmds @ [as]). clean_cmd cmd" using req(2) assms(2) by simp
  have sent: "requests l @ ToBytes (MakeMultiBulkReply as) = log_bytes (cmds @ [as])"
    by (simp add: req(1) MakeMultiBulkReply_def)
  have ps: "drop (seen l) (arrived (log_bytes (cmds @ [as]))) = [command_payload as]"
    using arrived_commands [OF clean] req(3) by simp
  have "ToBytes r \<noteq> []" using assms(5) by (auto simp: ToBytes_empty_iff)
  then have "Connection_Write (\<lambda>n. None) (ToBytes r) c' = Inr (True, ?c)"
    using Connection_Write_ok [of c' s "\<lambda>n. None" "ToBytes r"] assms(4) rep(1) by simp
  then have h: "handle_payloads exec (\<lambda>n. None) [command_payload as] Closed w (server_side l) = (ChannelClosed, w', ?c)"
    using assms(3) by (simp add: handle_payload_def command_payload_def execute_def reply_bytes_def)
  have "serve_link exec (l\<lparr>requests := log_bytes (cmds @ [as]), asked := asked l + 1\<rparr>) w = (?l, w')"
    using up ps h arrived_commands [OF clean] by (simp add: serve_link_def Let_def)
  moreover have safe: "\<forall>x \<in> set (rs @ [r]). wire_safe x" using rep(3) assms(5) by simp
  have "answer as ?l = Some (received r)"
    using arrived_replies [OF safe] rep(2,4)
    by (simp add: answer_def sent_bytes_def Send_result_def payload_reply_def Let_def nth_append)
  moreover have "as \<noteq> []" using assms(2) by (auto simp: clean_cmd_def)
  ultimately have "link_send exec as l w = (Some (received r), ?l, w')"
    by (simp add: link_send_def sent)
  moreover have "in_step ?l" unfolding in_step_def
  proof (intro conjI)
    show "\<exists>cmds. requests ?l = log_bytes cmds \<and> (\<forall>cmd \<in> set cmds. clean_cmd cmd) \<and> seen ?l = length cmds"
      by (rule exI [of _ "cmds @ [as]"]) (use clean in simp)
    show "\<exists>rs s. conn (server_side ?l) = Some s \<and> written s = concat (map ToBytes rs) \<and>
        (\<forall>r \<in> set rs. wire_safe r) \<and> length rs = asked ?l"
      by (rule exI [of _ "rs @ [r]"]) (use safe rep in simp)
  qed simp
  ultimately show ?thesis by auto
qed

section \<open>What the network keeps\<close>

text \<open>
  The shape of a network: each node's settings, cluster database and number of databases.
\<close>

type_synonym shape = "string \<rightharpoonup> env \<times> ClusterDatabase \<times> nat"

definition shape :: "world \<Rightarrow> shape" where
  "shape w a = map_option (\<lambda>nd. (node_env nd, node_cluster nd, length (dbSet (node_db nd)))) (node_at w a)"

definition conn_in :: "shape \<Rightarrow> string \<Rightarrow> Connection \<Rightarrow> bool" where
  "conn_in sh a c \<longleftrightarrow> (\<exists>e cl n. sh a = Some (e, cl, n) \<and> 0 \<le> selectedDB c \<and> selectedDB c < int n)"

definition net_inv :: "world \<Rightarrow> bool" where
  "net_inv w \<longleftrightarrow> (\<forall>a nd. node_at w a = Some nd \<longrightarrow> sa_inv (node_db nd)) \<and>
     (\<forall>a b i. node_at w b \<noteq> None \<longrightarrow>
        conn (server_side (links w (a, b, i))) \<noteq> None \<and> conn_in (shape w) b (server_side (links w (a, b, i))))"

text \<open>The network is in order, has this shape, and is stuck if it was; so is a client of node \<open>a\<close>.\<close>

definition net_ok :: "shape \<Rightarrow> bool \<Rightarrow> world \<Rightarrow> bool" where
  "net_ok sh s w \<longleftrightarrow> net_inv w \<and> shape w = sh \<and> (s \<longrightarrow> stuck w)"

lemma shape_Some: "shape w a = Some (e, cl, n) \<longleftrightarrow>
    (\<exists>nd. node_at w a = Some nd \<and> node_env nd = e \<and> node_cluster nd = cl \<and> length (dbSet (node_db nd)) = n)"
  by (auto simp: shape_def)

lemma shape_None: "shape w a = None \<longleftrightarrow> node_at w a = None"
  by (simp add: shape_def)

lemma net_ok_frame:
  assumes "net_ok sh s w" and "node_at w' = node_at w" and "links w' = links w" and "stuck w \<longrightarrow> stuck w'"
  shows "net_ok sh s w'"
proof -
  have "shape w' = shape w" using assms(2) by (simp add: shape_def fun_eq_iff)
  with assms show ?thesis by (auto simp: net_ok_def net_inv_def)
qed

lemma net_ok_link:
  assumes "net_ok sh s w" and "conn (server_side l) \<noteq> None" and "conn_in sh b (server_side l)"
  shows "net_ok sh s (w\<lparr>links := (links w)((a, b, i) := l)\<rparr>)"
proof -
  have "shape (w\<lparr>links := (links w)((a, b, i) := l)\<rparr>) = shape w" by (simp add: shape_def fun_eq_iff)
  with assms show ?thesis by (auto simp: net_ok_def net_inv_def)
qed

lemma local_exec_keeps:
  assumes "net_ok sh s w" and "conn_in sh a c" and "as \<noteq> []" and "local_exec a w c as = (r, w', c')"
  shows "net_ok sh s w' \<and> conn_in sh a c' \<and> conn c' = conn c \<and> (\<exists>x. r = Some x \<and> x \<noteq> NoReply)"
proof -
  from assms(1,2) obtain nd where nd: "node_at w a = Some nd" "sa_inv (node_db nd)"
    "0 \<le> selectedDB c" "selectedDB c < int (length (dbSet (node_db nd)))" and sh: "shape w = sh"
    by (auto simp: net_ok_def net_inv_def conn_in_def shape_Some)
  obtain d where e: "Exec (node_env nd) (node_db nd) c as = (r, d, c')"
      and w': "w' = w\<lparr>node_at := (node_at w)(a \<mapsto> nd\<lparr>node_db := d\<rparr>)\<rparr>"
    using assms(4) nd(1) by (auto simp: local_exec_def split: prod.splits)
  obtain u cfg disk where env: "node_env nd = (u, cfg, disk)" by (cases "node_env nd") auto
  have ok: "sa_conn_ok (node_db nd) c" using nd by (simp add: sa_conn_ok_def)
  from Exec_keeps [OF nd(2) ok assms(3) e [unfolded env]]
  have k: "\<exists>x. r = Some x \<and> x \<noteq> NoReply" "sa_inv d" "sa_conn_ok d c'" "conn c' = conn c"
    "length (dbSet d) = length (dbSet (node_db nd))" by auto
  have sh': "shape w' = shape w" using nd(1) k(5) by (auto simp: w' shape_def fun_eq_iff)
  have "net_inv w'" unfolding net_inv_def
  proof (intro conjI allI impI)
    fix x ndx assume "node_at w' x = Some ndx"
    then show "sa_inv (node_db ndx)" using k(2) assms(1) w'
      by (auto simp: net_ok_def net_inv_def split: if_splits)
  next
    fix x b i assume "node_at w' b \<noteq> None"
    then have "node_at w b \<noteq> None" using nd(1) w' by (auto split: if_splits)
    with assms(1) w' sh' show "conn (server_side (links w' (x, b, i))) \<noteq> None"
      "conn_in (shape w') b (server_side (links w' (x, b, i)))" by (auto simp: net_ok_def net_inv_def)
  qed
  moreover have "sh a = Some (node_env nd, node_cluster nd, length (dbSet (node_db nd)))"
    using sh nd(1) by (auto simp: shape_Some)
  then have "conn_in sh a c'" using k(3,5) unfolding conn_in_def sa_conn_ok_def by metis
  moreover have "stuck w' = stuck w" by (simp add: w')
  ultimately show ?thesis using k(1,4) sh sh' assms(1) by (simp add: net_ok_def)
qed

lemma borrow_keeps:
  assumes "net_ok sh s w" and "borrow pool a b w = (x, w')"
  shows "net_ok sh s w'"
  using assms(2) by (intro net_ok_frame [OF assms(1)]) (auto simp: borrow_def split: option.splits)

lemma give_back_keeps: "net_ok sh s w \<Longrightarrow> net_ok sh s (give_back a b i w)"
  by (erule net_ok_frame) (simp_all add: give_back_def)

text \<open>A cluster database whose services keep the network in order can serve connections.\<close>

lemma node_is_stable:
  assumes "kept_by_services sv (\<lambda>w c. net_ok sh s w \<and> conn_in sh b c)"
  shows "stable_client (Cluster_Exec u sv cl) (net_ok sh s) (\<lambda>w c. conn_in sh b c)"
proof
  show "net_ok sh s w \<Longrightarrow> conn_in sh b c \<Longrightarrow> as \<noteq> [] \<Longrightarrow> Cluster_Exec u sv cl w c as = (r, w', c') \<Longrightarrow>
      net_ok sh s w' \<and> conn_in sh b c' \<and> conn c' = conn c" for w c as r w' c'
    using kept_by_services.Cluster_Exec_keeps [OF assms, of w c as u cl r w' c'] by blast
qed (simp add: conn_in_def)

lemma link_send_keeps:
  assumes "stable_client exec (net_ok sh s) (\<lambda>w c. conn_in sh b c)"
    and "net_ok sh s w" and "conn_in sh b (server_side l)" and "conn (server_side l) \<noteq> None"
    and "link_send exec as l w = (r, l', w')"
  shows "net_ok sh s w' \<and> conn_in sh b (server_side l') \<and> conn (server_side l') \<noteq> None"
proof -
  have serve: "net_ok sh s w' \<and> conn_in sh b (server_side l') \<and> conn (server_side l') \<noteq> None"
    if "serve_link exec l1 w = (l', w')" "server_side l1 = server_side l" for l1
  proof (cases "up l1")
    case False
    with that assms show ?thesis by (simp add: serve_link_def)
  next
    case True
    obtain e w2 c2 where h: "handle_payloads exec (\<lambda>n. None) (drop (seen l1) (arrived (requests l1))) Closed w (server_side l) =
        (e, w2, c2)" by (cases "handle_payloads exec (\<lambda>n. None) (drop (seen l1) (arrived (requests l1))) Closed w (server_side l)")
    have "list_all payload_ok (drop (seen l1) (arrived (requests l1)))"
      using arrived_ok [of "requests l1"] by (auto simp: list_all_iff dest: in_set_dropD)
    from stable_client.handle_payloads_safe [OF assms(1-4) this h]
    show ?thesis using that True h by (auto simp: serve_link_def Let_def)
  qed
  show ?thesis
  proof (cases "length as = 0")
    case True
    with assms show ?thesis by (simp add: link_send_def)
  next
    case False
    with assms(5) serve show ?thesis by (auto simp: link_send_def Let_def split: prod.splits)
  qed
qed

lemma services_keep:
  "kept_by_services (services pool order fuel a) (\<lambda>w c. net_ok sh s w \<and> conn_in sh a c)"
proof (induction fuel arbitrary: a)
  case 0
  show ?case
  proof
    show "net_ok sh s w \<and> conn_in sh a c \<Longrightarrow> as \<noteq> [] \<Longrightarrow> db_Exec (services pool order 0 a) w c as = (r, w', c') \<Longrightarrow>
        (net_ok sh s w' \<and> conn_in sh a c') \<and> conn c' = conn c" for w c as r w' c'
      using local_exec_keeps [of sh s w a c as r w' c'] by simp
    show "net_ok sh s w \<and> conn_in sh a c \<Longrightarrow> as \<noteq> [] \<Longrightarrow> Send (services pool order 0 a) peer i as w = (r, w') \<Longrightarrow>
        net_ok sh s w' \<and> conn_in sh a c" for w c peer i as r w'
      using net_ok_frame [of sh s w w'] by auto
  qed (auto dest: borrow_keeps intro: give_back_keeps)
next
  case (Suc fuel)
  show ?case
  proof
    show "net_ok sh s w \<and> conn_in sh a c \<Longrightarrow> as \<noteq> [] \<Longrightarrow>
        db_Exec (services pool order (Suc fuel) a) w c as = (r, w', c') \<Longrightarrow>
        (net_ok sh s w' \<and> conn_in sh a c') \<and> conn c' = conn c" for w c as r w' c'
      using local_exec_keeps [of sh s w a c as r w' c'] by simp
    fix w c peer i as r w'
    assume ok: "net_ok sh s w \<and> conn_in sh a c" "as \<noteq> []"
      and send: "Send (services pool order (Suc fuel) a) peer i as w = (r, w')"
    show "net_ok sh s w' \<and> conn_in sh a c"
    proof (cases "node_at w peer")
      case None
      with ok send show ?thesis by simp
    next
      case (Some nd)
      let ?exec = "Cluster_Exec (fst (node_env nd)) (services pool order fuel peer) (node_cluster nd)"
      obtain r1 l' w1 where l: "link_send ?exec as (links w (a, peer, i)) w = (r1, l', w1)"
        by (cases "link_send ?exec as (links w (a, peer, i)) w")
      have "conn_in sh peer (server_side (links w (a, peer, i)))" "conn (server_side (links w (a, peer, i))) \<noteq> None"
        using ok Some by (auto simp: net_ok_def net_inv_def)
      from link_send_keeps [OF node_is_stable [OF Suc.IH] _ this l] ok net_ok_link [of sh s w1 l' peer a i]
      show ?thesis using send Some l by auto
    qed
  qed (auto dest: borrow_keeps intro: give_back_keeps)
qed

interpretation kept: kept_by_services "services pool order fuel a" "\<lambda>w c. net_ok sh s w \<and> conn_in sh a c"
  for pool order fuel a sh s by (rule services_keep)

text \<open>A node is a database its handler can serve, whatever it is sent and however deep it relays.\<close>

lemma node_Exec_keeps:
  assumes "net_ok sh s w" and "conn_in sh a c" and "as \<noteq> []" and "node_Exec pool order fuel a w c as = (r, w', c')"
  shows "net_ok sh s w' \<and> conn_in sh a c' \<and> conn c' = conn c"
proof -
  from assms(1,2) obtain nd where "node_at w a = Some nd" by (auto simp: net_ok_def conn_in_def shape_Some)
  with assms(4) kept.Cluster_Exec_keeps [of sh s w a c as] assms(1-3)
  show ?thesis by (fastforce simp: node_Exec_def)
qed

interpretation network: stable_client "node_Exec pool order fuel a" "net_ok sh s" "\<lambda>w c. conn_in sh a c"
  for pool order fuel a sh s
proof
  show "net_ok sh s w \<Longrightarrow> conn_in sh a c \<Longrightarrow> as \<noteq> [] \<Longrightarrow> node_Exec pool order fuel a w c as = (r, w', c') \<Longrightarrow>
      net_ok sh s w' \<and> conn_in sh a c' \<and> conn c' = conn c" for w c as r w' c'
    by (rule node_Exec_keeps)
qed (simp add: conn_in_def)

section \<open>A healthy cluster\<close>

text \<open>
  The nodes \<open>ns\<close>, each configured with the others as its peers, with \<open>n\<close> databases each and
  no two hashes equal, and all connections between them in step.
\<close>

definition member :: "(nat \<Rightarrow> nat) \<Rightarrow> string list \<Rightarrow> string \<Rightarrow> env \<Rightarrow> ClusterDatabase \<Rightarrow> bool" where
  "member u ns a e cl \<longleftrightarrow> (\<exists>cfg disk. e = (u, cfg, disk) \<and> cl = MakeClusterDatabase cfg \<and> Self cfg = a \<and>
     a \<notin> set (Peers cfg) \<and> insert a (set (Peers cfg)) = set ns)"

definition healthy_shape :: "(nat \<Rightarrow> nat) \<Rightarrow> string list \<Rightarrow> nat \<Rightarrow> shape \<Rightarrow> bool" where
  "healthy_shape u ns n sh \<longleftrightarrow> ns \<noteq> [] \<and> [] \<notin> set ns \<and> inj_on ChecksumIEEE (set ns) \<and> int n < 2 ^ 63 \<and>
     (\<forall>a. sh a \<noteq> None \<longleftrightarrow> a \<in> set ns) \<and> (\<forall>a e cl m. sh a = Some (e, cl, m) \<longrightarrow> m = n \<and> member u ns a e cl)"

definition healthy :: "(nat \<Rightarrow> nat) \<Rightarrow> string list \<Rightarrow> nat \<Rightarrow> world \<Rightarrow> bool" where
  "healthy u ns n w \<longleftrightarrow> net_inv w \<and> healthy_shape u ns n (shape w) \<and>
     (\<forall>a b i. b \<in> set ns \<longrightarrow> in_step (links w (a, b, i)))"

text \<open>
  Every pool has a client to lend that is not lent already.
\<close>

definition can_lend :: "pool \<Rightarrow> world \<Rightarrow> bool" where
  "can_lend pool w \<longleftrightarrow> (\<forall>a b. \<exists>i. pool (lent w (a, b)) = Some i \<and> i \<notin> lent w (a, b))"

definition owner :: "string list \<Rightarrow> string \<Rightarrow> string" where
  "owner ns key = PickNode key (AddNodes ns (NewNodeMap None))"

lemma owner_mem: "healthy u ns n w \<Longrightarrow> owner ns key \<in> set ns"
  unfolding owner_def healthy_def healthy_shape_def by (intro PickNode_mem) auto

lemma member_facts:
  assumes "healthy_shape u ns n sh" and "member u ns a e cl"
  shows "fst e = u" "self cl = a" "peerConnection cl = set ns - {a}" "set (nodes cl) = set ns"
    "PickNode key (peerPicker cl) = owner ns key"
proof -
  obtain cfg disk where m: "e = (u, cfg, disk)" "cl = MakeClusterDatabase cfg" "Self cfg = a"
    "a \<notin> set (Peers cfg)" "insert a (set (Peers cfg)) = set ns"
    using assms(2) by (auto simp: member_def)
  then show "fst e = u" "self cl = a" "peerConnection cl = set ns - {a}" "set (nodes cl) = set ns"
    by (auto simp: MakeClusterDatabase_def Let_def)
  have "set (Peers cfg @ [Self cfg]) = set ns" using m by auto
  moreover have "inj_on (hashFunc (NewNodeMap None)) (set ns)"
    using assms(1) by (simp add: healthy_shape_def NewNodeMap_def)
  ultimately show "PickNode key (peerPicker cl) = owner ns key"
    using PickNode_order [of "Peers cfg @ [Self cfg]" ns None key] m
    by (simp add: MakeClusterDatabase_def owner_def Let_def)
qed

lemma healthy_node:
  assumes "healthy u ns n w" and "a \<in> set ns"
  obtains nd where "node_at w a = Some nd" "length (dbSet (node_db nd)) = n" "sa_inv (node_db nd)"
    "fst (node_env nd) = u" "member u ns a (node_env nd) (node_cluster nd)"
proof -
  have "shape w a \<noteq> None" using assms by (simp add: healthy_def healthy_shape_def)
  then obtain nd where nd: "node_at w a = Some nd" by (auto simp: shape_def)
  then have sh: "shape w a = Some (node_env nd, node_cluster nd, length (dbSet (node_db nd)))" by (simp add: shape_def)
  have "length (dbSet (node_db nd)) = n" "member u ns a (node_env nd) (node_cluster nd)"
    using assms(1) sh unfolding healthy_def healthy_shape_def by blast+
  moreover have "sa_inv (node_db nd)" using assms(1) nd by (auto simp: healthy_def net_inv_def)
  moreover have "fst (node_env nd) = u" using calculation(2) by (auto simp: member_def)
  ultimately show ?thesis using that nd by blast
qed

lemma healthy_net_ok: "healthy u ns n w \<Longrightarrow> net_ok (shape w) False w"
  by (simp add: healthy_def net_ok_def)

lemma healthy_conn_in:
  assumes "healthy u ns n w" and "a \<in> set ns" and "0 \<le> selectedDB c" and "selectedDB c < int n"
  shows "conn_in (shape w) a c"
  using healthy_node [OF assms(1,2)] assms(3,4) unfolding conn_in_def shape_Some by metis

section \<open>Routing\<close>

abbreviation keyed_commands :: "string set" where
  "keyed_commands \<equiv> {''exists'', ''get'', ''type'', ''set'', ''setnx'', ''getset''}"

text \<open>The owner of a key executes a command with that key itself.\<close>

lemma owner_executes:
  fixes sv :: "'w services"
  assumes "ToLower u name \<in> keyed_commands" and "self cl = PickNode key (peerPicker cl)"
  shows "Cluster_Exec u sv cl w c (name # key # rest) = db_Exec sv w c (name # key # rest)"
proof -
  have "makeRouter (ToLower u name) = Some (defaultFunc :: 'w CmdFunc)" using assms(1) by auto
  with assms(2) show ?thesis
    by (cases "db_Exec sv w c (name # key # rest)")
      (simp add: Cluster_Exec_def defaultFunc_def returns_def relay_def)
qed

lemma ToLower_SELECT [simp]: "ToLower u ''SELECT'' = ''select''"
  by (simp add: ToLower_def ascii_def ascii_lower_def char_of_eq_iff)

text \<open>Every node executes SELECT itself.\<close>

lemma node_selects:
  fixes sv :: "'w services"
  shows "Cluster_Exec u sv cl w c [''SELECT'', k] = db_Exec sv w c [''SELECT'', k]"
  by (cases "db_Exec sv w c [''SELECT'', k]") (simp add: Cluster_Exec_def cluster_execSelect_def returns_def)

lemma Exec_SELECT:
  assumes "0 \<le> k" and "k < int (length (dbSet d))" and "k < 2 ^ 63"
  shows "Exec (u, cfg, disk) d c [''SELECT'', Itoa k] = (Some OkReply, d, c\<lparr>selectedDB := k\<rparr>)"
  using assms by (simp add: Exec_def execSelect_def Atoi_Itoa SelectDB_def)

lemma services_simps [simp]:
  "db_Exec (services pool order fuel a) = local_exec a"
  "BorrowObject (services pool order fuel a) = borrow pool a"
  "ReturnObject (services pool order fuel a) = give_back a"
  "range_order (services pool order fuel a) = order"
  by (cases fuel; simp)+

lemma local_exec_node:
  assumes "node_at w b = Some nd" and "Exec (node_env nd) (node_db nd) c as = (r, d, c')"
  shows "local_exec b w c as = (r, w\<lparr>node_at := (node_at w)(b \<mapsto> nd\<lparr>node_db := d\<rparr>)\<rparr>, c')"
  using assms by (simp add: local_exec_def)

lemma clean_SELECT: "0 \<le> k \<Longrightarrow> k < 2 ^ 63 \<Longrightarrow> clean_cmd [''SELECT'', Itoa k]"
  using clean_select_cmd [of k] by (simp add: clean_cmd_def select_cmd_def clean_arg_def maxAlloc_def)

text \<open>
  A request relayed to a peer that executes it itself: SELECT and the request go over a
  borrowed connection, the peer's database executes it as if for the client, and the client
  gets the reply as the parser reads it.
\<close>

lemma Send_step:
  assumes "node_at w b = Some nd" and "in_step (links w (a, b, i))" and "clean_cmd as"
    and "Cluster_Exec (fst (node_env nd)) (services pool order fuel b) (node_cluster nd) w (server_side (links w (a, b, i))) as =
      (Some r, w', c')"
    and "conn c' = conn (server_side (links w (a, b, i)))" and "wire_safe r"
  shows "\<exists>l'. Send (services pool order (Suc fuel) a) b i as w = (Some (received r), w'\<lparr>links := (links w')((a, b, i) := l')\<rparr>) \<and>
    in_step l' \<and> selectedDB (server_side l') = selectedDB c'"
  using link_send_step [OF assms(2,3),
      where exec = "Cluster_Exec (fst (node_env nd)) (services pool order fuel b) (node_cluster nd)",
      OF assms(4,5,6)] assms(1) by auto

lemma select_at_peer:
  assumes h: "healthy u ns n w" and b: "b \<in> set ns" "b \<in> peerConnection cl"
    and c: "0 \<le> selectedDB c" "selectedDB c < int n" and sv: "sv = services pool order (Suc fuel) a"
    and i: "pool (lent w (a, b)) = Some i"
  obtains r w1 w2 where "getPeerClient sv cl b w = (Inr i, w1)"
    "Send sv b i (ToCmdLine2 ''SELECT'' [Itoa (GetDBIndex c)]) w1 = (r, w2)"
    "healthy u ns n w2" "node_at w2 = node_at w" "stuck w2 = stuck w"
    "selectedDB (server_side (links w2 (a, b, i))) = selectedDB c"
    "lent w2 = (lent w)((a, b) := insert i (lent w (a, b)))"
proof -
  let ?select = "[''SELECT'', Itoa (selectedDB c)]"
  obtain nd where nd: "node_at w b = Some nd" "length (dbSet (node_db nd)) = n" "fst (node_env nd) = u"
    using healthy_node [OF h b(1)] by blast
  define w1 where "w1 = w\<lparr>lent := (lent w)((a, b) := insert i (lent w (a, b)))\<rparr>"
  have get: "getPeerClient sv cl b w = (Inr i, w1)"
    using b nd(1) i by (simp add: sv getPeerClient_def borrow_def w1_def)
  have w1: "node_at w1 b = Some nd" "node_at w1 = node_at w" "stuck w1 = stuck w" "links w1 = links w"
    using nd(1) by (simp_all add: w1_def)
  have steps: "in_step (links w1 (x, y, j))" if "y \<in> set ns" for x y j
    using h that by (simp add: healthy_def w1(4))
  obtain cfg disk where env: "node_env nd = (u, cfg, disk)" using nd(3) by (cases "node_env nd") auto
  have k: "selectedDB c < 2 ^ 63" using c(2) h by (simp add: healthy_def healthy_shape_def)
  have sel: "local_exec b w1 c1 ?select = (Some OkReply, w1, c1\<lparr>selectedDB := selectedDB c\<rparr>)" for c1
  proof -
    have "Exec (node_env nd) (node_db nd) c1 ?select = (Some OkReply, node_db nd, c1\<lparr>selectedDB := selectedDB c\<rparr>)"
      unfolding env using Exec_SELECT [OF c(1) _ k] c(2) nd(2) by simp
    moreover have "nd\<lparr>node_db := node_db nd\<rparr> = nd" by simp
    moreover have "w1\<lparr>node_at := node_at w1\<rparr> = w1" by simp
    ultimately show ?thesis using local_exec_node [OF w1(1)] w1(1) by (simp add: fun_upd_idem)
  qed
  from Send_step [OF w1(1) steps [OF b(1)] clean_SELECT [OF c(1) k], where r = OkReply and w' = w1 and
      c' = "(server_side (links w1 (a, b, i)))\<lparr>selectedDB := selectedDB c\<rparr>" and pool = pool and order = order and fuel = fuel]
  obtain l1 where l1: "Send sv b i ?select w1 = (Some (received OkReply), w1\<lparr>links := (links w1)((a, b, i) := l1)\<rparr>)"
    "in_step l1" "selectedDB (server_side l1) = selectedDB c"
    by (auto simp: sv node_selects sel simp del: services.simps received.simps)
  define w2 where "w2 = w1\<lparr>links := (links w1)((a, b, i) := l1)\<rparr>"
  have "conn_in (shape w) b (server_side l1)"
    using healthy_conn_in [OF h b(1)] c l1(3) by simp
  moreover have "net_ok (shape w) False w1"
    using net_ok_frame [OF healthy_net_ok [OF h], of w1] w1 by simp
  moreover have "conn (server_side l1) \<noteq> None" using l1(2) by (auto simp: in_step_def)
  ultimately have "net_ok (shape w) False w2" unfolding w2_def by (intro net_ok_link)
  moreover have "in_step (links w2 (x, y, j))" if "y \<in> set ns" for x y j
    using steps [OF that] l1(2) by (simp add: w2_def)
  ultimately have "healthy u ns n w2" using h by (simp add: healthy_def net_ok_def)
  moreover have "Send sv b i (ToCmdLine2 ''SELECT'' [Itoa (GetDBIndex c)]) w1 = (Some (received OkReply), w2)"
    using l1(1) by (simp add: w2_def ToCmdLine2_def GetDBIndex_def)
  moreover have "lent w2 = (lent w)((a, b) := insert i (lent w (a, b)))" by (simp add: w2_def w1_def)
  ultimately show ?thesis using that [OF get] w1 l1(3) by (simp add: w2_def)
qed

lemma relay_to_peer:
  assumes h: "healthy u ns n w" and b: "b \<in> set ns" "self cl \<noteq> b" "b \<in> peerConnection cl" "self cl = a"
    and c: "0 \<le> selectedDB c" "selectedDB c < int n" and as: "clean_cmd as" "wire_safe r"
    and nd: "node_at w b = Some nd" "Exec (node_env nd) (node_db nd) c as = (Some r, d, c')"
    and self_exec: "\<And>w c. Cluster_Exec u (services pool order fuel b) (node_cluster nd) w c as = local_exec b w c as"
    and lend: "can_lend pool w"
  shows "\<exists>w'. relay (services pool order (Suc fuel) a) cl b w c as = (Some (received r), w', c) \<and>
    node_at w' = (node_at w)(b \<mapsto> nd\<lparr>node_db := d\<rparr>) \<and> stuck w' = stuck w \<and> lent w' = lent w \<and>
    (\<forall>x y i. y \<in> set ns \<longrightarrow> in_step (links w' (x, y, i)))"
proof -
  let ?sv = "services pool order (Suc fuel) a"
  from lend obtain i where i: "pool (lent w (a, b)) = Some i" "i \<notin> lent w (a, b)" unfolding can_lend_def by blast
  obtain r1 w1 w2 where get: "getPeerClient ?sv cl b w = (Inr i, w1)"
    "Send ?sv b i (ToCmdLine2 ''SELECT'' [Itoa (GetDBIndex c)]) w1 = (r1, w2)" and
    w2: "healthy u ns n w2" "node_at w2 = node_at w" "stuck w2 = stuck w"
    "selectedDB (server_side (links w2 (a, b, i))) = selectedDB c"
    "lent w2 = (lent w)((a, b) := insert i (lent w (a, b)))"
    by (rule select_at_peer [where pool = pool and order = order and fuel = fuel and a = a, OF h b(1,3) c refl i(1)])
  have steps: "in_step (links w2 (x, y, j))" if "y \<in> set ns" for x y j
    using w2(1) that by (simp add: healthy_def)
  have b2: "node_at w2 b = Some nd" "fst (node_env nd) = u"
    using w2(2) nd(1) healthy_node [OF h b(1)] by auto
  from Exec_sees_selection [OF w2(4) nd(2)] obtain c2 where
    c2: "Exec (node_env nd) (node_db nd) (server_side (links w2 (a, b, i))) as = (Some r, d, c2)"
    "conn c2 = conn (server_side (links w2 (a, b, i)))" by auto
  define w3 where "w3 = w2\<lparr>node_at := (node_at w2)(b \<mapsto> nd\<lparr>node_db := d\<rparr>)\<rparr>"
  have "Cluster_Exec (fst (node_env nd)) (services pool order fuel b) (node_cluster nd) w2
      (server_side (links w2 (a, b, i))) as = (Some r, w3, c2)"
    using self_exec local_exec_node [OF b2(1) c2(1)] by (simp add: b2(2) w3_def)
  from Send_step [OF b2(1) steps [OF b(1)] as(1) this c2(2) as(2)]
  obtain l2 where l2: "Send ?sv b i as w2 = (Some (received r), w3\<lparr>links := (links w3)((a, b, i) := l2)\<rparr>)" "in_step l2"
    by auto
  define w4 where "w4 = returnPeerClient ?sv cl b i (w3\<lparr>links := (links w3)((a, b, i) := l2)\<rparr>)"
  have "relay ?sv cl b w c as = (Some (received r), w4, c)"
    using b(2) get l2(1) by (simp add: relay_def w4_def del: services.simps received.simps)
  moreover have "node_at w4 = (node_at w)(b \<mapsto> nd\<lparr>node_db := d\<rparr>)" "stuck w4 = stuck w"
    using w2 b(3) by (simp_all add: w4_def w3_def returnPeerClient_def give_back_def)
  moreover have "lent w4 = lent w"
    using w2(5) b(3) i(2) by (auto simp: w4_def w3_def returnPeerClient_def give_back_def)
  moreover have "in_step (links w4 (x, y, j))" if "y \<in> set ns" for x y j
    using steps [OF that, of x j] l2(2) b(3) by (simp add: w4_def w3_def returnPeerClient_def give_back_def)
  ultimately show ?thesis by blast
qed

text \<open>A command with one key, sent to any node of a healthy cluster.\<close>

lemma routed:
  assumes h: "healthy u ns n w" and a: "a \<in> set ns" and c: "0 \<le> selectedDB c" "selectedDB c < int n"
    and as: "clean_cmd (name # key # rest)" "ToLower u name \<in> keyed_commands"
    and nd: "node_at w (owner ns key) = Some nd"
      "Exec (node_env nd) (node_db nd) c (name # key # rest) = (Some r, d, c')"
    and r: "owner ns key \<noteq> a \<Longrightarrow> wire_safe r" and lend: "can_lend pool w"
  shows "\<exists>w'. node_Exec pool order (Suc fuel) a w c (name # key # rest) =
      (Some (if owner ns key = a then r else received r), w', c) \<and>
    node_at w' = (node_at w)(owner ns key \<mapsto> nd\<lparr>node_db := d\<rparr>) \<and> stuck w' = stuck w \<and> lent w' = lent w \<and> healthy u ns n w'"
proof -
  let ?b = "owner ns key" and ?as = "name # key # rest"
  have b: "?b \<in> set ns" by (rule owner_mem [OF h])
  have hs: "healthy_shape u ns n (shape w)" using h by (simp add: healthy_def)
  obtain na where na: "node_at w a = Some na" "fst (node_env na) = u" "member u ns a (node_env na) (node_cluster na)"
    using healthy_node [OF h a] by blast
  have nb: "fst (node_env nd) = u" "member u ns ?b (node_env nd) (node_cluster nd)"
      "sa_inv (node_db nd)" "length (dbSet (node_db nd)) = n"
    using healthy_node [OF h b] nd(1) by (metis option.inject)+
  note fa = member_facts [OF hs na(3)] and fb = member_facts [OF hs nb(2)]
  have c': "c' = c"
  proof -
    obtain cfg disk where env: "node_env nd = (u, cfg, disk)" using nb(1) by (cases "node_env nd") auto
    have "sa_conn_ok (node_db nd) c" using c nb(4) by (simp add: sa_conn_ok_def)
    moreover have "ToLower u (hd ?as) \<noteq> ''select''" using as(2) by auto
    ultimately show ?thesis
      by (rule_tac Exec_command [OF nb(3) _ _ _, of c ?as u cfg disk]) (use nd(2) env in auto)
  qed
  have keeps: "healthy u ns n w'"
    if e: "node_Exec pool order (Suc fuel) a w c ?as = (x, w', c)" and "\<forall>x y i. y \<in> set ns \<longrightarrow> in_step (links w' (x, y, i))"
    for x w'
    using node_Exec_keeps [OF healthy_net_ok [OF h] healthy_conn_in [OF h a c] _ e] that(2) hs
    by (simp add: healthy_def net_ok_def)
  show ?thesis
  proof (cases "?b = a")
    case True
    with nd na have eq: "na = nd" by simp
    let ?w = "w\<lparr>node_at := (node_at w)(a \<mapsto> nd\<lparr>node_db := d\<rparr>)\<rparr>"
    have "self (node_cluster nd) = PickNode key (peerPicker (node_cluster nd))" using fb True by simp
    from owner_executes [OF as(2) this, of "services pool order (Suc fuel) a" w c rest]
    have e: "node_Exec pool order (Suc fuel) a w c ?as = (Some r, ?w, c)"
      using na eq nb(1) local_exec_node [OF na(1), of c ?as "Some r" d c'] nd(2) c' True
      by (simp add: node_Exec_def del: services.simps)
    moreover have "healthy u ns n ?w" using h by (intro keeps [OF e]) (simp add: healthy_def)
    ultimately show ?thesis using True by auto
  next
    case False
    have "self (node_cluster nd) = PickNode key (peerPicker (node_cluster nd))" using fb by simp
    then have x: "Cluster_Exec u (services pool order fuel ?b) (node_cluster nd) w c ?as = local_exec ?b w c ?as" for w c
      using owner_executes [OF as(2), of "node_cluster nd" key "services pool order fuel ?b"] by simp
    obtain w' where w': "relay (services pool order (Suc fuel) a) (node_cluster na) ?b w c ?as = (Some (received r), w', c)"
      "node_at w' = (node_at w)(?b \<mapsto> nd\<lparr>node_db := d\<rparr>)" "stuck w' = stuck w" "lent w' = lent w"
      "\<forall>x y i. y \<in> set ns \<longrightarrow> in_step (links w' (x, y, i))"
      using relay_to_peer [OF h b _ _ fa(2) c as(1) r [OF False] nd x lend] False b fa by auto
    have "makeRouter (ToLower u name) = Some (defaultFunc :: world CmdFunc)" using as(2) by auto
    then have e: "node_Exec pool order (Suc fuel) a w c ?as = (Some (received r), w', c)"
      using na w'(1) fa(5)
      by (simp add: node_Exec_def Cluster_Exec_def defaultFunc_def returns_def del: services.simps received.simps)
    with w' keeps [OF e w'(5)] False show ?thesis by auto
  qed
qed

section \<open>Broadcasting\<close>

lemma link_send_world:
  assumes "in_step l" and "clean_cmd as" and "exec w (server_side l) as = (r, w', c')"
    and "link_send exec as l w = (r2, l', w2)"
  shows "w2 = w'"
proof -
  from assms(1) obtain cmds where up: "up l" and
    req: "requests l = log_bytes cmds" "\<forall>cmd \<in> set cmds. clean_cmd cmd" "seen l = length cmds"
    unfolding in_step_def by blast
  have clean: "\<forall>cmd \<in> set (cmds @ [as]). clean_cmd cmd" and "as \<noteq> []"
    using req(2) assms(2) by (simp, simp add: clean_cmd_def)
  have sent: "requests l @ ToBytes (MakeMultiBulkReply as) = log_bytes (cmds @ [as])"
    by (simp add: req(1) MakeMultiBulkReply_def)
  obtain e c2 where "handle_payloads exec (\<lambda>n. None) [command_payload as] Closed w (server_side l) = (e, w', c2)"
    using assms(3) by (cases "Connection_Write (\<lambda>n. None) (reply_bytes r) c'")
      (auto simp: handle_payload_def command_payload_def execute_def split: prod.splits)
  with assms(4) \<open>as \<noteq> []\<close> sent up req(3) arrived_commands [OF clean]
  show ?thesis by (simp add: link_send_def serve_link_def Let_def)
qed

text \<open>A request relayed to a peer that gets stuck on it leaves the network stuck.\<close>

lemma relay_stuck:
  assumes h: "healthy u ns n w" and b: "b \<in> set ns" "self cl \<noteq> b" "b \<in> peerConnection cl"
    and c: "0 \<le> selectedDB c" "selectedDB c < int n" and as: "clean_cmd as"
    and peer: "\<And>f w c r w' c'. fuel = Suc f \<Longrightarrow> healthy u ns n w \<Longrightarrow> 0 \<le> selectedDB c \<Longrightarrow> selectedDB c < int n \<Longrightarrow>
      node_Exec pool order f b w c as = (r, w', c') \<Longrightarrow> stuck w'"
    and rel: "relay (services pool order fuel a) cl b w c as = (r, w', c')"
  shows "stuck w'"
proof (cases "pool (lent w (a, b))")
  case None
  with rel b show ?thesis by (auto simp: relay_def getPeerClient_def borrow_def)
next
  case (Some i)
  note i = this
  show ?thesis
  proof (cases fuel)
    case 0
    obtain nd where "node_at w b = Some nd" using healthy_node [OF h b(1)] by blast
    with 0 i rel b show ?thesis
      by (auto simp: relay_def getPeerClient_def returnPeerClient_def borrow_def give_back_def)
  next
    case (Suc f)
    let ?sv = "services pool order (Suc f) a"
    obtain r1 w1 w2 where get: "getPeerClient ?sv cl b w = (Inr i, w1)"
      "Send ?sv b i (ToCmdLine2 ''SELECT'' [Itoa (GetDBIndex c)]) w1 = (r1, w2)" and
      w2: "healthy u ns n w2" "selectedDB (server_side (links w2 (a, b, i))) = selectedDB c"
      by (rule select_at_peer [where pool = pool and order = order and fuel = f and a = a, OF h b(1,3) c refl i])
    obtain nd where nd: "node_at w2 b = Some nd" using healthy_node [OF w2(1) b(1)] by blast
    let ?exec = "Cluster_Exec (fst (node_env nd)) (services pool order f b) (node_cluster nd)" and ?l = "links w2 (a, b, i)"
    obtain r3 w3 c3 where e: "?exec w2 (server_side ?l) as = (r3, w3, c3)" by (cases "?exec w2 (server_side ?l) as")
    obtain r4 l' w4 where l: "link_send ?exec as ?l w2 = (r4, l', w4)" by (cases "link_send ?exec as ?l w2")
    have "in_step ?l" using w2(1) b(1) by (simp add: healthy_def)
    from link_send_world [OF this as, of ?exec, OF e l] have "w4 = w3" .
    moreover have "stuck w3" using peer [OF Suc w2(1), of "server_side ?l" r3 w3 c3] w2(2) c nd e
      by (simp add: node_Exec_def)
    moreover have "Send ?sv b i as w2 = (r4, w4\<lparr>links := (links w4)((a, b, i) := l')\<rparr>)" using nd l by simp
    ultimately show ?thesis using rel Suc get b(2,3)
      by (simp add: relay_def returnPeerClient_def give_back_def del: services.simps)
         (auto simp: returnPeerClient_def give_back_def)
  qed
qed

lemma healthy_local:
  assumes h: "healthy u ns n w" and "a \<in> set ns" and "0 \<le> selectedDB c" "selectedDB c < int n" and "as \<noteq> []"
    and e: "local_exec a w c as = (r, w', c')"
  shows "healthy u ns n w' \<and> 0 \<le> selectedDB c' \<and> selectedDB c' < int n"
proof -
  from local_exec_keeps [OF healthy_net_ok [OF h] healthy_conn_in [OF h assms(2-4)] assms(5) e]
  have k: "net_ok (shape w) False w'" "conn_in (shape w) a c'" by auto
  have "links w' = links w" using e by (auto simp: local_exec_def split: option.splits prod.splits)
  with k(1) h have h': "healthy u ns n w'" by (simp add: healthy_def net_ok_def)
  moreover have "\<exists>e cl. shape w a = Some (e, cl, m) \<Longrightarrow> m = n" for m
    using h by (auto simp: healthy_def healthy_shape_def)
  ultimately show ?thesis using k(2) by (auto simp: conn_in_def)
qed

lemma boardcast_stuck:
  assumes sv: "sv = services pool order fuel a" and cl: "self cl = a" "peerConnection cl = set ns - {a}"
    and a: "a \<in> set ns" and as: "clean_cmd as"
    and peer: "\<And>b f w c r w' c'. b \<in> set ns \<Longrightarrow> fuel = Suc f \<Longrightarrow> healthy u ns n w \<Longrightarrow> 0 \<le> selectedDB c \<Longrightarrow>
      selectedDB c < int n \<Longrightarrow> node_Exec pool order f b w c as = (r, w', c') \<Longrightarrow> stuck w'"
  shows "healthy u ns n w \<Longrightarrow> 0 \<le> selectedDB c \<Longrightarrow> selectedDB c < int n \<Longrightarrow> set peers \<subseteq> set ns \<Longrightarrow>
    \<not> set peers \<subseteq> {a} \<Longrightarrow> boardcast_loop sv cl peers results w c as = (rs, w', c') \<Longrightarrow> stuck w'"
proof (induction peers arbitrary: results w c)
  case Nil
  then show ?case by simp
next
  case (Cons b peers)
  have ne: "as \<noteq> []" using as by (auto simp: clean_cmd_def)
  obtain r w1 c1 where rel: "relay sv cl b w c as = (r, w1, c1)" by (cases "relay sv cl b w c as")
  have rest: "boardcast_loop sv cl peers (AList.update b r results) w1 c1 as = (rs, w', c')"
    using Cons.prems(6) rel by simp
  show ?case
  proof (cases "b = a")
    case True
    then have "local_exec a w c as = (r, w1, c1)" using rel cl(1) by (simp add: relay_def sv)
    from healthy_local [OF Cons.prems(1) a Cons.prems(2,3) ne this]
    show ?thesis using Cons.IH [OF _ _ _ _ _ rest] Cons.prems(4,5) True by auto
  next
    case False
    have b: "b \<in> set ns" using Cons.prems(4) by simp
    have net: "net_ok (shape w) False w \<and> conn_in (shape w) a c"
      using healthy_net_ok healthy_conn_in Cons.prems(1-3) a by blast
    have "stuck w1"
      by (rule relay_stuck [OF Cons.prems(1) b _ _ Cons.prems(2,3) as peer [OF b] rel [unfolded sv]])
        (use False b cl in auto)
    with kept.relay_keeps [OF net ne rel [unfolded sv]]
    have "net_ok (shape w) True w1 \<and> conn_in (shape w) a c1" by (auto simp: net_ok_def)
    from kept.boardcast_loop_keeps [OF this ne rest [unfolded sv]]
    show ?thesis by (simp add: net_ok_def)
  qed
qed

lemma broadcast_never_completes:
  "healthy u ns n w \<Longrightarrow> a \<in> set ns \<Longrightarrow> 0 \<le> selectedDB c \<Longrightarrow> selectedDB c < int n \<Longrightarrow> clean_cmd as \<Longrightarrow>
   ToLower u (hd as) \<in> {''del'', ''flushdb''} \<Longrightarrow> y \<in> set ns \<Longrightarrow> z \<in> set ns \<Longrightarrow> y \<noteq> z \<Longrightarrow>
   node_Exec pool order fuel a w c as = (r, w', c') \<Longrightarrow> stuck w'"
proof (induction fuel arbitrary: a w c r w' c' rule: less_induct)
  case (less fuel)
  have hs: "healthy_shape u ns n (shape w)" using less.prems(1) by (simp add: healthy_def)
  obtain nd where nd: "node_at w a = Some nd" "fst (node_env nd) = u" "member u ns a (node_env nd) (node_cluster nd)"
    using healthy_node [OF less.prems(1,2)] by blast
  note f = member_facts [OF hs nd(3)]
  let ?sv = "services pool order fuel a"
  obtain rs w1 c1 where b: "boardcast ?sv (node_cluster nd) w c as = (rs, w1, c1)"
    by (cases "boardcast ?sv (node_cluster nd) w c as")
  have many: "\<not> set ns \<subseteq> {a}" using less.prems(7-9) by auto
  have IH: "stuck w'" if "b \<in> set ns" "fuel = Suc f" "healthy u ns n w" "0 \<le> selectedDB c" "selectedDB c < int n"
    "node_Exec pool order f b w c as = (r, w', c')" for b f w c r w' c'
    using less.IH [of f w b c r w' c'] that less.prems(5-9) by simp
  have "stuck w1"
    by (rule boardcast_stuck [OF refl f(2,3) less.prems(2,5) IH less.prems(1,3,4) _ _ b [unfolded boardcast_def]])
      (use f(4) many in auto)
  moreover obtain name rest where as: "as = name # rest" using less.prems(5) by (cases as) (auto simp: clean_cmd_def)
  have "makeRouter (ToLower u name) = Some (Del :: world CmdFunc) \<or>
      makeRouter (ToLower u name) = Some (flushdb :: world CmdFunc)" using less.prems(6) as by auto
  then have "w' = w1" using less.prems(10) nd b as
    by (auto simp: node_Exec_def Cluster_Exec_def Del_def flushdb_def split: sum.splits)
  ultimately show ?case by simp
qed

section \<open>The stores of the nodes\<close>

definition node_store :: "world \<Rightarrow> string \<Rightarrow> nat \<Rightarrow> store" where
  "node_store w a i = (case node_at w a of None \<Rightarrow> Map.empty | Some nd \<Rightarrow> sa_abs (node_db nd) i)"

text \<open>The replies to a command with one key are safe to send when the key's value is.\<close>

lemma keyed_replies_safe:
  assumes "redis_step s cmd (key # rest) r s'" and "cmd \<in> keyed_commands" and "\<forall>v. s key = Some v \<longrightarrow> clean_arg v"
  shows "wire_safe r"
proof (cases "arity_ok cmd (length (key # rest))")
  case False
  then have "r = ArgNumErrReply cmd" using assms(1,2) by (auto simp: known_commands_def arity_ok_names elim!: redis_stepE)
  then show ?thesis using assms(2) by auto
next
  case True
  with assms show ?thesis by (auto simp: known_commands_def elim!: redis_stepE)
qed

lemma keyed_runs_at_owner:
  assumes h: "healthy u ns n w" and lend: "can_lend pool w" and a: "a \<in> set ns" and c: "0 \<le> selectedDB c" "selectedDB c < int n"
    and as: "clean_cmd (name # key # rest)" "ToLower u name \<in> keyed_commands"
    and safe: "\<forall>v. node_store w (owner ns key) (nat (selectedDB c)) key = Some v \<longrightarrow> clean_arg v"
  shows "\<exists>r s w'. redis_step (node_store w (owner ns key) (nat (selectedDB c))) (ToLower u name) (key # rest) r s \<and>
    node_Exec pool order (Suc fuel) a w c (name # key # rest) =
      (Some (if owner ns key = a then r else received r), w', c) \<and>
    node_store w' = (node_store w)(owner ns key := (node_store w (owner ns key))(nat (selectedDB c) := s)) \<and>
    stuck w' = stuck w \<and> healthy u ns n w' \<and> can_lend pool w'"
proof -
  let ?b = "owner ns key" and ?as = "name # key # rest" and ?i = "nat (selectedDB c)"
  obtain nd where nd: "node_at w ?b = Some nd" "length (dbSet (node_db nd)) = n" "sa_inv (node_db nd)" "fst (node_env nd) = u"
    using healthy_node [OF h owner_mem [OF h]] by metis
  obtain cfg disk where env: "node_env nd = (u, cfg, disk)" using nd(4) by (cases "node_env nd") auto
  have ok: "sa_conn_ok (node_db nd) c" using c nd(2) by (simp add: sa_conn_ok_def)
  have "ToLower u (hd ?as) \<noteq> ''select''" using as(2) by auto
  from Exec_on_store [OF nd(3) ok _ this, of cfg disk]
  obtain r d s where d: "Exec (node_env nd) (node_db nd) c ?as = (Some r, d, c)"
    "redis_step (sa_abs (node_db nd) ?i) (ToLower u name) (key # rest) r s"
    "sa_abs d = (sa_abs (node_db nd))(?i := s)" by (auto simp: env)
  have store: "node_store w ?b = sa_abs (node_db nd)" using nd(1) by (simp add: node_store_def fun_eq_iff)
  have "wire_safe r" using keyed_replies_safe [OF d(2) as(2)] safe store by simp
  from routed [OF h a c as nd(1) d(1) _ lend, of order fuel] this obtain w' where
    w': "node_Exec pool order (Suc fuel) a w c ?as = (Some (if ?b = a then r else received r), w', c)"
      "node_at w' = (node_at w)(?b \<mapsto> nd\<lparr>node_db := d\<rparr>)" "stuck w' = stuck w" "healthy u ns n w'"
      "can_lend pool w'" using lend by (auto simp: can_lend_def)
  have "node_store w' = (node_store w)(?b := (node_store w ?b)(?i := s))"
    using w'(2) d(3) store by (auto simp: node_store_def fun_eq_iff)
  with w' d(2) store show ?thesis by auto
qed

section \<open>A new cluster\<close>

definition new_cfg :: "string list \<Rightarrow> nat \<Rightarrow> string \<Rightarrow> ServerProperties" where
  "new_cfg ns n a = zero_properties\<lparr>Self := a, Peers := filter (\<lambda>b. b \<noteq> a) ns, Databases := int n\<rparr>"

definition new_node :: "(nat \<Rightarrow> nat) \<Rightarrow> string list \<Rightarrow> nat \<Rightarrow> string \<Rightarrow> node" where
  "new_node u ns n a =
     \<lparr>node_env = (u, new_cfg ns n a, \<lambda>n. None), node_cluster = MakeClusterDatabase (new_cfg ns n a),
      node_db = empty_server n\<rparr>"

definition new_world :: "(nat \<Rightarrow> nat) \<Rightarrow> string list \<Rightarrow> nat \<Rightarrow> world" where
  "new_world u ns n =
     \<lparr>node_at = (\<lambda>a. if a \<in> set ns then Some (new_node u ns n a) else None),
      links = (\<lambda>l. new_link), lent = (\<lambda>l. {}), stuck = False\<rparr>"

lemma new_world_healthy:
  assumes "ns \<noteq> []" and "[] \<notin> set ns" and "inj_on ChecksumIEEE (set ns)" and "0 < n" and "int n < 2 ^ 63"
  shows "healthy u ns n (new_world u ns n)"
proof -
  let ?w = "new_world u ns n"
  have sh: "shape ?w a = (if a \<in> set ns
      then Some ((u, new_cfg ns n a, \<lambda>n. None), MakeClusterDatabase (new_cfg ns n a), n) else None)" for a
    by (simp add: shape_def new_world_def new_node_def)
  have "member u ns a (u, new_cfg ns n a, \<lambda>n. None) (MakeClusterDatabase (new_cfg ns n a))" if "a \<in> set ns" for a
    using that by (auto simp: member_def new_cfg_def)
  then have "healthy_shape u ns n (shape ?w)" using assms by (auto simp: healthy_shape_def sh split: if_splits)
  moreover have "net_inv ?w" unfolding net_inv_def
  proof (intro conjI allI impI)
    fix a b i assume b: "node_at ?w b \<noteq> None"
    show "conn (server_side (links ?w (a, b, i))) \<noteq> None"
      by (simp add: new_world_def new_link_def NewConnection_def)
    from b have "b \<in> set ns" by (auto simp: new_world_def split: if_splits)
    then show "conn_in (shape ?w) b (server_side (links ?w (a, b, i)))"
      using assms(4) by (simp add: conn_in_def sh) (simp add: new_world_def new_link_def NewConnection_def)
  qed (auto simp: new_world_def new_node_def split: if_splits)
  moreover have "in_step (links ?w l)" for l using in_step_new by (simp add: new_world_def)
  ultimately show ?thesis by (simp add: healthy_def)
qed

text \<open>A cluster of two nodes with one database each, for concrete runs.\<close>

abbreviation two_nodes :: "string list" where
  "two_nodes \<equiv> [''a'', ''b'']"

lemma two_nodes_healthy: "healthy u two_nodes 1 (new_world u two_nodes 1)"
proof (rule new_world_healthy)
  have "ChecksumIEEE ''a'' \<noteq> ChecksumIEEE ''b''"
    unfolding ChecksumIEEE_def NOT_zero_32 by (simp add: crc_eval)
  then show "inj_on ChecksumIEEE (set two_nodes)" by auto
qed simp_all

lemma two_nodes_store: "node_store (new_world u two_nodes 1) x i = Map.empty"
  by (auto simp: node_store_def new_world_def new_node_def sa_abs_def empty_server_def fresh_dbs_def
      db_abs_def makeDB_def MakeSyncDict_def dict_abs_def fun_eq_iff)

section \<open>Properties\<close>

text \<open>The pools of the default configuration lend up to eight clients.\<close>

definition eight_clients :: pool where
  "eight_clients S = find (\<lambda>i. i \<notin> S) [0..<8]"

lemma eight_clients_lend: "can_lend eight_clients (new_world u ns n)"
  by (simp add: can_lend_def eight_clients_def new_world_def upt_rec)

text \<open>
  C8 (keyed_commands_run_at_owner). In a healthy cluster whose pools have a client to lend, take one of the commands GET,
  SET, SETNX, GETSET, EXISTS and TYPE with a first key and any further arguments, all of them non-empty and
  not beginning with a dollar sign, as is the value stored under the key if there is one.  Given to any
  node it is one step of the abstract store of the key's owner, in the database the client has selected, and
  of no other store.  The client gets the step's reply, from another node's owner as the wire changes it,
  and the cluster stays healthy.
\<close>

theorem keyed_commands_run_at_owner:
  assumes "healthy u ns n w" and "can_lend pool w" and "a \<in> set ns" and "0 \<le> selectedDB c" and "selectedDB c < int n"
    and "clean_cmd (name # key # rest)"
    and "ToLower u name \<in> {''exists'', ''get'', ''type'', ''set'', ''setnx'', ''getset''}"
    and "\<forall>v. node_store w (owner ns key) (nat (selectedDB c)) key = Some v \<longrightarrow> clean_arg v"
  shows "\<exists>r s w'. redis_step (node_store w (owner ns key) (nat (selectedDB c))) (ToLower u name) (key # rest) r s \<and>
    node_Exec pool order (Suc fuel) a w c (name # key # rest) =
      (Some (if owner ns key = a then r else received r), w', c) \<and>
    node_store w' = (node_store w)(owner ns key := (node_store w (owner ns key))(nat (selectedDB c) := s)) \<and>
    stuck w' = stuck w \<and> healthy u ns n w' \<and> can_lend pool w'"
  using assms by (rule keyed_runs_at_owner)

theorem keyed_commands_run_at_owner_witness:
  "\<exists>r s w'. redis_step (node_store (new_world id two_nodes 1) (owner two_nodes ''k'') (nat (selectedDB new_client)))
      (ToLower id ''setnx'') [''k'', ''v''] r s \<and>
    node_Exec eight_clients rev (Suc 0) ''b'' (new_world id two_nodes 1) new_client [''setnx'', ''k'', ''v''] =
      (Some (if owner two_nodes ''k'' = ''b'' then r else received r), w', new_client) \<and>
    node_store w' = (node_store (new_world id two_nodes 1))(owner two_nodes ''k'' :=
      (node_store (new_world id two_nodes 1) (owner two_nodes ''k''))(nat (selectedDB new_client) := s)) \<and>
    stuck w' = stuck (new_world id two_nodes 1) \<and> healthy id two_nodes 1 w' \<and> can_lend eight_clients w'"
proof (rule keyed_commands_run_at_owner [OF two_nodes_healthy eight_clients_lend])
  show "clean_cmd [''setnx'', ''k'', ''v'']" by (simp add: clean_cmd_def clean_arg_def maxAlloc_def)
  show "\<forall>v. node_store (new_world id two_nodes 1) (owner two_nodes ''k'') (nat (selectedDB new_client)) ''k'' = Some v \<longrightarrow>
      clean_arg v" using two_nodes_store [of id] by simp
qed simp_all

text \<open>
  In a healthy cluster a value stored through any node is read through any other.  The
  node that does not own the key answers GET with a one-element array in place of the bulk
  string.
\<close>

theorem set_then_get_anywhere:
  assumes h: "healthy u ns n w" and lend: "can_lend pool w" and "a \<in> set ns" and "b \<in> set ns" and i: "0 \<le> selectedDB c" "selectedDB c < int n"
    and "selectedDB cb = selectedDB c" and "clean_arg k" and "clean_arg v"
    and "\<forall>v'. node_store w (owner ns k) (nat (selectedDB c)) k = Some v' \<longrightarrow> clean_arg v'"
  shows "\<exists>r w1 w2. node_Exec pool order (Suc fuel) a w c [''set'', k, v] = (Some r, w1, c) \<and> r \<in> {OkReply, StatusReply ''OK''} \<and>
    node_Exec pool order (Suc fuel) b w1 cb [''get'', k] =
      (Some (if owner ns k = b then BulkReply v else MultiBulkReply [v]), w2, cb) \<and> healthy u ns n w2"
proof -
  let ?o = "owner ns k" and ?i = "nat (selectedDB c)"
  have clean: "clean_cmd [''set'', k, v]" "clean_cmd [''get'', k]"
    using assms(8,9) by (simp_all add: clean_cmd_def clean_arg_def maxAlloc_def)
  from keyed_runs_at_owner [OF h lend assms(3) i clean(1) _ assms(10), of order fuel] obtain r s w1 where
    1: "redis_step (node_store w ?o ?i) ''set'' [k, v] r s"
      "node_Exec pool order (Suc fuel) a w c [''set'', k, v] = (Some (if ?o = a then r else received r), w1, c)"
      "node_store w1 = (node_store w)(?o := (node_store w ?o)(?i := s))" "healthy u ns n w1" "can_lend pool w1" by auto
  from redis_step_set [OF 1(1)] have r: "r = OkReply" "node_store w1 ?o ?i k = Some v" using 1(3) by auto
  from keyed_runs_at_owner [OF 1(4,5) assms(4) _ _ clean(2), of cb order fuel] assms(7,9) i r(2) obtain r2 s2 w2 where
    2: "redis_step (node_store w1 ?o ?i) ''get'' [k] r2 s2"
      "node_Exec pool order (Suc fuel) b w1 cb [''get'', k] = (Some (if ?o = b then r2 else received r2), w2, cb)"
      "healthy u ns n w2" by auto
  from redis_step_get [OF 2(1)] r(2) have "r2 = BulkReply v" by simp
  with 1(2) 2 r(1) show ?thesis by auto
qed

theorem set_then_get_anywhere_witness:
  "\<exists>r w1 w2. node_Exec eight_clients rev (Suc 0) ''a'' (new_world id two_nodes 1) new_client [''set'', ''k'', ''v''] =
      (Some r, w1, new_client) \<and> r \<in> {OkReply, StatusReply ''OK''} \<and>
    node_Exec eight_clients rev (Suc 0) ''b'' w1 new_client [''get'', ''k''] =
      (Some (if owner two_nodes ''k'' = ''b'' then BulkReply ''v'' else MultiBulkReply [''v'']), w2, new_client) \<and>
    healthy id two_nodes 1 w2"
proof (rule set_then_get_anywhere [OF two_nodes_healthy eight_clients_lend])
  show "\<forall>v'. node_store (new_world id two_nodes 1) (owner two_nodes ''k'') (nat (selectedDB new_client)) ''k'' = Some v' \<longrightarrow>
      clean_arg v'" using two_nodes_store [of id] by simp
qed (simp_all add: clean_arg_def maxAlloc_def)

text \<open>
  C18 (cluster_delete_never_completes). A node that executes DEL or FLUSHDB sends it to every node, and a node that is sent one
  does the same.  In a healthy cluster of two nodes or more, take a DEL or FLUSHDB whose arguments are
  non-empty and do not begin with a dollar sign, given to any node.  Whatever the pools do, lend always or wait
  when as many clients are lent as they allow, and however deep requests are relayed, the request comes to
  a point that only the time-out of a waiting call gets it past: no depth of relaying is enough.
\<close>

theorem cluster_delete_never_completes:
  assumes "healthy u ns n w" and "a \<in> set ns" and "0 \<le> selectedDB c" and "selectedDB c < int n"
    and "clean_cmd as" and "ToLower u (hd as) \<in> {''del'', ''flushdb''}"
    and "y \<in> set ns" and "z \<in> set ns" and "y \<noteq> z"
    and "node_Exec pool order fuel a w c as = (r, w', c')"
  shows "stuck w'"
  using assms by (rule broadcast_never_completes)

theorem cluster_delete_never_completes_witness:
  "stuck (fst (snd (node_Exec eight_clients rev 50 ''a'' (new_world id two_nodes 1) new_client [''del'', ''k''])))"
proof -
  obtain r w' c' where e: "node_Exec eight_clients rev 50 ''a'' (new_world id two_nodes 1) new_client [''del'', ''k''] = (r, w', c')"
    by (cases "node_Exec eight_clients rev 50 ''a'' (new_world id two_nodes 1) new_client [''del'', ''k'']")
  have "stuck w'"
    by (rule cluster_delete_never_completes [OF two_nodes_healthy _ _ _ _ _ _ _ _ e, of "''a''" "''b''"])
      (auto simp: clean_cmd_def clean_arg_def maxAlloc_def)
  with e show ?thesis by simp
qed

text \<open>
  C19 (cluster_serving_never_crashes). Whatever bytes a client sends to a node of a cluster, and whatever state the
  connections between the nodes are in, the node's handler does not panic, and every node's
  database keeps its invariant and its number of databases.
\<close>

theorem cluster_serving_never_crashes:
  assumes "\<not> closing r" and "net_inv (handler_db r)" and "shape (handler_db r) a = Some (env, cl, n)" and "0 < n"
    and "Handler_Handler (node_Exec pool order fuel a) net client rd r = (e, c, r')"
  shows "net_inv (handler_db r') \<and> shape (handler_db r') = shape (handler_db r) \<and>
    e \<in> {ClientClosed, WriteFailed, ChannelClosed, Blocked}"
proof -
  let ?exec = "node_Exec pool order fuel a" and ?sh = "shape (handler_db r)"
  have ok: "net_ok ?sh False (handler_db r)" "conn_in ?sh a new_client"
    using assms(2-4) unfolding net_ok_def conn_in_def by (blast, metis new_client_simps(2) of_nat_0_less_iff order_refl)
  obtain ps fin where p: "ParseStream rd = (ps, fin)" by (cases "ParseStream rd")
  then have good: "list_all payload_ok ps"
    using parse_loop_payloads [of init_state rd] by (simp add: ParseStream_def parse0_def list_all_iff)
  obtain e1 w1 c1 where s: "serve_stream ?exec net rd (handler_db r) new_client = (e1, w1, c1)"
    by (cases "serve_stream ?exec net rd (handler_db r) new_client")
  with p have "handle_payloads ?exec net ps fin (handler_db r) new_client = (e1, w1, c1)"
    by (simp add: serve_stream_def)
  from network.handle_payloads_safe [OF ok _ good this]
  have "net_ok ?sh False w1" "e1 \<in> {ClientClosed, WriteFailed, ChannelClosed, Blocked}" by auto
  with Handler_Handler_stream [OF assms(1) s, of client] assms(5) show ?thesis by (auto simp: net_ok_def)
qed

theorem cluster_serving_never_crashes_witness:
  "\<exists>e c r'. Handler_Handler (node_Exec eight_clients rev 3 ''a'') (\<lambda>n. None) 7
      \<lparr>unread = ''+PING'' @ CRLF @ ''junk'', read_err = EOF\<rparr>
      \<lparr>activeConn = {}, handler_db = new_world id two_nodes 1, closing = False\<rparr> = (e, c, r') \<and>
    net_inv (handler_db r') \<and> e \<in> {ClientClosed, WriteFailed, ChannelClosed, Blocked}"
proof -
  let ?r = "\<lparr>activeConn = {}, handler_db = new_world id two_nodes 1, closing = False\<rparr>"
    and ?rd = "\<lparr>unread = ''+PING'' @ CRLF @ ''junk'', read_err = EOF\<rparr>"
  obtain e c r' where h: "Handler_Handler (node_Exec eight_clients rev 3 ''a'') (\<lambda>n. None) 7 ?rd ?r = (e, c, r')"
    by (cases "Handler_Handler (node_Exec eight_clients rev 3 ''a'') (\<lambda>n. None) 7 ?rd ?r")
  have "net_inv (new_world id two_nodes 1)" using two_nodes_healthy [of id] by (simp add: healthy_def)
  moreover have "shape (new_world id two_nodes 1) ''a'' =
      Some ((id, new_cfg two_nodes 1 ''a'', \<lambda>n. None), MakeClusterDatabase (new_cfg two_nodes 1 ''a''), 1)"
    by (simp add: shape_def new_world_def new_node_def)
  ultimately show ?thesis using cluster_serving_never_crashes [OF _ _ _ _ h] h by auto
qed

end
