(* ===== verification/Server.thy ===== *)
theory Server
  imports Handler
begin

text \<open>
  \<^verbatim>\<open>tcp/server.go\<close>: the accept loop and its graceful shutdown, as a step relation over the
  goroutines: the loop, one handler per connection, and the one that waits for a signal.

  The lemmas show that the server returns only when every handler has returned, that it can
  return when none is blocked, and that one blocked handler keeps it from returning for ever.
\<close>

section \<open>State and steps\<close>

text \<open>
  Connections are numbered as they are accepted; \<open>live\<close> are those whose handler runs and
  \<open>waitDone\<close> is the counter of the wait group.  \<open>closes\<close> counts the calls of
  \<^verbatim>\<open>handler.Close\<close>.
\<close>

record Server =
  listening :: bool
  accepting :: bool
  accepted :: nat
  live :: "nat set"
  waitDone :: int
  signalled :: bool
  closes :: nat
  returned :: bool

definition new_server :: Server where
  "new_server = \<lparr>listening = True, accepting = True, accepted = 0, live = {}, waitDone = 0,
     signalled = False, closes = 0, returned = False\<rparr>"

text \<open>\<^verbatim>\<open>ListenAndServeWithSignal\<close> gives up when it cannot listen.\<close>

definition ListenAndServeWithSignal :: "go_error option \<Rightarrow> go_error + Server" where
  "ListenAndServeWithSignal err = (case err of Some e \<Rightarrow> Inl e | None \<Rightarrow> Inr new_server)"

text \<open>\<open>blocked i\<close> says that the handler of connection \<open>i\<close> never returns.\<close>

inductive serve_step :: "(nat \<Rightarrow> bool) \<Rightarrow> Server \<Rightarrow> Server \<Rightarrow> bool" for blocked where
  accept: "accepting s \<Longrightarrow> listening s \<Longrightarrow>
    serve_step blocked s (s\<lparr>accepted := accepted s + 1, live := insert (accepted s) (live s), waitDone := waitDone s + 1\<rparr>)"
| accept_fails: "accepting s \<Longrightarrow> serve_step blocked s (s\<lparr>accepting := False\<rparr>)"
| handler_returns: "i \<in> live s \<Longrightarrow> \<not> blocked i \<Longrightarrow>
    serve_step blocked s (s\<lparr>live := live s - {i}, waitDone := waitDone s - 1\<rparr>)"
| signal: "\<not> signalled s \<Longrightarrow>
    serve_step blocked s (s\<lparr>signalled := True, listening := False, closes := closes s + 1\<rparr>)"
| wait_done: "\<not> accepting s \<Longrightarrow> waitDone s = 0 \<Longrightarrow> \<not> returned s \<Longrightarrow>
    serve_step blocked s (s\<lparr>returned := True, listening := False, closes := closes s + 1\<rparr>)"

inductive_cases serve_stepE: "serve_step blocked s s'"

definition runs :: "(nat \<Rightarrow> bool) \<Rightarrow> Server \<Rightarrow> Server \<Rightarrow> bool" where
  "runs blocked = (serve_step blocked)\<^sup>*\<^sup>*"

section \<open>The invariant\<close>

text \<open>
  The wait group counts the running handlers; the loop does not accept after it has left; the
  handler is closed once by the signal and once on return.
\<close>

definition server_inv :: "Server \<Rightarrow> bool" where
  "server_inv s \<longleftrightarrow> finite (live s) \<and> live s \<subseteq> {..<accepted s} \<and> waitDone s = int (card (live s)) \<and>
     (signalled s \<longrightarrow> \<not> listening s) \<and>
     (returned s \<longrightarrow> live s = {} \<and> \<not> accepting s \<and> \<not> listening s) \<and>
     closes s = of_bool (signalled s) + of_bool (returned s)"

lemma server_inv_new: "server_inv new_server"
  by (simp add: server_inv_def new_server_def)

lemma serve_step_inv: "serve_step blocked s s' \<Longrightarrow> server_inv s \<Longrightarrow> server_inv s'"
proof (induction rule: serve_step.induct)
  case (accept s)
  then have "accepted s \<notin> live s" by (auto simp: server_inv_def)
  with accept show ?case by (auto simp: server_inv_def)
next
  case (handler_returns i s)
  then have "0 < card (live s)" by (auto simp: server_inv_def card_gt_0_iff)
  with handler_returns show ?case by (auto simp: server_inv_def card_Diff_singleton)
next
  case (wait_done s)
  then have "live s = {}" by (auto simp: server_inv_def)
  with wait_done show ?case by (simp add: server_inv_def)
qed (auto simp: server_inv_def)

lemma runs_inv: "runs blocked s s' \<Longrightarrow> server_inv s \<Longrightarrow> server_inv s'"
  unfolding runs_def by (induction rule: rtranclp_induct) (auto intro: serve_step_inv)

text \<open>A blocked handler stays.\<close>

lemma runs_blocked: "runs blocked s s' \<Longrightarrow> i \<in> live s \<Longrightarrow> blocked i \<Longrightarrow> i \<in> live s'"
  unfolding runs_def by (induction rule: rtranclp_induct) (auto elim!: serve_stepE)

text \<open>When nothing is blocked, the running handlers can all return.\<close>

lemma drain_handlers:
  assumes "finite L" and "\<forall>i \<in> L. \<not> blocked i"
  shows "live s = L \<Longrightarrow> waitDone s = int (card L) \<Longrightarrow>
    runs blocked s (s\<lparr>live := {}, waitDone := 0\<rparr>)"
  using assms
proof (induction L arbitrary: s rule: finite_induct)
  case empty
  then have "s\<lparr>live := {}, waitDone := 0\<rparr> = s" by simp
  then show ?case by (simp add: runs_def)
next
  case (insert i L)
  let ?s = "s\<lparr>live := live s - {i}, waitDone := waitDone s - 1\<rparr>"
  have "serve_step blocked s ?s" using insert.prems by (intro handler_returns) auto
  moreover have "runs blocked ?s (?s\<lparr>live := {}, waitDone := 0\<rparr>)"
    using insert by (intro insert.IH) auto
  ultimately show ?case unfolding runs_def by (simp add: converse_rtranclp_into_rtranclp)
qed

lemma can_return:
  assumes "server_inv s" and "\<forall>i \<in> live s. \<not> blocked i" and "\<not> returned s"
  shows "\<exists>s'. runs blocked s s' \<and> returned s' \<and> accepted s' = accepted s"
proof -
  define s1 where "s1 = s\<lparr>accepting := False\<rparr>"
  have "runs blocked s s1"
  proof (cases "accepting s")
    case True
    then have "serve_step blocked s s1" unfolding s1_def by (rule accept_fails)
    then show ?thesis unfolding runs_def by (rule r_into_rtranclp)
  next
    case False
    then have "s1 = s" by (simp add: s1_def)
    then show ?thesis by (simp add: runs_def)
  qed
  moreover define s2 where "s2 = s1\<lparr>live := {}, waitDone := 0\<rparr>"
  have "runs blocked s1 s2" unfolding s2_def
    by (rule drain_handlers [of "live s1"]) (use assms in \<open>auto simp: s1_def server_inv_def\<close>)
  moreover define s3 where "s3 = s2\<lparr>returned := True, listening := False, closes := closes s2 + 1\<rparr>"
  have "serve_step blocked s2 s3" unfolding s3_def
    by (rule wait_done) (use assms(3) in \<open>simp_all add: s2_def s1_def\<close>)
  ultimately have "runs blocked s s3" unfolding runs_def by (meson rtranclp.rtrancl_into_rtrancl rtranclp_trans)
  then show ?thesis by (auto simp: s3_def s2_def s1_def)
qed

section \<open>Handlers that never return\<close>

text \<open>
  The handler of connection \<open>i\<close>, on the bytes its client sends, never returns, whatever the
  database and the other connections do.
\<close>

definition never_returns :: "'db db_exec \<Rightarrow> write_fault \<Rightarrow> (nat \<Rightarrow> reader) \<Rightarrow> nat \<Rightarrow> bool" where
  "never_returns exec net clients i \<longleftrightarrow>
     (\<forall>r. \<not> closing r \<longrightarrow> fst (Handler_Handler exec net i (clients i) r) = Blocked)"

lemma blank_line_never_returns:
  assumes "unread (clients i) = CRLF @ rest"
  shows "never_returns exec net clients i"
proof -
  have "clients i = \<lparr>unread = CRLF @ rest, read_err = read_err (clients i)\<rparr>" using assms by (cases "clients i") simp
  then show ?thesis using blank_line_blocked [of _ exec net i rest "read_err (clients i)"]
    by (metis fst_conv never_returns_def)
qed

section \<open>Properties\<close>

text \<open>
  C34 (shutdown_is_graceful). The server returns only when the handler of every connection it has accepted has
  returned and its listener is closed; the handler has then been closed once, or twice when
  a signal came.
\<close>

theorem shutdown_is_graceful:
  assumes "runs blocked new_server s" and "returned s"
  shows "live s = {} \<and> waitDone s = 0 \<and> \<not> listening s \<and> closes s = (if signalled s then 2 else 1)"
  using runs_inv [OF assms(1) server_inv_new] assms(2) by (auto simp: server_inv_def)

theorem shutdown_is_graceful_witness:
  "\<exists>s. runs (\<lambda>i. False) new_server s \<and> returned s \<and> live s = {}"
proof -
  obtain s where s: "runs (\<lambda>i. False) new_server s" "returned s"
    using can_return [OF server_inv_new, of "\<lambda>i. False"] by (auto simp: new_server_def)
  with shutdown_is_graceful [OF s] show ?thesis by blast
qed

text \<open>
  From any state the server can reach it can go on to return exactly when no running
  handler is blocked.
\<close>

theorem shutdown_iff_no_handler_blocks:
  assumes "runs blocked new_server s" and "\<not> returned s"
  shows "(\<exists>s'. runs blocked s s' \<and> returned s') \<longleftrightarrow> (\<forall>i \<in> live s. \<not> blocked i)"
proof
  have inv: "server_inv s" by (rule runs_inv [OF assms(1) server_inv_new])
  then show "\<forall>i \<in> live s. \<not> blocked i \<Longrightarrow> \<exists>s'. runs blocked s s' \<and> returned s'"
    using can_return assms(2) by blast
  assume "\<exists>s'. runs blocked s s' \<and> returned s'"
  then obtain s' where s': "runs blocked s s'" "returned s'" by blast
  then have "live s' = {}" using runs_inv [OF s'(1) inv] by (simp add: server_inv_def)
  with runs_blocked [OF s'(1)] show "\<forall>i \<in> live s. \<not> blocked i" by blast
qed

theorem shutdown_iff_no_handler_blocks_witness:
  "(\<exists>s'. runs (\<lambda>i. i = 0) (new_server\<lparr>accepted := 1, live := {0}, waitDone := 1\<rparr>) s' \<and> returned s') \<longleftrightarrow>
   (\<forall>i \<in> live (new_server\<lparr>accepted := 1, live := {0}, waitDone := 1\<rparr>). i \<noteq> 0)"
proof (rule shutdown_iff_no_handler_blocks)
  have "serve_step (\<lambda>i. i = 0) new_server (new_server\<lparr>accepted := 1, live := {0}, waitDone := 1\<rparr>)"
    using serve_step.accept [of new_server "\<lambda>i. i = 0"] by (simp add: new_server_def)
  then show "runs (\<lambda>i. i = 0) new_server (new_server\<lparr>accepted := 1, live := {0}, waitDone := 1\<rparr>)"
    by (simp add: runs_def)
qed (simp add: new_server_def)

text \<open>
  C38 (blank_line_prevents_shutdown). One client that has sent an empty line keeps the server from ever returning, also after
  a signal: its handler waits for a parser that has panicked.
\<close>

theorem blank_line_prevents_shutdown:
  assumes "i \<in> live s" and "unread (clients i) = CRLF @ rest" and "runs (never_returns exec net clients) new_server s"
    and "runs (never_returns exec net clients) s s'"
  shows "\<not> returned s'"
proof
  assume "returned s'"
  moreover have "server_inv s'" by (rule runs_inv [OF assms(4) runs_inv [OF assms(3) server_inv_new]])
  ultimately have "live s' = {}" by (simp add: server_inv_def)
  moreover have "never_returns exec net clients i" using assms(2) by (rule blank_line_never_returns)
  ultimately show False using runs_blocked [OF assms(4,1)] by simp
qed

theorem blank_line_prevents_shutdown_witness:
  "\<exists>s s'. 0 \<in> live s \<and>
    runs (never_returns (Exec (\<lambda>n. n, default_properties, \<lambda>n. None)) (\<lambda>n. None) (\<lambda>i. \<lparr>unread = CRLF @ [], read_err = EOF\<rparr>)) s s' \<and>
    signalled s' \<and> \<not> returned s'"
proof -
  let ?b = "never_returns (Exec (\<lambda>n. n, default_properties, \<lambda>n. None)) (\<lambda>n. None) (\<lambda>i. \<lparr>unread = CRLF @ [], read_err = EOF\<rparr>)"
  let ?s = "new_server\<lparr>accepted := 1, live := {0}, waitDone := 1\<rparr>"
  let ?s' = "?s\<lparr>signalled := True, listening := False, closes := 1\<rparr>"
  have "serve_step ?b new_server ?s" using serve_step.accept [of new_server ?b] by (simp add: new_server_def)
  then have 1: "runs ?b new_server ?s" by (simp add: runs_def)
  have "serve_step ?b ?s ?s'" using serve_step.signal [of ?s ?b] by (simp add: new_server_def)
  then have 2: "runs ?b ?s ?s'" by (simp add: runs_def)
  have "\<not> returned ?s'"
    by (rule blank_line_prevents_shutdown [OF _ _ 1 2, of 0 "[]"]) simp_all
  with 2 show ?thesis by (intro exI [of _ ?s] exI [of _ ?s']) simp
qed

end
