(* ===== verification/Echo.thy ===== *)
theory Echo
  imports Connection GoLib Sync
begin

text \<open>
  \<^verbatim>\<open>tcp/echo.go\<close>: a handler that sends every line back, for testing the server.  A handler
  that is closing closes a new connection but goes on to serve it; every read then fails.
\<close>

record EchoHandler =
  echo_active :: "nat set"
  echo_closing :: Boolean

definition MakeHandler :: EchoHandler where
  "MakeHandler = \<lparr>echo_active = {}, echo_closing = 0\<rparr>"

record EchoClient =
  Conn :: sink
  Waiting :: int

definition new_EchoClient :: EchoClient where
  "new_EchoClient = \<lparr>Conn = \<lparr>written = [], writes = 0\<rparr>, Waiting = 0\<rparr>"

text \<open>One line: the wait group is held while it is written; a write error is ignored.\<close>

definition echo_line :: "write_fault \<Rightarrow> bytes \<Rightarrow> EchoClient \<Rightarrow> EchoClient go" where
  "echo_line net msg c =
     go_bind (Wait_Add 1 (Waiting c)) (\<lambda>w.
       case sink_write net msg (Conn c) of
         (ok, s) \<Rightarrow> go_bind (Wait_Done w) (\<lambda>w. Inr (c\<lparr>Conn := s, Waiting := w\<rparr>)))"

text \<open>The loop ends with the error of the reader.\<close>

function echo_loop :: "write_fault \<Rightarrow> reader \<Rightarrow> EchoClient \<Rightarrow> (go_error \<times> EchoClient) go" where
  "echo_loop net rd c =
     (case ReadBytes LF rd of
        (msg, Some err, rd') \<Rightarrow> Inr (err, c)
      | (msg, None, rd') \<Rightarrow> go_bind (echo_line net msg c) (echo_loop net rd'))"
  by pat_completeness auto
termination
  by (relation "measure (\<lambda>(net, rd, c). length (unread rd))") (auto dest!: sym [of "(_, None, _)"] ReadBytes_shorter)

declare echo_loop.simps [simp del]

definition Handle :: "write_fault \<Rightarrow> nat \<Rightarrow> reader \<Rightarrow> EchoHandler \<Rightarrow> (EchoClient \<times> EchoHandler) go" where
  "Handle net client rd h =
     (let rd = (if Boolean_Get (echo_closing h)
                then \<lparr>unread = [], read_err = NetError ''use of closed network connection''\<rparr> else rd);
          h = h\<lparr>echo_active := insert client (echo_active h)\<rparr>
      in go_bind (echo_loop net rd new_EchoClient) (\<lambda>(err, c).
           Inr (c, if err = EOF then h\<lparr>echo_active := echo_active h - {client}\<rparr> else h)))"

text \<open>
  Closing a client waits for the line that is being written, ten seconds at most, and closes the
  connection; \<open>pending\<close> is its counter over time.  Closing the handler refuses new clients and
  closes those that are active, whose numbers are in the result.
\<close>

definition EchoClient_Close :: "(nat \<Rightarrow> int) \<Rightarrow> write_fault \<Rightarrow> EchoClient \<Rightarrow> nat \<times> write_fault" where
  "EchoClient_Close pending net c = (wait_end pending 0 10, closed_fault net (Conn c))"

definition Echo_Close :: "EchoHandler \<Rightarrow> nat set \<times> EchoHandler" where
  "Echo_Close h =
     (let h = h\<lparr>echo_closing := Boolean_Set True (echo_closing h)\<rparr> in (echo_active h, h))"

text \<open>A closed client is sent nothing more, not even what its last line still had to echo.\<close>

lemma closed_echo_line:
  assumes "EchoClient_Close pending net c = (t, net')" and "Waiting c = 0"
  shows "t \<le> 10" "t < 10 \<Longrightarrow> pending t = 0"
    "echo_line net' msg c = Inr (c\<lparr>Conn := (Conn c)\<lparr>writes := writes (Conn c) + 1\<rparr>\<rparr>)"
  using assms wait_end_bounds [of 0 pending 10]
  by (cases c, auto simp: EchoClient_Close_def echo_line_def closed_sink_write Wait_Add_def Wait_Done_def)

section \<open>Facts\<close>

text \<open>The bytes up to the last line feed.\<close>

definition complete_lines :: "bytes \<Rightarrow> bytes" where
  "complete_lines bs = rev (dropWhile (\<lambda>c. c \<noteq> LF) (rev bs))"

lemma complete_lines_none: "LF \<notin> set bs \<Longrightarrow> complete_lines bs = []"
  by (auto simp: complete_lines_def)

lemma complete_lines_line: "complete_lines (line @ LF # rest) = line @ LF # complete_lines rest"
proof (cases "LF \<in> set rest")
  case True
  then show ?thesis by (simp add: complete_lines_def dropWhile_append)
next
  case False
  then have "dropWhile (\<lambda>c. c \<noteq> LF) (rev rest) = []" by auto
  then show ?thesis by (simp add: complete_lines_def dropWhile_append)
qed

lemma first_line:
  assumes "LF \<in> set bs"
  obtains line rest where "bs = line @ LF # rest" "LF \<notin> set line"
  using split_list_first [OF assms] by blast

text \<open>Serving never panics, ends with the reader's error, and releases the wait group.\<close>

lemma echo_loop_result:
  "Waiting c = 0 \<Longrightarrow> \<exists>c'. echo_loop net \<lparr>unread = bs, read_err = e\<rparr> c = Inr (e, c') \<and> Waiting c' = 0 \<and>
     ((\<forall>n. net n = None) \<longrightarrow> written (Conn c') = written (Conn c) @ complete_lines bs)"
proof (induction "length bs" arbitrary: bs c rule: less_induct)
  case less
  show ?case
  proof (cases "LF \<in> set bs")
    case False
    then show ?thesis using less.prems by (subst echo_loop.simps) (simp add: ReadBytes_no_delim complete_lines_none)
  next
    case True
    then obtain line rest where bs: "bs = line @ LF # rest" "LF \<notin> set line" by (rule first_line)
    obtain ok s where w: "sink_write net (line @ [LF]) (Conn c) = (ok, s)" by (cases "sink_write net (line @ [LF]) (Conn c)")
    let ?c = "c\<lparr>Conn := s, Waiting := 0\<rparr>"
    have "echo_line net (line @ [LF]) c = Inr ?c"
      using less.prems w by (simp add: echo_line_def Wait_Add_def Wait_Done_def)
    then have "echo_loop net \<lparr>unread = bs, read_err = e\<rparr> c = echo_loop net \<lparr>unread = rest, read_err = e\<rparr> ?c"
      using bs by (subst echo_loop.simps) (simp add: ReadBytes_line)
    moreover have "(\<forall>n. net n = None) \<longrightarrow> written s = written (Conn c) @ line @ [LF]"
      using w by (auto simp: sink_write_def)
    moreover have "length rest < length bs" using bs(1) by simp
    from less.hyps [OF this, of ?c] obtain c' where "echo_loop net \<lparr>unread = rest, read_err = e\<rparr> ?c = Inr (e, c')"
      "Waiting c' = 0" "(\<forall>n. net n = None) \<longrightarrow> written (Conn c') = written s @ complete_lines rest" by auto
    ultimately show ?thesis using bs(1) by (auto simp: complete_lines_line)
  qed
qed

section \<open>Properties\<close>

text \<open>
  The client is sent exactly the complete lines it has sent, and is forgotten when it closes;
  after another error, the one a closing handler causes included, it stays in the set of active
  connections.
\<close>

theorem echo_returns_complete_lines:
  assumes "\<forall>n. net n = None"
  shows "\<exists>c h'. Handle net client \<lparr>unread = bs, read_err = e\<rparr> h = Inr (c, h') \<and> Waiting c = 0 \<and>
    written (Conn c) = (if Boolean_Get (echo_closing h) then [] else complete_lines bs) \<and>
    (client \<in> echo_active h' \<longleftrightarrow> Boolean_Get (echo_closing h) \<or> e \<noteq> EOF)"
proof (cases "Boolean_Get (echo_closing h)")
  case True
  then show ?thesis
    using echo_loop_result [of new_EchoClient net "[]" "NetError ''use of closed network connection''"] assms
    by (auto simp: Handle_def new_EchoClient_def complete_lines_none)
next
  case False
  then show ?thesis using echo_loop_result [of new_EchoClient net bs e] assms
    by (auto simp: Handle_def new_EchoClient_def Let_def)
qed

theorem echo_returns_complete_lines_witness:
  "\<exists>c h'. Handle (\<lambda>n. None) 1 \<lparr>unread = ''a'' @ [LF] @ ''b'', read_err = EOF\<rparr> (snd (Echo_Close MakeHandler)) = Inr (c, h') \<and>
    written (Conn c) = [] \<and> 1 \<in> echo_active h'"
  using echo_returns_complete_lines [of "\<lambda>n. None" 1 "''a'' @ [LF] @ ''b''" EOF "snd (Echo_Close MakeHandler)"]
  by (auto simp: Echo_Close_def Let_def)

end
