(* ===== verification/RandStrings.thy ===== *)
theory RandStrings
  imports Prelude "HOL-Library.Multiset"
begin

text \<open>
  \<^verbatim>\<open>lib/utils/rand_string.go\<close>: random strings and a random order of indexes.  The generator is
  the parameter \<open>rnd\<close>: \<open>rnd k n\<close> is the answer of the \<open>k\<close>-th call of \<^verbatim>\<open>Intn(n)\<close>, which is
  documented to be below \<open>n\<close>.
\<close>

definition rnd_ok :: "(nat \<Rightarrow> nat \<Rightarrow> nat) \<Rightarrow> bool" where
  "rnd_ok rnd \<longleftrightarrow> (\<forall>k n. 0 < n \<longrightarrow> rnd k n < n)"

definition letters :: string where
  "letters = ''abcdefghijklmnopqrstuvwxyzABCDEFGHIJKLMNOPQRSTUVWXYZ0123456789''"

definition hexLetters :: string where
  "hexLetters = ''0123456789abcdef''"

definition random_chars :: "string \<Rightarrow> (nat \<Rightarrow> nat \<Rightarrow> nat) \<Rightarrow> int \<Rightarrow> string go" where
  "random_chars alphabet rnd n =
     go_bind (make_slice 4 n) (\<lambda>k. Inr (map (\<lambda>i. alphabet ! rnd i (length alphabet)) [0..<k]))"

definition RandString :: "(nat \<Rightarrow> nat \<Rightarrow> nat) \<Rightarrow> int \<Rightarrow> string go" where
  "RandString rnd n = random_chars letters rnd n"

definition RandHexString :: "(nat \<Rightarrow> nat \<Rightarrow> nat) \<Rightarrow> int \<Rightarrow> string go" where
  "RandHexString rnd n = random_chars hexLetters rnd n"

text \<open>\<^verbatim>\<open>rand.Shuffle\<close> swaps from the last index down, as its documentation describes.\<close>

definition swap :: "nat \<Rightarrow> nat \<Rightarrow> 'a list \<Rightarrow> 'a list" where
  "swap i j xs = xs[i := xs ! j, j := xs ! i]"

fun shuffle_loop :: "(nat \<Rightarrow> nat \<Rightarrow> nat) \<Rightarrow> nat \<Rightarrow> nat \<Rightarrow> 'a list \<Rightarrow> 'a list" where
  "shuffle_loop rnd k 0 xs = xs"
| "shuffle_loop rnd k (Suc i) xs = shuffle_loop rnd (Suc k) i (swap (Suc i) (rnd k (Suc (Suc i))) xs)"

definition RandIndex :: "(nat \<Rightarrow> nat \<Rightarrow> nat) \<Rightarrow> int \<Rightarrow> nat list go" where
  "RandIndex rnd n =
     go_bind (make_slice 8 n) (\<lambda>k. let result = [0..<k] in Inr (shuffle_loop rnd 0 (k - 1) result))"

section \<open>Facts\<close>

lemma random_chars_alphabet:
  assumes "rnd_ok rnd" and "alphabet \<noteq> []" and "random_chars alphabet rnd n = Inr s"
  shows "int (length s) = n \<and> set s \<subseteq> set alphabet"
  using assms by (auto simp: random_chars_def make_slice_def rnd_ok_def split: if_splits)

lemma mset_swap [simp]: "i < length xs \<Longrightarrow> j < length xs \<Longrightarrow> mset (swap i j xs) = mset xs"
  unfolding swap_def by (rule mset_swap)

lemma length_swap [simp]: "length (swap i j xs) = length xs"
  by (simp add: swap_def)

lemma shuffle_loop_mset:
  "rnd_ok rnd \<Longrightarrow> i < length xs \<Longrightarrow> mset (shuffle_loop rnd k i xs) = mset xs"
proof (induction rnd k i xs rule: shuffle_loop.induct)
  case (2 rnd k i xs)
  then have "rnd k (Suc (Suc i)) < length xs" by (metis Suc_lessI less_trans_Suc not_less_eq rnd_ok_def zero_less_Suc)
  with 2 show ?case by simp
qed simp

text \<open>Later calls of the generator do not depend on earlier answers.\<close>

lemma shuffle_loop_cong:
  "\<forall>m \<ge> k. rnd m = rnd' m \<Longrightarrow> shuffle_loop rnd k i xs = shuffle_loop rnd' k i xs"
  by (induction rnd k i xs rule: shuffle_loop.induct) simp_all

lemma take_Suc_swap:
  assumes "j \<le> i" and "i < length xs"
  shows "mset (take i (swap i j xs)) + {#xs ! j#} = mset (take (Suc i) xs)"
    and "drop (Suc i) (swap i j xs) = drop (Suc i) xs" and "swap i j xs ! i = xs ! j"
proof -
  show n: "swap i j xs ! i = xs ! j" using assms by (cases "j = i") (simp_all add: swap_def)
  show "drop (Suc i) (swap i j xs) = drop (Suc i) xs" using assms by (simp add: swap_def)
  have "take (Suc i) (swap i j xs) = swap i j (take (Suc i) xs)"
    using assms by (simp add: swap_def take_update_swap)
  then have "mset (take (Suc i) (swap i j xs)) = mset (take (Suc i) xs)" using assms by simp
  then show "mset (take i (swap i j xs)) + {#xs ! j#} = mset (take (Suc i) xs)"
    using assms n by (simp add: take_Suc_conv_app_nth)
qed

text \<open>
  Every order can come out: the answers can be chosen so that the wanted element is moved to
  the last place, and so on down.
\<close>

lemma shuffle_loop_surj:
  "length ys = length xs \<Longrightarrow> i < length xs \<Longrightarrow> mset (take (Suc i) xs) = mset (take (Suc i) ys) \<Longrightarrow>
   drop (Suc i) xs = drop (Suc i) ys \<Longrightarrow> \<exists>rnd. rnd_ok rnd \<and> shuffle_loop rnd k i xs = ys"
proof (induction i arbitrary: xs k)
  case 0
  then obtain x xs' y ys' where "xs = x # xs'" "ys = y # ys'" by (metis length_greater_0_conv neq_Nil_conv)
  with 0 have "xs = ys" by simp
  then show ?case by (intro exI [of _ "\<lambda>k n. 0"]) (simp add: rnd_ok_def)
next
  case (Suc i)
  have "set (take (Suc (Suc i)) xs) = set (take (Suc (Suc i)) ys)" by (rule mset_eq_setD [OF Suc.prems(3)])
  moreover have "ys ! Suc i \<in> set (take (Suc (Suc i)) ys)"
    using Suc.prems(1,2) by (simp add: take_Suc_conv_app_nth)
  ultimately have "ys ! Suc i \<in> set (take (Suc (Suc i)) xs)" by simp
  then obtain j where j: "j \<le> Suc i" "xs ! j = ys ! Suc i"
    by (auto simp: in_set_conv_nth less_Suc_eq_le)
  let ?xs = "swap (Suc i) j xs"
  note t = take_Suc_swap [OF j(1) Suc.prems(2)]
  have "mset (take (Suc i) ?xs) + {#ys ! Suc i#} = mset (take (Suc i) ys) + {#ys ! Suc i#}"
    using t(1) j(2) Suc.prems(1-3) by (simp add: take_Suc_conv_app_nth)
  then have m: "mset (take (Suc i) ?xs) = mset (take (Suc i) ys)" by simp
  have "drop (Suc i) ?xs = ?xs ! Suc i # drop (Suc (Suc i)) ?xs"
    using Suc.prems(2) by (simp add: Cons_nth_drop_Suc)
  also have "\<dots> = ys ! Suc i # drop (Suc (Suc i)) ys" using t(2,3) j(2) Suc.prems(4) by simp
  also have "\<dots> = drop (Suc i) ys" using Suc.prems(1,2) by (simp add: Cons_nth_drop_Suc)
  finally obtain rnd where rnd: "rnd_ok rnd" "shuffle_loop rnd (Suc k) i ?xs = ys"
    using Suc.IH [OF _ _ m, of "Suc k"] Suc.prems(1,2) by auto
  define rnd' where "rnd' = rnd(k := \<lambda>n. if n = Suc (Suc i) then j else 0)"
  have "shuffle_loop rnd' (Suc k) i ?xs = ys"
    using rnd(2) shuffle_loop_cong [of "Suc k" rnd' rnd i ?xs] by (simp add: rnd'_def)
  moreover have "rnd_ok rnd'" using rnd(1) j(1) by (auto simp: rnd'_def rnd_ok_def)
  moreover have "rnd' k (Suc (Suc i)) = j" by (simp add: rnd'_def)
  ultimately show ?case by (intro exI [of _ rnd']) simp
qed

section \<open>Properties\<close>

text \<open>
  \<^verbatim>\<open>RandIndex(n)\<close> gives every index below \<open>n\<close> exactly once, whatever the generator
  answers, and every order of the indexes is the result of some answers.
\<close>

theorem RandIndex_gives_the_permutations:
  assumes "0 \<le> n" and "n \<le> 2 ^ 45"
  shows "{xs. \<exists>rnd. rnd_ok rnd \<and> RandIndex rnd n = Inr xs} = {xs. mset xs = mset [0..<nat n]}"
proof (cases "n = 0")
  case True
  then show ?thesis by (auto simp: RandIndex_def make_slice_def maxAlloc_def rnd_ok_def intro: exI [of _ "\<lambda>k n. 0"])
next
  case False
  let ?l = "nat n - 1" and ?ns = "[0..<nat n]"
  have l: "?l < length ?ns" "Suc ?l = length ?ns" using False assms by auto
  have r: "RandIndex rnd n = Inr (shuffle_loop rnd 0 ?l ?ns)" for rnd
    using assms by (simp add: RandIndex_def make_slice_def maxAlloc_def)
  have "\<exists>rnd. rnd_ok rnd \<and> shuffle_loop rnd 0 ?l ?ns = xs" if "mset xs = mset ?ns" for xs
  proof -
    have "length xs = length ?ns" using that by (rule mset_eq_length)
    moreover have "take (Suc ?l) xs = xs" "take (Suc ?l) ?ns = ?ns" "drop (Suc ?l) xs = drop (Suc ?l) ?ns"
      using calculation l(2) by simp_all
    ultimately show ?thesis using shuffle_loop_surj [of xs ?ns ?l 0] l(1) that by metis
  qed
  moreover have "mset (shuffle_loop rnd 0 ?l ?ns) = mset ?ns" if "rnd_ok rnd" for rnd
    by (rule shuffle_loop_mset [OF that l(1)])
  ultimately show ?thesis by (auto simp: r)
qed

theorem RandIndex_gives_the_permutations_witness:
  "{xs. \<exists>rnd. rnd_ok rnd \<and> RandIndex rnd 3 = Inr xs} = {xs. mset xs = mset [0..<nat 3]}"
  by (rule RandIndex_gives_the_permutations) simp_all

end
