(* ===== verification/Logger.thy ===== *)
theory Logger
  imports GoLib
begin

text \<open>
  \<^verbatim>\<open>lib/logger\<close>: messages are formatted and queued by \<^verbatim>\<open>Output\<close>, and one goroutine writes them to
  the standard output and to the file of the day.  The clock (\<^verbatim>\<open>time.Now().Format\<close> and the
  prefix of package log) and the file system's answers are parameters; writes do not fail.
\<close>

section \<open>Paths\<close>

text \<open>\<^verbatim>\<open>path.Clean\<close> and \<^verbatim>\<open>path.Join\<close> of two elements, on the elements between slashes.\<close>

abbreviation SLASH :: byte where "SLASH \<equiv> CHR ''/''"

fun split_path :: "string \<Rightarrow> string list" where
  "split_path [] = [[]]"
| "split_path (c # s) =
     (if c = SLASH then [] # split_path s
      else (case split_path s of [] \<Rightarrow> [[c]] | w # ws \<Rightarrow> (c # w) # ws))"

fun join_path :: "string list \<Rightarrow> string" where
  "join_path [] = []"
| "join_path [w] = w"
| "join_path (w # ws) = w @ SLASH # join_path ws"

definition clean_step :: "bool \<Rightarrow> string \<Rightarrow> string list \<Rightarrow> string list" where
  "clean_step rooted w acc =
     (if w = [] \<or> w = ''.'' then acc
      else if w = ''..'' then
        (case acc of
           [] \<Rightarrow> if rooted then [] else [''..'']
         | x # xs \<Rightarrow> if x = ''..'' then ''..'' # acc else xs)
      else w # acc)"

definition clean_elements :: "bool \<Rightarrow> string \<Rightarrow> string list" where
  "clean_elements rooted p = rev (fold (clean_step rooted) (split_path p) [])"

definition clean_text :: "bool \<Rightarrow> string list \<Rightarrow> string" where
  "clean_text rooted ws = (if rooted then SLASH # join_path ws else if ws = [] then ''.'' else join_path ws)"

definition path_Clean :: "string \<Rightarrow> string" where
  "path_Clean p = (let rooted = (p \<noteq> [] \<and> hd p = SLASH) in clean_text rooted (clean_elements rooted p))"

definition path_Join :: "string \<Rightarrow> string \<Rightarrow> string" where
  "path_Join a b = path_Clean (if a = [] then b else a @ SLASH # b)"

text \<open>\<^verbatim>\<open>filepath.Base\<close>: the last element.\<close>

definition path_Base :: "string \<Rightarrow> string" where
  "path_Base p =
     (if p = [] then ''.''
      else
        let q = rev (dropWhile (\<lambda>c. c = SLASH) (rev p))
        in if q = [] then [SLASH] else rev (takeWhile (\<lambda>c. c \<noteq> SLASH) (rev q)))"

section \<open>files.go\<close>

datatype fs_error = NotExist | Permission | OtherFs

record filesystem =
  fs_Stat :: "string \<Rightarrow> fs_error option"
  fs_MkdirAll :: "string \<Rightarrow> string option"
  fs_OpenFile :: "string \<Rightarrow> string option"

definition checkNotExist :: "filesystem \<Rightarrow> string \<Rightarrow> bool" where
  "checkNotExist fs src \<longleftrightarrow> fs_Stat fs src = Some NotExist"

definition checkPermission :: "filesystem \<Rightarrow> string \<Rightarrow> bool" where
  "checkPermission fs src \<longleftrightarrow> fs_Stat fs src = Some Permission"

definition mkDir :: "filesystem \<Rightarrow> string \<Rightarrow> string option" where
  "mkDir fs src = fs_MkdirAll fs src"

definition isNotExistMkDir :: "filesystem \<Rightarrow> string \<Rightarrow> string option" where
  "isNotExistMkDir fs src = (if checkNotExist fs src then mkDir fs src else None)"

text \<open>An error text, or the name of the file that has been opened.\<close>

definition mustOpen :: "filesystem \<Rightarrow> string \<Rightarrow> string \<Rightarrow> string + string" where
  "mustOpen fs fileName dir =
     (if checkPermission fs dir then Inl (''permission denied dir: '' @ dir)
      else
        case isNotExistMkDir fs dir of
          Some err \<Rightarrow> Inl (''error during make dir '' @ dir @ '', err: '' @ err)
        | None \<Rightarrow>
            (case fs_OpenFile fs (dir @ SLASH # fileName) of
               Some err \<Rightarrow> Inl (''fail to open file, err: '' @ err)
             | None \<Rightarrow> Inr (dir @ SLASH # fileName)))"

section \<open>logger.go\<close>

record Settings =
  Path :: string
  Name :: string
  Ext :: string

datatype LogLevel = DEBUG | INFO | WARNING | ERROR | FATAL

fun levelFlags :: "LogLevel \<Rightarrow> string" where
  "levelFlags DEBUG = ''DEBUG''"
| "levelFlags INFO = ''INFO''"
| "levelFlags WARNING = ''WARN''"
| "levelFlags ERROR = ''ERROR''"
| "levelFlags FATAL = ''FATAL''"

definition bufferSize :: nat where
  "bufferSize = 100000"

text \<open>\<^verbatim>\<open>Output\<close>: \<open>caller\<close> is the file and line of the call when they are known.  It blocks on a full channel.\<close>

definition format_msg :: "(string \<times> nat) option \<Rightarrow> LogLevel \<Rightarrow> string \<Rightarrow> string" where
  "format_msg caller level msg =
     (case caller of
        Some (f, line) \<Rightarrow>
          ''['' @ levelFlags level @ '']['' @ path_Base f @ '':'' @ Itoa (int line) @ ''] '' @ msg
      | None \<Rightarrow> ''['' @ levelFlags level @ ''] '' @ msg)"

definition Output :: "(string \<times> nat) option \<Rightarrow> LogLevel \<Rightarrow> string \<Rightarrow> string list \<Rightarrow> string list option" where
  "Output caller level msg entryChan =
     (if length entryChan < bufferSize then Some (entryChan @ [format_msg caller level msg]) else None)"

text \<open>
  The functions the program logs with.  \<open>vs\<close> are the texts of the operands, which \<^verbatim>\<open>fmt.Sprintln\<close>
  separates by blanks; for the formatting ones \<open>msg\<close> is the text \<^verbatim>\<open>fmt.Sprintf\<close> gives.
\<close>

fun Sprintln :: "string list \<Rightarrow> string" where
  "Sprintln [] = [LF]"
| "Sprintln [v] = v @ [LF]"
| "Sprintln (v # vs) = v @ '' '' @ Sprintln vs"

definition Debug :: "(string \<times> nat) option \<Rightarrow> string list \<Rightarrow> string list \<Rightarrow> string list option" where
  "Debug caller vs entryChan = Output caller DEBUG (Sprintln vs) entryChan"

definition Debugf :: "(string \<times> nat) option \<Rightarrow> string \<Rightarrow> string list \<Rightarrow> string list option" where
  "Debugf caller msg entryChan = Output caller DEBUG msg entryChan"

definition Info :: "(string \<times> nat) option \<Rightarrow> string list \<Rightarrow> string list \<Rightarrow> string list option" where
  "Info caller vs entryChan = Output caller INFO (Sprintln vs) entryChan"

definition Infof :: "(string \<times> nat) option \<Rightarrow> string \<Rightarrow> string list \<Rightarrow> string list option" where
  "Infof caller msg entryChan = Output caller INFO msg entryChan"

definition Warn :: "(string \<times> nat) option \<Rightarrow> string list \<Rightarrow> string list \<Rightarrow> string list option" where
  "Warn caller vs entryChan = Output caller WARNING (Sprintln vs) entryChan"

definition Error :: "(string \<times> nat) option \<Rightarrow> string list \<Rightarrow> string list \<Rightarrow> string list option" where
  "Error caller vs entryChan = Output caller ERROR (Sprintln vs) entryChan"

definition Errorf :: "(string \<times> nat) option \<Rightarrow> string \<Rightarrow> string list \<Rightarrow> string list option" where
  "Errorf caller msg entryChan = Output caller ERROR msg entryChan"

definition Fatal :: "(string \<times> nat) option \<Rightarrow> string list \<Rightarrow> string list \<Rightarrow> string list option" where
  "Fatal caller vs entryChan = Output caller FATAL (Sprintln vs) entryChan"

text \<open>
  \<open>day\<close> is the date in the settings' format and \<open>stamp\<close> the prefix of a log line at a moment.
\<close>

record clock =
  day :: "nat \<Rightarrow> string"
  stamp :: "nat \<Rightarrow> string"

record Logger =
  logName :: string
  opened :: nat
  stdout :: bytes
  log_files :: "string \<Rightarrow> bytes"

definition log_fileName :: "Settings \<Rightarrow> clock \<Rightarrow> nat \<Rightarrow> string" where
  "log_fileName st ck t = Name st @ ''-'' @ day ck t @ ''.'' @ Ext st"

text \<open>\<^verbatim>\<open>log.Output\<close> adds the prefix, and a line feed unless the message ends in one.\<close>

definition log_line :: "clock \<Rightarrow> nat \<Rightarrow> string \<Rightarrow> bytes" where
  "log_line ck t msg = stamp ck t @ msg @ (if msg = [] \<or> last msg \<noteq> LF then [LF] else [])"

definition emit :: "clock \<Rightarrow> nat \<Rightarrow> string \<Rightarrow> Logger \<Rightarrow> Logger" where
  "emit ck t msg lg =
     lg\<lparr>stdout := stdout lg @ log_line ck t msg,
        log_files := (log_files lg)(logName lg := log_files lg (logName lg) @ log_line ck t msg)\<rparr>"

definition NewFileLogger :: "filesystem \<Rightarrow> Settings \<Rightarrow> clock \<Rightarrow> nat \<Rightarrow> (string \<Rightarrow> bytes) \<Rightarrow> string + Logger" where
  "NewFileLogger fs st ck t contents =
     (case mustOpen fs (log_fileName st ck t) (Path st) of
        Inl err \<Rightarrow> Inl (''logging.Join err: '' @ err)
      | Inr name \<Rightarrow> Inr \<lparr>logName = name, opened = 1, stdout = [], log_files = contents\<rparr>)"

text \<open>\<^verbatim>\<open>Setup\<close> panics, here with the error's text, when the file of the day cannot be opened.\<close>

definition Setup :: "filesystem \<Rightarrow> Settings \<Rightarrow> clock \<Rightarrow> nat \<Rightarrow> (string \<Rightarrow> bytes) \<Rightarrow> string + Logger" where
  "Setup fs st ck t contents =
     (case NewFileLogger fs st ck t contents of Inl err \<Rightarrow> Inl err | Inr lg \<Rightarrow> Inr lg)"

text \<open>The goroutine of \<^verbatim>\<open>NewStdoutLogger\<close>, the default logger: the standard output afterwards.\<close>

fun NewStdoutLogger :: "clock \<Rightarrow> (nat \<times> string) list \<Rightarrow> bytes \<Rightarrow> bytes" where
  "NewStdoutLogger ck [] out = out"
| "NewStdoutLogger ck ((t, msg) # es) out = NewStdoutLogger ck es (out @ log_line ck t msg)"

text \<open>The body of the writing goroutine; a file that cannot be opened panics, which ends the program.\<close>

definition write_entry :: "filesystem \<Rightarrow> Settings \<Rightarrow> clock \<Rightarrow> nat \<Rightarrow> string \<Rightarrow> Logger \<Rightarrow> string + Logger" where
  "write_entry fs st ck t msg lg =
     (let logFilename = log_fileName st ck t in
      if path_Join (Path st) logFilename \<noteq> logName lg then
        (case mustOpen fs logFilename (Path st) of
           Inl err \<Rightarrow> Inl (''open log '' @ logFilename @ '' failed: '' @ err)
         | Inr name \<Rightarrow> Inr (emit ck t msg (lg\<lparr>logName := name, opened := opened lg + 1\<rparr>)))
      else Inr (emit ck t msg lg))"

fun write_entries :: "filesystem \<Rightarrow> Settings \<Rightarrow> clock \<Rightarrow> (nat \<times> string) list \<Rightarrow> Logger \<Rightarrow> string + Logger" where
  "write_entries fs st ck [] lg = Inr lg"
| "write_entries fs st ck ((t, msg) # es) lg =
     (case write_entry fs st ck t msg lg of Inl err \<Rightarrow> Inl err | Inr lg \<Rightarrow> write_entries fs st ck es lg)"

section \<open>Cleaning\<close>

lemma split_path_not_Nil [simp]: "split_path s \<noteq> []"
  by (cases s) (auto split: list.splits)

lemma split_path_plain: "SLASH \<notin> set f \<Longrightarrow> split_path f = [f]"
  by (induction f) auto

lemma split_path_append: "SLASH \<notin> set f \<Longrightarrow> split_path (d @ SLASH # f) = split_path d @ [f]"
  by (induction d) (auto simp: split_path_plain split: list.splits)

lemma join_path_snoc: "join_path (ws @ [w]) = (if ws = [] then w else join_path ws @ SLASH # w)"
  by (induction ws rule: join_path.induct) auto

text \<open>A name that is one element of a path.\<close>

definition plain_name :: "string \<Rightarrow> bool" where
  "plain_name f \<longleftrightarrow> SLASH \<notin> set f \<and> f \<notin> {[], ''.'', ''..''}"

lemma split_path_elements: "w \<in> set (split_path p) \<Longrightarrow> SLASH \<notin> set w"
  by (induction p arbitrary: w) (auto split: list.splits if_splits)

definition clean_element :: "string \<Rightarrow> bool" where
  "clean_element w \<longleftrightarrow> w \<noteq> [] \<and> w \<noteq> ''.'' \<and> SLASH \<notin> set w"

lemma clean_step_elements:
  "\<forall>w \<in> set ws. SLASH \<notin> set w \<Longrightarrow> \<forall>w \<in> set acc. clean_element w \<Longrightarrow>
   \<forall>w \<in> set (fold (clean_step r) ws acc). clean_element w"
proof (induction ws arbitrary: acc)
  case (Cons x ws)
  have "\<forall>w \<in> set (clean_step r x acc). clean_element w"
    using Cons.prems by (cases acc) (auto simp: clean_step_def clean_element_def)
  with Cons show ?case by simp
qed simp

lemma join_path_elements:
  assumes "\<forall>w \<in> set ws. clean_element w"
  shows "join_path ws = [] \<longleftrightarrow> ws = []" and "ws \<noteq> [] \<Longrightarrow> hd (join_path ws) \<noteq> SLASH" and "join_path ws \<noteq> ''.''"
proof -
  have *: "\<exists>c s. join_path ws = c # s \<and> c \<noteq> SLASH \<and> (c # s) \<noteq> ''.''" if ne: "ws \<noteq> []"
  proof -
    obtain w vs where ws: "ws = w # vs" using ne by (cases ws) auto
    then have "clean_element w" using assms by simp
    then obtain c s where w: "w = c # s" "c \<noteq> SLASH" "c # s \<noteq> ''.''"
      by (cases w) (auto simp: clean_element_def)
    show ?thesis using ws w by (cases vs) auto
  qed
  show "join_path ws = [] \<longleftrightarrow> ws = []" "ws \<noteq> [] \<Longrightarrow> hd (join_path ws) \<noteq> SLASH" "join_path ws \<noteq> ''.''"
    using * by (cases "ws = []"; force)+
qed

lemma clean_elements_ok: "\<forall>w \<in> set (clean_elements r p). clean_element w"
proof -
  have "\<forall>w \<in> set (fold (clean_step r) (split_path p) []). clean_element w"
    by (rule clean_step_elements) (auto dest: split_path_elements)
  then show ?thesis by (simp add: clean_elements_def)
qed

lemma clean_elements_snoc: "plain_name f \<Longrightarrow> clean_elements r (d @ SLASH # f) = clean_elements r d @ [f]"
  by (simp add: clean_elements_def split_path_append plain_name_def clean_step_def)

lemma clean_text_snoc:
  assumes "\<forall>w \<in> set ws. clean_element w"
  shows "clean_text r (ws @ [f]) =
    (if clean_text r ws = ''.'' then f else if clean_text r ws = [SLASH] then SLASH # f else clean_text r ws @ SLASH # f)"
proof (cases "ws = []")
  case True
  then show ?thesis by (simp add: clean_text_def)
next
  case False
  note e = join_path_elements [OF assms]
  have "join_path ws \<noteq> [SLASH]" using e(2) [OF False] by force
  with False e(1,3) show ?thesis by (simp add: clean_text_def join_path_snoc)
qed

lemma clean_text_not_Nil: "\<forall>w \<in> set ws. clean_element w \<Longrightarrow> clean_text r ws \<noteq> []"
  using join_path_elements(1) [of ws] by (simp add: clean_text_def)

lemma path_Clean_Nil [simp]: "path_Clean [] = ''.''"
  by (simp add: path_Clean_def clean_elements_def clean_step_def clean_text_def)

lemma path_Clean_plain: "plain_name f \<Longrightarrow> path_Clean f = f"
  by (cases f) (auto simp: path_Clean_def clean_elements_def split_path_plain clean_step_def plain_name_def clean_text_def
      simp del: split_path.simps)

lemma path_Join_plain:
  assumes "plain_name f"
  shows "path_Join d f =
    (if path_Clean d = ''.'' then f else if path_Clean d = [SLASH] then SLASH # f else path_Clean d @ SLASH # f)"
proof (cases "d = []")
  case True
  then show ?thesis using path_Clean_plain [OF assms] by (simp add: path_Join_def)
next
  case False
  then show ?thesis using clean_text_snoc [OF clean_elements_ok, of "hd d = SLASH" "hd d = SLASH" d f]
    by (simp add: path_Join_def path_Clean_def clean_elements_snoc [OF assms] Let_def)
qed

text \<open>The test for a new day's file compares a cleaned name with the one that was opened.\<close>

lemma path_Join_same:
  assumes "plain_name f"
  shows "path_Join d f = d @ SLASH # f \<longleftrightarrow> path_Clean d = d \<and> d \<noteq> ''.'' \<and> d \<noteq> [SLASH]"
proof (cases "d = []")
  case True
  then show ?thesis using path_Clean_plain [OF assms] by (simp add: path_Join_def)
next
  case False
  have "path_Clean d \<noteq> []" by (simp add: path_Clean_def clean_text_not_Nil clean_elements_ok Let_def)
  with False assms show ?thesis unfolding path_Join_plain [OF assms] by (auto simp: plain_name_def)
qed

section \<open>Files of the day\<close>

text \<open>
  The directories the cleaned name of a file keeps as they are: those in cleaned form, without the
  current directory and the root, which a joined name drops.
\<close>

definition kept_dir :: "string \<Rightarrow> bool" where
  "kept_dir d \<longleftrightarrow> path_Clean d = d \<and> d \<noteq> ''.'' \<and> d \<noteq> [SLASH]"

lemma last_slash:
  assumes "a @ SLASH # x = b @ SLASH # y" and "SLASH \<notin> set x" and "SLASH \<notin> set y"
  shows "a = b \<and> x = y"
  using assms
proof (induction a arbitrary: b)
  case Nil
  then show ?case by (cases b) auto
next
  case (Cons c a)
  then show ?case by (cases b) auto
qed

text \<open>The cleaned name is the opened one exactly in such a directory and for the same name.\<close>

lemma same_file:
  assumes "plain_name f" and "plain_name f'"
  shows "path_Join d f = d @ SLASH # f' \<longleftrightarrow> kept_dir d \<and> f = f'"
proof
  assume j: "path_Join d f = d @ SLASH # f'"
  have p: "SLASH \<notin> set f" "SLASH \<notin> set f'" using assms by (simp_all add: plain_name_def)
  have "path_Clean d \<noteq> ''.''" using j p by (auto simp: path_Join_plain [OF assms(1)])
  moreover have "path_Clean d \<noteq> [SLASH]"
  proof
    assume r: "path_Clean d = [SLASH]"
    with j have "[] @ SLASH # f = d @ SLASH # f'" by (simp add: path_Join_plain [OF assms(1)])
    from last_slash [OF this p] have "d = []" by simp
    with r show False by simp
  qed
  ultimately have "path_Clean d @ SLASH # f = d @ SLASH # f'" using j by (simp add: path_Join_plain [OF assms(1)])
  from last_slash [OF this p] \<open>path_Clean d \<noteq> ''.''\<close> \<open>path_Clean d \<noteq> [SLASH]\<close>
  show "kept_dir d \<and> f = f'" by (auto simp: kept_dir_def)
qed (use path_Join_same [OF assms(1), of d] in \<open>auto simp: kept_dir_def\<close>)

text \<open>How often the name of the file changes.\<close>

fun switches :: "string \<Rightarrow> string list \<Rightarrow> nat" where
  "switches f [] = 0"
| "switches f (g # gs) = (if g = f then 0 else 1) + switches g gs"

definition fs_works :: "filesystem \<Rightarrow> bool" where
  "fs_works fs \<longleftrightarrow> (\<forall>p. fs_Stat fs p = None) \<and> (\<forall>p. fs_OpenFile fs p = None)"

lemma mustOpen_ok: "fs_works fs \<Longrightarrow> mustOpen fs f d = Inr (d @ SLASH # f)"
  by (simp add: fs_works_def mustOpen_def checkPermission_def isNotExistMkDir_def checkNotExist_def)

lemma write_entry_ok:
  assumes "fs_works fs" and "plain_name (log_fileName st ck t)" and "logName lg = Path st @ SLASH # f" and "plain_name f"
  shows "write_entry fs st ck t msg lg = Inr (emit ck t msg
    (lg\<lparr>logName := Path st @ SLASH # log_fileName st ck t,
        opened := opened lg + (if kept_dir (Path st) \<and> log_fileName st ck t = f then 0 else 1)\<rparr>))"
  using assms(3) same_file [OF assms(2,4), of "Path st"]
  by (cases lg) (auto simp: write_entry_def mustOpen_ok [OF assms(1)])

lemma write_entries_ok:
  assumes "fs_works fs" and "\<forall>t. plain_name (log_fileName st ck t)"
  shows "logName lg = Path st @ SLASH # f \<Longrightarrow> plain_name f \<Longrightarrow>
    \<exists>lg'. write_entries fs st ck es lg = Inr lg' \<and>
      stdout lg' = stdout lg @ concat (map (\<lambda>(t, msg). log_line ck t msg) es) \<and>
      (\<forall>name. log_files lg' name = log_files lg name @
        concat (map (\<lambda>(t, msg). log_line ck t msg) (filter (\<lambda>(t, msg). Path st @ SLASH # log_fileName st ck t = name) es))) \<and>
      opened lg' = opened lg +
        (if kept_dir (Path st) then switches f (map (\<lambda>(t, msg). log_fileName st ck t) es) else length es)"
proof (induction es arbitrary: lg f)
  case Nil
  then show ?case by simp
next
  case (Cons e es)
  obtain t msg where e: "e = (t, msg)" by (cases e)
  let ?g = "log_fileName st ck t"
  let ?lg = "emit ck t msg (lg\<lparr>logName := Path st @ SLASH # ?g,
        opened := opened lg + (if kept_dir (Path st) \<and> ?g = f then 0 else 1)\<rparr>)"
  have "write_entry fs st ck t msg lg = Inr ?lg" by (rule write_entry_ok [OF assms(1) _ Cons.prems]) (use assms(2) in simp)
  moreover have "logName ?lg = Path st @ SLASH # ?g" by (simp add: emit_def)
  from Cons.IH [OF this] assms(2) obtain lg' where lg': "write_entries fs st ck es ?lg = Inr lg'"
    "stdout lg' = stdout ?lg @ concat (map (\<lambda>(t, msg). log_line ck t msg) es)"
    "\<forall>name. log_files lg' name = log_files ?lg name @
      concat (map (\<lambda>(t, msg). log_line ck t msg) (filter (\<lambda>(t, msg). Path st @ SLASH # log_fileName st ck t = name) es))"
    "opened lg' = opened ?lg +
        (if kept_dir (Path st) then switches ?g (map (\<lambda>(t, msg). log_fileName st ck t) es) else length es)" by blast
  ultimately show ?case by (intro exI [of _ lg']) (auto simp: e emit_def)
qed

section \<open>Lines\<close>

lemma Sprintln_last: "Sprintln vs \<noteq> [] \<and> last (Sprintln vs) = LF"
  by (induction vs rule: Sprintln.induct) auto

text \<open>A message of \<^verbatim>\<open>Sprintln\<close> already ends its line, so no line feed is added to it.\<close>

lemma log_line_Sprintln:
  "log_line ck t (format_msg caller level (Sprintln vs)) = stamp ck t @ format_msg caller level (Sprintln vs)"
  using Sprintln_last [of vs] by (auto simp: log_line_def format_msg_def split: option.splits)

lemma NewStdoutLogger_lines:
  "NewStdoutLogger ck es out = out @ concat (map (\<lambda>(t, msg). log_line ck t msg) es)"
  by (induction ck es out rule: NewStdoutLogger.induct) simp_all

section \<open>Properties\<close>

text \<open>
  C35 (log_lands_in_the_days_file). On a file system that works, with file names of one plain path element, every queued
  message is written once, in order, to the standard output and to the file of its day.  If the configured
  directory is in cleaned form and neither \<^verbatim>\<open>.\<close> nor \<^verbatim>\<open>/\<close>, the file is opened again only when the day changes;
  with any other directory, \<^verbatim>\<open>logs/\<close> or \<^verbatim>\<open>.\<close> for example, it is opened again for every message.
\<close>

theorem log_lands_in_the_days_file:
  assumes "fs_works fs" and "\<forall>t. plain_name (log_fileName st ck t)"
    and "NewFileLogger fs st ck t0 contents = Inr lg"
  shows "\<exists>lg'. write_entries fs st ck es lg = Inr lg' \<and>
    stdout lg' = concat (map (\<lambda>(t, msg). log_line ck t msg) es) \<and>
    (\<forall>name. log_files lg' name = contents name @
      concat (map (\<lambda>(t, msg). log_line ck t msg) (filter (\<lambda>(t, msg). Path st @ SLASH # log_fileName st ck t = name) es))) \<and>
    opened lg' = 1 + (if path_Clean (Path st) = Path st \<and> Path st \<noteq> ''.'' \<and> Path st \<noteq> ''/''
      then switches (log_fileName st ck t0) (map (\<lambda>(t, msg). log_fileName st ck t) es) else length es)"
proof -
  have lg: "lg = \<lparr>logName = Path st @ SLASH # log_fileName st ck t0, opened = 1, stdout = [], log_files = contents\<rparr>"
    using assms(3) by (simp add: NewFileLogger_def mustOpen_ok [OF assms(1)])
  show ?thesis using write_entries_ok [OF assms(1,2), of lg "log_fileName st ck t0" es] assms(2)
    by (simp add: lg kept_dir_def)
qed

theorem log_lands_in_the_days_file_witness:
  "\<exists>lg'. write_entries \<lparr>fs_Stat = (\<lambda>p. None), fs_MkdirAll = (\<lambda>p. None), fs_OpenFile = (\<lambda>p. None)\<rparr>
      \<lparr>Path = ''logs/'', Name = ''godis'', Ext = ''log''\<rparr> \<lparr>day = (\<lambda>t. ''d''), stamp = (\<lambda>t. [])\<rparr> [(1, ''a''), (2, ''b'')]
      \<lparr>logName = ''logs//godis-d.log'', opened = 1, stdout = [], log_files = (\<lambda>name. [])\<rparr> = Inr lg' \<and>
    stdout lg' = ''a'' @ [LF] @ ''b'' @ [LF] \<and> opened lg' = 3"
proof -
  let ?fs = "\<lparr>fs_Stat = (\<lambda>p. None), fs_MkdirAll = (\<lambda>p. None), fs_OpenFile = (\<lambda>p. None)\<rparr> :: filesystem"
  let ?st = "\<lparr>Path = ''logs/'', Name = ''godis'', Ext = ''log''\<rparr>" and ?ck = "\<lparr>day = (\<lambda>t. ''d''), stamp = (\<lambda>t. [])\<rparr>"
  have new: "NewFileLogger ?fs ?st ?ck 0 (\<lambda>name. []) =
      Inr \<lparr>logName = ''logs//godis-d.log'', opened = 1, stdout = [], log_files = (\<lambda>name. [])\<rparr>"
    by (simp add: NewFileLogger_def mustOpen_ok fs_works_def log_fileName_def)
  have "path_Clean ''logs/'' = ''logs''"
    by (simp add: path_Clean_def clean_elements_def clean_step_def clean_text_def)
  then have "path_Clean (Path ?st) \<noteq> Path ?st" by simp
  moreover have "fs_works ?fs" "\<forall>t. plain_name (log_fileName ?st ?ck t)"
    by (simp_all add: fs_works_def log_fileName_def plain_name_def)
  ultimately obtain lg' where "write_entries ?fs ?st ?ck [(1, ''a''), (2, ''b'')]
      \<lparr>logName = ''logs//godis-d.log'', opened = 1, stdout = [], log_files = (\<lambda>name. [])\<rparr> = Inr lg'"
    "stdout lg' = concat (map (\<lambda>(t, msg). log_line ?ck t msg) [(1, ''a''), (2, ''b'')])" "opened lg' = 1 + 2"
    using log_lands_in_the_days_file [OF _ _ new, of "[(1, ''a''), (2, ''b'')]"] by auto
  then show ?thesis by (intro exI [of _ lg']) (simp add: log_line_def del: write_entries.simps)
qed

end
