(* ===== verification/Startup.thy ===== *)
theory Startup
  imports Config Network Server Logger
begin

text \<open>
  \<^verbatim>\<open>main.go\<close> and \<^verbatim>\<open>MakeRespHandler\<close>: the program from its start to the accept loop.  The answers
  of the operating system are arguments: \<open>stat\<close> is what \<^verbatim>\<open>os.Stat\<close> says of \<^verbatim>\<open>redis.conf\<close> (\<open>None\<close> for an
  error, otherwise whether it is a directory), \<open>conf\<close> its contents, \<open>aof\<close> those of the append-only
  file, and \<open>listen\<close> the error of listening.
\<close>

definition main_defaultProperties :: ServerProperties where
  "main_defaultProperties = zero_properties\<lparr>Bind := ''0.0.0.0'', Port := 6379\<rparr>"

definition main_logSettings :: Settings where
  "main_logSettings = \<lparr>Path = ''logs'', Name = ''godis'', Ext = ''log''\<rparr>"

definition fileExists :: "bool option \<Rightarrow> bool" where
  "fileExists stat = (case stat of None \<Rightarrow> False | Some isDir \<Rightarrow> \<not> isDir)"

definition main_properties :: "(nat \<Rightarrow> nat) \<Rightarrow> bool option \<Rightarrow> bytes option \<Rightarrow> ServerProperties option" where
  "main_properties u stat conf =
     (if fileExists stat then SetupConfig u conf else Some main_defaultProperties)"

definition main_Address :: "ServerProperties \<Rightarrow> string" where
  "main_Address cfg = Bind cfg @ '':'' @ Itoa (Port cfg)"

text \<open>
  The handler of a server, with a standalone database or with one behind a cluster node.  The
  interface value holds a pointer, which is nil (\<open>None\<close>) when the append-only file could not be opened:
  \<^verbatim>\<open>NewStandaloneDatabase\<close> only logs the error, and nobody looks at the pointer.
\<close>

datatype server_db =
    Alone "StandaloneDatabase option"
  | Clustered ClusterDatabase "StandaloneDatabase option"

definition MakeRespHandler :: "env \<Rightarrow> bytes option \<Rightarrow> bool \<Rightarrow> server_db RespHandler startup" where
  "MakeRespHandler env contents creatable =
     (let cfg = fst (snd env);
          handler = (\<lambda>d. \<lparr>activeConn = {},
            handler_db = (if uses_cluster cfg then Clustered (MakeClusterDatabase cfg) d else Alone d),
            closing = False\<rparr>)
      in case NewStandaloneDatabase env contents creatable of
        Started d \<Rightarrow> Started (handler (Some d))
      | OpenFailed \<Rightarrow> Started (handler None)
      | StartHangs \<Rightarrow> StartHangs
      | StartPanics p \<Rightarrow> StartPanics p)"

text \<open>
  Closing the database, and telling it of a client that has gone: a standalone database does
  nothing, and a cluster node passes the call to its own database.  The methods take the
  database by value, so a nil pointer panics before they begin.
\<close>

definition Standalone_Close :: "StandaloneDatabase option \<Rightarrow> StandaloneDatabase option go" where
  "Standalone_Close d = (case d of None \<Rightarrow> Inl NilDereference | Some db \<Rightarrow> Inr (Some db))"

definition Standalone_AfterClientClose :: "nat \<Rightarrow> StandaloneDatabase option \<Rightarrow> StandaloneDatabase option go" where
  "Standalone_AfterClientClose client d = (case d of None \<Rightarrow> Inl NilDereference | Some db \<Rightarrow> Inr (Some db))"

fun db_Close :: "server_db \<Rightarrow> server_db go" where
  "db_Close (Alone d) = go_bind (Standalone_Close d) (\<lambda>d. Inr (Alone d))"
| "db_Close (Clustered cl d) = go_bind (Standalone_Close d) (\<lambda>d. Inr (Clustered cl d))"

fun db_AfterClientClose :: "nat \<Rightarrow> server_db \<Rightarrow> server_db go" where
  "db_AfterClientClose client (Alone d) = go_bind (Standalone_AfterClientClose client d) (\<lambda>d. Inr (Alone d))"
| "db_AfterClientClose client (Clustered cl d) =
     go_bind (Standalone_AfterClientClose client d) (\<lambda>d. Inr (Clustered cl d))"

text \<open>So closing a handler leaves its data alone: nothing is written and the file stays open.\<close>

lemma db_Close_idle [simp]:
  "db_Close (Alone (Some d)) = Inr (Alone (Some d))"
  "db_Close (Clustered cl (Some d)) = Inr (Clustered cl (Some d))"
  "db_AfterClientClose client (Alone (Some d)) = Inr (Alone (Some d))"
  "db_AfterClientClose client (Clustered cl (Some d)) = Inr (Clustered cl (Some d))"
  by (simp_all add: Standalone_Close_def Standalone_AfterClientClose_def)

text \<open>
  \<^verbatim>\<open>Exec\<close> through the pointer.  On a nil pointer everything that looks at the databases panics, and
  \<^verbatim>\<open>Exec\<close> recovers with a nil reply; a SELECT with the wrong number of arguments, no number or a
  negative one is answered before that.
\<close>

definition pointer_Exec :: "env \<Rightarrow> StandaloneDatabase option db_exec" where
  "pointer_Exec env p client as =
     (case p of
        Some d \<Rightarrow> (case Exec env d client as of (r, d, c) \<Rightarrow> (r, Some d, c))
      | None \<Rightarrow>
          (case go_index as 0 of
             Inl _ \<Rightarrow> None
           | Inr name \<Rightarrow>
               if ToLower (fst env) name \<noteq> ''select'' then None
               else if length as \<noteq> 2 then Some (ArgNumErrReply ''select'')
               else
                 (case Atoi (as ! 1) of
                    (dbIndex, err) \<Rightarrow>
                      if err \<noteq> None then Some (MakeErrReply ''ERR invalid DB index'')
                      else if dbIndex < 0 then Some (MakeErrReply ''ERR DB index out of range'')
                      else None), None, client))"

text \<open>
  The handler with its standalone database: the call that tells the database of a closed client,
  the last step of \<^verbatim>\<open>closeClient\<close> that can fail, runs in a goroutine nobody recovers.
\<close>

definition Alone_Handler ::
  "env \<Rightarrow> write_fault \<Rightarrow> nat \<Rightarrow> reader \<Rightarrow> StandaloneDatabase option RespHandler \<Rightarrow>
     (conn_end \<times> Connection \<times> StandaloneDatabase option RespHandler) go" where
  "Alone_Handler env net client rd r =
     (case Handler_Handler (pointer_Exec env) net client rd r of
        (e, c, r) \<Rightarrow>
          if e \<in> {ClientClosed, WriteFailed} then
            go_bind (Standalone_AfterClientClose client (handler_db r)) (\<lambda>d. Inr (e, c, r\<lparr>handler_db := d\<rparr>))
          else Inr (e, c, r))"

text \<open>\<^verbatim>\<open>Close\<close> of the handler: the sockets are closed, then the database.\<close>

definition Alone_Close ::
  "StandaloneDatabase option RespHandler \<Rightarrow> (nat set \<times> StandaloneDatabase option RespHandler) go" where
  "Alone_Close r =
     (case RespHandler_Close r of
        (closed, r) \<Rightarrow> go_bind (Standalone_Close (handler_db r)) (\<lambda>d. Inr (closed, r\<lparr>handler_db := d\<rparr>)))"

text \<open>Where the program gets to: the accept loop, or why it does not get there.\<close>

datatype main_result =
    LoggerPanics string
  | ConfigPanics
  | NoDatabase "server_db RespHandler startup"
  | NotListening string Logger go_error
  | Serving string Logger "server_db RespHandler" Server

definition main ::
  "(nat \<Rightarrow> nat) \<Rightarrow> filesystem \<Rightarrow> clock \<Rightarrow> nat \<Rightarrow> (string \<Rightarrow> bytes) \<Rightarrow> bool option \<Rightarrow> bytes option \<Rightarrow>
   write_fault \<Rightarrow> bytes option \<Rightarrow> bool \<Rightarrow> go_error option \<Rightarrow> main_result" where
  "main u fs ck now logs stat conf disk aof creatable listen =
     (case Setup fs main_logSettings ck now logs of
        Inl err \<Rightarrow> LoggerPanics err
      | Inr lg \<Rightarrow>
          (case main_properties u stat conf of
             None \<Rightarrow> ConfigPanics
           | Some cfg \<Rightarrow>
               (case MakeRespHandler (u, cfg, disk) aof creatable of
                  Started r \<Rightarrow>
                    (case ListenAndServeWithSignal listen of
                       Inl err \<Rightarrow> NotListening (main_Address cfg) lg err
                     | Inr s \<Rightarrow> Serving (main_Address cfg) lg r s)
                | failed \<Rightarrow> NoDatabase failed)))"

section \<open>Facts\<close>

lemma Itoa_6379: "Itoa 6379 = ''6379''"
proof -
  have "format_nat 6379 = [digit_char 6, digit_char 3, digit_char 7, digit_char 9]"
    by (subst format_nat.simps, simp, subst format_nat.simps, simp, subst format_nat.simps, simp,
        subst format_nat.simps, simp)
  then show ?thesis by (simp add: Itoa_def FormatInt_def digit_char_def char_of_eq_iff)
qed

text \<open>Without a configuration file: all interfaces, the usual port, no cluster, no append-only file.\<close>

lemma main_without_config:
  "main_properties u None conf = Some main_defaultProperties" "main_Address main_defaultProperties = ''0.0.0.0:6379''"
  "\<not> uses_cluster main_defaultProperties" "\<not> AppendOnly main_defaultProperties"
  by (simp_all add: main_properties_def fileExists_def main_defaultProperties_def main_Address_def zero_properties_def
      uses_cluster_def Itoa_6379)

text \<open>The databases of a first start, without an append-only file.\<close>

lemma first_start:
  assumes "0 < database_count p" and "database_count p \<le> 2 ^ 45"
  shows "\<exists>d. NewStandaloneDatabase (u, p, disk) None True = Started d \<and> sa_inv d \<and>
    length (dbSet d) = nat (database_count p) \<and> (\<forall>i. sa_abs d i = Map.empty)"
proof -
  let ?n = "nat (database_count p)"
  have empty: "sa_abs (empty_server ?n) i = Map.empty" for i
    by (auto simp: sa_abs_def empty_server_def fresh_dbs_def db_abs_def makeDB_def MakeSyncDict_def dict_abs_def fun_eq_iff)
  show ?thesis
  proof (cases "AppendOnly p")
    case True
    have s: "snapshot (started (empty_server ?n) []) = snapshot (empty_server ?n)" by simp
    show ?thesis
      by (rule exI [of _ "started (empty_server ?n) []"], intro conjI start_fresh [OF True assms])
        (use sa_inv_started [OF sa_inv_empty [of ?n], of "[]"] snapshot_abs [OF s] snapshot_length [OF s] empty in simp_all)
  next
    case False
    then have "NewStandaloneDatabase (u, p, disk) None True = Started (empty_server ?n)"
      using assms by (simp add: NewStandaloneDatabase_def make_dbSet empty_server_def Let_def)
    with empty show ?thesis by auto
  qed
qed

text \<open>
  Started on the description of its settings, with no append-only file yet, the program listens
  on the configured address and serves empty databases, as a node of the configured cluster when
  it has peers, with its log in the file of the day.
\<close>

lemma main_serves:
  assumes "fs_works fs" and "writable p" and "0 \<le> Databases p" and "Databases p \<le> 2 ^ 45"
  shows "\<exists>lg r d. main u fs ck now logs (Some False) (Some (join_lines (config_lines p))) disk None True None =
      Serving (main_Address p) lg r new_server \<and>
    logName lg = ''logs/godis-'' @ day ck now @ ''.log'' \<and>
    activeConn r = {} \<and> \<not> closing r \<and>
    handler_db r = (if uses_cluster p then Clustered (MakeClusterDatabase p) (Some d) else Alone (Some d)) \<and>
    sa_inv d \<and> length (dbSet d) = nat (database_count p) \<and> (\<forall>i. sa_abs d i = Map.empty)"
proof -
  have p: "main_properties u (Some False) (Some (join_lines (config_lines p))) = Some p"
    using parse_config_lines [OF assms(2)] by (simp add: main_properties_def fileExists_def SetupConfig_def)
  have "0 < database_count p" "database_count p \<le> 2 ^ 45" using assms(3,4) by (auto simp: database_count_def)
  from first_start [OF this] obtain d where d: "NewStandaloneDatabase (u, p, disk) None True = Started d"
    "sa_inv d" "length (dbSet d) = nat (database_count p)" "\<forall>i. sa_abs d i = Map.empty" by blast
  have "Setup fs main_logSettings ck now logs =
      Inr \<lparr>logName = ''logs/godis-'' @ day ck now @ ''.log'', opened = 1, stdout = [], log_files = logs\<rparr>"
    by (simp add: Setup_def NewFileLogger_def mustOpen_ok [OF assms(1)] main_logSettings_def log_fileName_def)
  with p d show ?thesis by (simp add: main_def MakeRespHandler_def ListenAndServeWithSignal_def Let_def)
qed

section \<open>The pointer\<close>

text \<open>Behind a pointer that is not nil the handler is the one of \<open>Handler\<close>.\<close>

lemma handle_payloads_pointer:
  "handle_payloads (pointer_Exec env) net ps fin (Some d) c =
     (case handle_payloads (Exec env) net ps fin d c of (e, d, c) \<Rightarrow> (e, Some d, c))"
proof (induction ps arbitrary: d c)
  case (Cons p ps)
  have x: "execute (pointer_Exec env) net as (Some d) c =
      (case execute (Exec env) net as d c of GoOn d c \<Rightarrow> GoOn (Some d) c | Stop e d c \<Rightarrow> Stop e (Some d) c)" for as
    by (cases "Exec env d c as") (auto simp: execute_def pointer_Exec_def split: sum.splits)
  have "handle_payload (pointer_Exec env) net p (Some d) c =
      (case handle_payload (Exec env) net p d c of GoOn d c \<Rightarrow> GoOn (Some d) c | Stop e d c \<Rightarrow> Stop e (Some d) c)"
    by (simp add: handle_payload_def x split: option.splits reply.splits sum.splits prod.splits)
  with Cons.IH show ?case by (simp split: served.splits prod.splits)
qed simp

lemma Alone_Handler_Some:
  assumes "Handler_Handler (Exec env) net client rd \<lparr>activeConn = C, handler_db = d, closing = b\<rparr> =
    (e, c, \<lparr>activeConn = C', handler_db = d', closing = b'\<rparr>)"
  shows "Alone_Handler env net client rd \<lparr>activeConn = C, handler_db = Some d, closing = b\<rparr> =
    Inr (e, c, \<lparr>activeConn = C', handler_db = Some d', closing = b'\<rparr>)"
  using assms
  by (auto simp: Alone_Handler_def Handler_Handler_def serve_stream_def handle_payloads_pointer closeClient_def
      Standalone_AfterClientClose_def Let_def split: prod.splits if_splits)

text \<open>Behind a nil pointer every command but SELECT is answered by the bytes for an unknown error.\<close>

lemma handle_commands_nil:
  assumes net: "\<forall>n. net n = None"
  shows "\<forall>cmd \<in> set cmds. cmd \<noteq> [] \<and> ToLower (fst env) (hd cmd) \<noteq> ''select'' \<Longrightarrow> conn c = Some s \<Longrightarrow>
    \<exists>c2. handle_payloads (pointer_Exec env) net (map command_payload cmds @ ps) fin None c =
        handle_payloads (pointer_Exec env) net ps fin None c2 \<and>
      conn c2 = Some \<lparr>written = written s @ concat (replicate (length cmds) unknownErrReplyBytes),
                      writes = writes s + length cmds\<rparr>"
proof (induction cmds arbitrary: c s)
  case Nil
  then show ?case by (cases s) auto
next
  case (Cons cmd cmds)
  let ?s = "\<lparr>written = written s @ unknownErrReplyBytes, writes = writes s + 1\<rparr>"
  have "pointer_Exec env None c cmd = (None, None, c)"
    using Cons.prems(1) by (cases cmd) (auto simp: pointer_Exec_def go_index_def)
  moreover have "unknownErrReplyBytes \<noteq> []" by (simp add: unknownErrReplyBytes_def MakeErrReply_def StandardErrReply_ToBytes_def)
  ultimately have "handle_payload (pointer_Exec env) net (command_payload cmd) None c = GoOn None (c\<lparr>conn := Some ?s\<rparr>)"
    using Connection_Write_ok [of c s net unknownErrReplyBytes] net Cons.prems(2)
    by (simp add: handle_payload_def command_payload_def execute_def reply_bytes_def)
  with Cons.IH [of "c\<lparr>conn := Some ?s\<rparr>" ?s] Cons.prems(1) show ?case by simp
qed

end
