(* ===== verification/Concurrency.thy ===== *)
theory Concurrency
  imports Database
begin

text \<open>
  Clients at the same time.  Every connection has its own goroutine and commands take no
  lock, so the operations of several commands on the dictionary and on the append-only
  file interleave; only each single operation of \<^verbatim>\<open>sync.Map\<close> and each call of \<^verbatim>\<open>AddAof\<close>, which
  holds a lock, is atomic.  Here a command is the sequence of these operations, in the order of
  \<^verbatim>\<open>database/string.go\<close>, \<^verbatim>\<open>database/keys.go\<close> and \<^verbatim>\<open>datastruct/dict/sync_dict.go\<close>; what a load returns
  decides how it goes on.  Every value in a database is a byte slice (\<open>Database.db_inv\<close>), so the
  branches of the source for values of another type do not come up.  The commands on the whole
  database (FLUSHDB, KEYS) are left out.

  \<open>DB_Exec_run_proc\<close> ties the sequences to the sequential model: run alone, a sequence does
  what \<open>DB_Exec\<close> does, log included.  \<open>on_track\<close> is the invariant of clients on disjoint keys; it
  gives that they are served as if alone and that the lines of the log bring their data back
  (\<open>disjoint_run\<close>).  The log here is the lines that one database hands to its hook;
  \<open>ConcurrentAof\<close> has the bytes of the file and the clients of all databases.  The races at
  the end show what clients on the same key can see.
\<close>

section \<open>Operations\<close>

datatype proc =
    LoadP string "bytes option \<Rightarrow> proc"
  | StoreP string bytes proc
  | LoadOrStoreP string bytes "bool \<Rightarrow> proc"
  | DeleteP string proc
  | LogP CmdLine proc
  | DoneP "reply list"

type_synonym shared = "store \<times> CmdLine list"

fun proc_step :: "proc \<Rightarrow> shared \<Rightarrow> (proc \<times> shared) option" where
  "proc_step (LoadP k f) (s, l) = Some (f (s k), s, l)"
| "proc_step (StoreP k v p) (s, l) = Some (p, s(k \<mapsto> v), l)"
| "proc_step (LoadOrStoreP k v f) (s, l) =
     Some (f (s k \<noteq> None), if s k = None then s(k \<mapsto> v) else s, l)"
| "proc_step (DeleteP k p) (s, l) = Some (p, s(k := None), l)"
| "proc_step (LogP c p) (s, l) = Some (p, s, l @ [c])"
| "proc_step (DoneP rs) (s, l) = None"

text \<open>Running a sequence alone to its end.\<close>

primrec run_proc :: "proc \<Rightarrow> shared \<Rightarrow> reply list \<times> shared" where
  "run_proc (LoadP k f) = (\<lambda>(s, l). run_proc (f (s k)) (s, l))"
| "run_proc (StoreP k v p) = (\<lambda>(s, l). run_proc p (s(k \<mapsto> v), l))"
| "run_proc (LoadOrStoreP k v f) =
     (\<lambda>(s, l). run_proc (f (s k \<noteq> None)) (if s k = None then s(k \<mapsto> v) else s, l))"
| "run_proc (DeleteP k p) = (\<lambda>(s, l). run_proc p (s(k := None), l))"
| "run_proc (LogP c p) = (\<lambda>(s, l). run_proc p (s, l @ [c]))"
| "run_proc (DoneP rs) = (\<lambda>(s, l). (rs, s, l))"

lemma proc_step_run: "proc_step p sl = Some (p', sl') \<Longrightarrow> run_proc p sl = run_proc p' sl'"
  by (cases p; cases sl) auto

text \<open>What a sequence logs does not depend on the log.\<close>

lemma run_proc_log:
  "run_proc p (s, l) = (case run_proc p (s, []) of (rs, s', x) \<Rightarrow> (rs, s', l @ x))"
proof (induction p arbitrary: s l)
  case (LoadP k f)
  show ?case by (simp, rule LoadP) simp
next
  case (StoreP k v p)
  show ?case by (simp, rule StoreP)
next
  case (LoadOrStoreP k v f)
  show ?case unfolding run_proc.simps prod.case by (rule LoadOrStoreP) simp
next
  case (DeleteP k p)
  show ?case by (simp, rule DeleteP)
next
  case (LogP c p)
  show ?case using LogP [of s "l @ [c]"] LogP [of s "[c]"] by (simp split: prod.splits)
next
  case (DoneP rs)
  show ?case by simp
qed

section \<open>Commands\<close>

text \<open>\<^verbatim>\<open>SyncDict.Put\<close>, \<^verbatim>\<open>PutIfAbsent\<close> and \<^verbatim>\<open>Remove\<close>.\<close>

definition PutP :: "string \<Rightarrow> bytes \<Rightarrow> proc \<Rightarrow> proc" where
  "PutP k v p = LoadP k (\<lambda>old. StoreP k v p)"

definition PutIfAbsentP :: "string \<Rightarrow> bytes \<Rightarrow> (int64 \<Rightarrow> proc) \<Rightarrow> proc" where
  "PutIfAbsentP k v f = LoadOrStoreP k v (\<lambda>existed. if existed then f 0 else StoreP k v (f 1))"

definition RemoveP :: "string \<Rightarrow> (bool \<Rightarrow> proc) \<Rightarrow> proc" where
  "RemoveP k f = LoadP k (\<lambda>old. if old = None then f False else DeleteP k (f True))"

definition value_reply :: "bytes option \<Rightarrow> reply" where
  "value_reply v = (case v of None \<Rightarrow> NullBulkReply | Some b \<Rightarrow> BulkReply b)"

fun del_proc :: "string list \<Rightarrow> CmdLine \<Rightarrow> nat \<Rightarrow> proc" where
  "del_proc [] line deleted =
     (if deleted > 0 then LogP line (DoneP [IntReply (of_nat deleted)]) else DoneP [IntReply (of_nat deleted)])"
| "del_proc (k # ks) line deleted = RemoveP k (\<lambda>b. del_proc ks line (if b then deleted + 1 else deleted))"

fun exists_proc :: "string list \<Rightarrow> nat \<Rightarrow> proc" where
  "exists_proc [] n = DoneP [IntReply (of_nat n)]"
| "exists_proc (k # ks) n = LoadP k (\<lambda>v. exists_proc ks (if v = None then n else n + 1))"

text \<open>
  The sequence of a command with the right number of arguments; \<open>c\<close> is its name in lower case.
  First \<^verbatim>\<open>string.go\<close>, then \<^verbatim>\<open>keys.go\<close>.
\<close>

definition string_proc :: "string \<Rightarrow> bytes list \<Rightarrow> proc" where
  "string_proc c as =
     (if c = ''get'' then LoadP (as ! 0) (\<lambda>v. DoneP [value_reply v])
      else if c = ''set'' then PutP (as ! 0) (as ! 1) (LogP (c # as) (DoneP [OkReply]))
      else if c = ''setnx'' then PutIfAbsentP (as ! 0) (as ! 1) (\<lambda>n. LogP (c # as) (DoneP [IntReply n]))
      else if c = ''getset'' then
        LoadP (as ! 0) (\<lambda>v. PutP (as ! 0) (as ! 1) (LogP (c # as) (DoneP [value_reply v])))
      else
        LoadP (as ! 0) (\<lambda>v. DoneP [case v of None \<Rightarrow> NullBulkReply | Some b \<Rightarrow> IntReply (of_nat (length b))]))"

definition keys_proc :: "string \<Rightarrow> bytes list \<Rightarrow> proc" where
  "keys_proc c as =
     (if c = ''del'' then del_proc as (c # as) 0
      else if c = ''exists'' then exists_proc as 0
      else if c = ''type'' then
        LoadP (as ! 0) (\<lambda>v. DoneP [StatusReply (if v = None then ''none'' else ''string'')])
      else if c = ''rename'' then
        LoadP (as ! 0) (\<lambda>v. case v of
          None \<Rightarrow> DoneP [StandardErrReply ''no such key'']
        | Some b \<Rightarrow> PutP (as ! 1) b (RemoveP (as ! 0) (\<lambda>x. LogP (c # as) (DoneP [OkReply]))))
      else
        LoadP (as ! 1) (\<lambda>w. if w \<noteq> None then DoneP [IntReply 0] else
          LoadP (as ! 0) (\<lambda>v. case v of
            None \<Rightarrow> DoneP [StandardErrReply ''no such key'']
          | Some b \<Rightarrow> PutP (as ! 1) b (RemoveP (as ! 0) (\<lambda>x. LogP (c # as) (DoneP [IntReply 1]))))))"

definition body_proc :: "string \<Rightarrow> bytes list \<Rightarrow> proc" where
  "body_proc c as =
     (if c \<in> {''get'', ''set'', ''setnx'', ''getset'', ''strlen''} then string_proc c as
      else if c \<in> {''del'', ''exists'', ''type'', ''rename'', ''renamenx''} then keys_proc c as
      else DoneP [PongReply])"

lemmas body_proc_defs = body_proc_def string_proc_def keys_proc_def

definition command_proc :: "string \<Rightarrow> bytes list \<Rightarrow> proc" where
  "command_proc c as =
     (if c \<notin> known_commands then DoneP [StandardErrReply (''ERR unknown command '' @ [QUOTE] @ c @ [QUOTE])]
      else if \<not> arity_ok c (length as) then DoneP [ArgNumErrReply c]
      else body_proc c as)"

section \<open>Run alone\<close>

lemma run_del:
  "run_proc (del_proc ks line n) (s, l) =
     (let n' = n + card (set ks \<inter> dom s) in
      ([IntReply (of_nat n')], s |` (- set ks), if n' > 0 then l @ [line] else l))"
proof (induction ks arbitrary: s n)
  case Nil
  then show ?case by simp
next
  case (Cons k ks)
  show ?case
  proof (cases "s k")
    case None
    then have "set (k # ks) \<inter> dom s = set ks \<inter> dom s" "s |` (- set (k # ks)) = s |` (- set ks)"
      by (auto simp: restrict_map_def fun_eq_iff)
    with None Cons show ?thesis by (simp add: RemoveP_def)
  next
    case (Some v)
    have "set (k # ks) \<inter> dom s = insert k (set ks \<inter> dom (s(k := None)))" using Some by auto
    then have "card (set (k # ks) \<inter> dom s) = Suc (card (set ks \<inter> dom (s(k := None))))" by simp
    moreover have "s(k := None) |` (- set ks) = s |` (- set (k # ks))"
      by (auto simp: restrict_map_def fun_eq_iff)
    ultimately show ?thesis using Some Cons by (simp add: RemoveP_def)
  qed
qed

lemma run_exists:
  "run_proc (exists_proc ks n) (s, l) = ([IntReply (of_nat (n + length (filter (\<lambda>k. k \<in> dom s) ks)))], s, l)"
  by (induction ks arbitrary: n) (auto simp: dom_def)


text \<open>A known command that works on keys, with the right number of arguments.\<close>

lemma command_proc_accepted:
  "c \<in> known_commands \<Longrightarrow> arity_ok c (length as) \<Longrightarrow> command_proc c as = body_proc c as"
  by (simp add: command_proc_def)

lemmas body_simps = command_proc_accepted known_commands_def arity_ok_names body_proc_defs PutP_def
  PutIfAbsentP_def RemoveP_def value_reply_def

lemma restrict_untouched: "set ks \<inter> dom s = {} \<Longrightarrow> s |` (- set ks) = s"
  by (auto simp: restrict_map_def fun_eq_iff disjoint_iff domIff eq_commute [of None])

text \<open>Run alone, a command is a step of the abstract store; what it logs is itself or nothing.\<close>

lemma run_command:
  assumes "redis_step s c as r s'" and "c \<notin> {''flushdb'', ''keys''}"
  shows "\<exists>x. run_proc (command_proc c as) (s, l) = ([r], s', l @ x) \<and> (x = [] \<and> s' = s \<or> x = [c # as])"
  using assms
proof (cases rule: redis_step.cases)
  case del
  with restrict_untouched [of as s] show ?thesis by (auto simp: body_simps run_del Let_def Suc_le_eq)
next
  case exists
  then show ?thesis by (simp add: body_simps run_exists Suc_le_eq)
next
  case unknown
  then show ?thesis by (simp add: command_proc_def)
next
  case arity_error
  then show ?thesis by (simp add: command_proc_def)
qed (simp_all add: body_simps)


text \<open>The commands of \<open>DB_Exec\<close> and their sequences log in the same cases.\<close>

lemma exec_of_logs:
  assumes inv: "db_inv db" and "c \<in> known_commands" and "arity_ok c (length as)"
    and "c \<notin> {''flushdb'', ''keys''}" and "exec_of c db as = Inr (r, db', log)"
  shows "log = [] \<longleftrightarrow> snd (snd (run_proc (body_proc c as) (db_abs db, []))) = []"
  using assms(2,3)
proof (cases rule: accepted_cases)
  case del
  obtain n db1 where "Removes as db = (n, db1)" by (cases "Removes as db")
  with Removes_step [OF inv this] del assms(5) show ?thesis
    by (auto simp: exec_of_def execDel_def body_proc_defs run_del Let_def split: if_splits)
next
  case exists
  with assms(5) show ?thesis by (auto simp: exec_of_def execExists_def body_proc_defs run_exists)
next
  case (get k)
  with assms(5) show ?thesis
    by (cases rule: lookup_cases [OF inv, of k]) (auto simp: exec_of_def execGet_def body_proc_defs)
next
  case (strlen k)
  with assms(5) show ?thesis
    by (cases rule: lookup_cases [OF inv, of k]) (auto simp: exec_of_def execStrlen_def body_proc_defs)
next
  case (type k)
  with assms(5) show ?thesis
    by (cases rule: lookup_cases [OF inv, of k]) (auto simp: exec_of_def execType_def body_proc_defs)
next
  case (setnx k v)
  with assms(5) show ?thesis
    by (cases "db_abs db k") (auto simp: exec_of_def execSetnx_def body_simps split: prod.splits)
next
  case (getset k v)
  with assms(5) show ?thesis
    by (cases rule: lookup_cases [OF inv, of k]) (auto simp: exec_of_def execGetset_def body_simps Let_def)
next
  case (rename k v)
  with assms(5) show ?thesis
    by (cases rule: lookup_cases [OF inv, of k]) (auto simp: exec_of_def execRename_def body_simps Let_def)
next
  case (renamenx k v)
  with assms(5) show ?thesis
    by (cases rule: lookup_cases [OF inv, of k]; cases rule: lookup_cases [OF inv, of v])
      (auto simp: exec_of_def execRenamenx_def body_simps Let_def)
qed (use assms(4,5) in \<open>auto simp: exec_of_def execSet_def Ping_def body_simps Let_def\<close>)

text \<open>So a sequence that runs alone does what the sequential model says, log included.\<close>

lemma DB_Exec_run_proc:
  assumes "db_inv db" and "ToLower u name \<notin> {''flushdb'', ''keys''}"
  shows "\<exists>r db' log. DB_Exec u db (name # as) = Inr (r, db', log) \<and> db_inv db' \<and>
    run_proc (command_proc (ToLower u name) as) (db_abs db, l) = ([r], db_abs db', l @ log)"
proof -
  let ?c = "ToLower u name"
  obtain r db' log where 1: "DB_Exec u db (name # as) = Inr (r, db', log)" "db_inv db'"
      "redis_step (db_abs db) ?c as r (db_abs db')"
      "log = [] \<and> db' = db \<or> log = [?c # as]"
    by (rule DB_Exec_ok [OF assms(1), of "name # as" u]) auto
  obtain x where x: "run_proc (command_proc ?c as) (db_abs db, []) = ([r], db_abs db', x)"
      "x = [] \<or> x = [?c # as]"
    using run_command [OF 1(3) assms(2), of "[]"] by auto
  have "log = [] \<longleftrightarrow> x = []"
  proof (cases "?c \<in> known_commands \<and> arity_ok ?c (length as)")
    case True
    with 1(1) have "exec_of ?c db as = Inr (r, db', log)" by (simp add: DB_Exec_cases)
    with True x(1) show ?thesis
      using exec_of_logs [OF assms(1) _ _ assms(2), of as r db' log] by (simp add: command_proc_accepted)
  next
    case False
    with 1(1) x(1) show ?thesis by (auto simp: DB_Exec_cases command_proc_def split: if_splits)
  qed
  with 1(4) x have "run_proc (command_proc ?c as) (db_abs db, []) = ([r], db_abs db', log)" by auto
  then have "run_proc (command_proc ?c as) (db_abs db, l) = ([r], db_abs db', l @ log)"
    by (simp add: run_proc_log [of _ _ l])
  with 1 show ?thesis by blast
qed


section \<open>Sessions\<close>

text \<open>A client waits for the reply of a command before its next command runs.\<close>

primrec then_do :: "proc \<Rightarrow> (reply list \<Rightarrow> proc) \<Rightarrow> proc" where
  "then_do (LoadP k f) q = LoadP k (\<lambda>v. then_do (f v) q)"
| "then_do (StoreP k v p) q = StoreP k v (then_do p q)"
| "then_do (LoadOrStoreP k v f) q = LoadOrStoreP k v (\<lambda>b. then_do (f b) q)"
| "then_do (DeleteP k p) q = DeleteP k (then_do p q)"
| "then_do (LogP c p) q = LogP c (then_do p q)"
| "then_do (DoneP rs) q = q rs"

definition line_proc :: "(nat \<Rightarrow> nat) \<Rightarrow> CmdLine \<Rightarrow> proc" where
  "line_proc u line = command_proc (ToLower u (hd line)) (tl line)"

fun session_proc :: "(nat \<Rightarrow> nat) \<Rightarrow> CmdLine list \<Rightarrow> reply list \<Rightarrow> proc" where
  "session_proc u [] rs = DoneP rs"
| "session_proc u (line # lines) rs = then_do (line_proc u line) (\<lambda>r. session_proc u lines (rs @ r))"

text \<open>The commands on keys, as opposed to FLUSHDB and KEYS.\<close>

definition on_keys :: "(nat \<Rightarrow> nat) \<Rightarrow> CmdLine \<Rightarrow> bool" where
  "on_keys u line \<longleftrightarrow> line \<noteq> [] \<and> ToLower u (hd line) \<notin> {''flushdb'', ''keys''}"

lemma run_then_do: "run_proc (then_do p q) sl = (case run_proc p sl of (rs, sl') \<Rightarrow> run_proc (q rs) sl')"
proof (induction p arbitrary: sl)
  case (LoadP k f)
  show ?case by (cases sl) (simp, rule LoadP, simp)
next
  case (LoadOrStoreP k v f)
  show ?case by (cases sl) (simp only: then_do.simps run_proc.simps prod.case, rule LoadOrStoreP, simp)
qed (auto split: prod.splits)

text \<open>A session alone is the sequential run of its commands.\<close>

lemma exec_lines_run_proc:
  assumes "db_inv db" and "list_all (on_keys u) lines"
  shows "\<exists>rs db' logs. exec_lines u db lines = Inr (rs, db', logs) \<and> db_inv db' \<and>
    run_proc (session_proc u lines rs0) (db_abs db, l) = (rs0 @ rs, db_abs db', l @ logs)"
  using assms
proof (induction lines arbitrary: db rs0 l)
  case Nil
  then show ?case by simp
next
  case (Cons line lines)
  then obtain name as where line: "line = name # as" "ToLower u name \<notin> {''flushdb'', ''keys''}"
    by (cases line) (auto simp: on_keys_def)
  obtain r db1 log where 1: "DB_Exec u db line = Inr (r, db1, log)" "db_inv db1"
      "run_proc (line_proc u line) (db_abs db, l) = ([r], db_abs db1, l @ log)"
    using DB_Exec_run_proc [OF Cons.prems(1) line(2), of as l] by (auto simp: line_proc_def line(1))
  obtain rs db' logs where "exec_lines u db1 lines = Inr (rs, db', logs)" "db_inv db'"
      "run_proc (session_proc u lines (rs0 @ [r])) (db_abs db1, l @ log) =
        ((rs0 @ [r]) @ rs, db_abs db', (l @ log) @ logs)"
    using Cons.IH [OF 1(2), of "rs0 @ [r]" "l @ log"] Cons.prems(2) by auto
  with 1 show ?case by (simp add: run_then_do)
qed

lemma exec_lines_alone:
  assumes "run_proc (session_proc u lines []) (db_abs db, []) = (rs, s', x)" and "db_inv db"
    and "list_all (on_keys u) lines"
  shows "\<exists>db'. exec_lines u db lines = Inr (rs, db', x) \<and> db_abs db' = s'"
  using exec_lines_run_proc [OF assms(2,3), of "[]" "[]"] assms(1) by auto

section \<open>The keys of a command\<close>

definition cmd_keys :: "string \<Rightarrow> bytes list \<Rightarrow> string set" where
  "cmd_keys c as =
     (if c \<notin> known_commands \<or> \<not> arity_ok c (length as) \<or> c = ''ping'' then {}
      else if c \<in> {''del'', ''exists''} then set as
      else if c \<in> {''rename'', ''renamenx''} then {as ! 0, as ! 1}
      else {as ! 0})"

definition line_keys :: "(nat \<Rightarrow> nat) \<Rightarrow> CmdLine \<Rightarrow> string set" where
  "line_keys u line = cmd_keys (ToLower u (hd line)) (tl line)"

text \<open>A sequence stays within a set of keys: so do the commands it logs.\<close>

primrec within :: "(nat \<Rightarrow> nat) \<Rightarrow> string set \<Rightarrow> proc \<Rightarrow> bool" where
  "within u K (LoadP k f) \<longleftrightarrow> k \<in> K \<and> (\<forall>v. within u K (f v))"
| "within u K (StoreP k v p) \<longleftrightarrow> k \<in> K \<and> within u K p"
| "within u K (LoadOrStoreP k v f) \<longleftrightarrow> k \<in> K \<and> (\<forall>b. within u K (f b))"
| "within u K (DeleteP k p) \<longleftrightarrow> k \<in> K \<and> within u K p"
| "within u K (LogP line p) \<longleftrightarrow> on_keys u line \<and> line_keys u line \<subseteq> K \<and> within u K p"
| "within u K (DoneP rs) \<longleftrightarrow> True"

lemma within_then_do:
  "within u K p \<Longrightarrow> (\<And>rs. within u K (q rs)) \<Longrightarrow> within u K (then_do p q)"
  by (induction p) auto

lemma within_del:
  "set ks \<subseteq> K \<Longrightarrow> on_keys u line \<Longrightarrow> line_keys u line \<subseteq> K \<Longrightarrow> within u K (del_proc ks line n)"
  by (induction ks arbitrary: n) (auto simp: RemoveP_def)

lemma within_exists: "set ks \<subseteq> K \<Longrightarrow> within u K (exists_proc ks n)"
  by (induction ks arbitrary: n) auto

lemma within_command:
  assumes "c \<notin> {''flushdb'', ''keys''}" and "cmd_keys c as \<subseteq> K"
  shows "within u K (command_proc c as)"
proof (cases "c \<in> known_commands \<and> arity_ok c (length as)")
  case False
  then show ?thesis by (auto simp: command_proc_def)
next
  case True
  then have known: "c \<in> known_commands" "arity_ok c (length as)" by auto
  then have log: "on_keys u (c # as)" "line_keys u (c # as) \<subseteq> K"
    using assms by (auto simp: on_keys_def line_keys_def ToLower_known)
  from known show ?thesis
  proof (cases rule: accepted_cases)
    case del
    with log assms(2) known show ?thesis by (auto simp: body_simps cmd_keys_def intro!: within_del)
  next
    case exists
    with assms(2) known show ?thesis by (auto simp: body_simps cmd_keys_def intro!: within_exists)
  qed (use log assms known in \<open>auto simp: body_simps cmd_keys_def split: option.splits\<close>)
qed

lemma within_session:
  "list_all (\<lambda>line. on_keys u line \<and> line_keys u line \<subseteq> K) lines \<Longrightarrow> within u K (session_proc u lines rs)"
  by (induction lines arbitrary: rs)
    (auto simp: line_proc_def on_keys_def line_keys_def intro!: within_then_do within_command)


text \<open>A sequence sees and changes its keys only.\<close>

lemma update_within:
  assumes "k \<in> K"
  shows "(s(k := v)) |` K = (s |` K)(k := v)" and "(s(k := v)) |` (- K) = s |` (- K)"
  using assms by (auto simp: restrict_map_def fun_eq_iff)

lemma within_step:
  assumes "within u K p" and "proc_step p (s, l) = Some (p', s', l')"
  shows "within u K p' \<and> s' |` (- K) = s |` (- K) \<and>
    (l' = l \<and> proc_step p (s |` K, []) = Some (p', s' |` K, []) \<or>
     (\<exists>line. p = LogP line p' \<and> on_keys u line \<and> line_keys u line \<subseteq> K \<and> l' = l @ [line] \<and> s' = s))"
  using assms
  by (cases p) (auto simp: update_within simp del: restrict_fun_upd fun_upd_None_restrict fun_upd_restrict_conv split: if_splits)

lemma run_within:
  assumes "within u K p"
  shows "run_proc p (s |` K, l) = (case run_proc p (s, l) of (rs, s', l') \<Rightarrow> (rs, s' |` K, l'))
    \<and> fst (snd (run_proc p (s, l))) |` (- K) = s |` (- K)"
  using assms
  by (induction p arbitrary: s l)
    (simp_all add: update_within(1) [symmetric] update_within(2) del: restrict_fun_upd fun_upd_None_restrict fun_upd_restrict_conv)

section \<open>Replaying the log\<close>

definition replay :: "(nat \<Rightarrow> nat) \<Rightarrow> CmdLine list \<Rightarrow> store \<Rightarrow> store" where
  "replay u lines s = fst (snd (run_proc (session_proc u lines []) (s, [])))"

lemma run_session_store:
  "fst (snd (run_proc (session_proc u lines rs) (s, l))) = replay u lines s"
proof (induction lines arbitrary: rs s l)
  case Nil
  then show ?case by (simp add: replay_def)
next
  case (Cons line lines)
  show ?case unfolding replay_def [of u "line # lines"]
    by (simp add: run_then_do run_proc_log [of "line_proc u line" s l] Cons.IH split: prod.splits)
qed

lemma replay_simps:
  "replay u [] s = s"
  "replay u (line # lines) s = replay u lines (fst (snd (run_proc (line_proc u line) (s, []))))"
  unfolding replay_def [of u "[]"] replay_def [of u "line # lines"]
  by (simp_all add: run_then_do run_session_store split: prod.splits)

lemma replay_append: "replay u (l @ l') s = replay u l' (replay u l s)"
  by (induction l arbitrary: s) (simp_all add: replay_simps)

lemma replay_Cons: "replay u (line # l) s = replay u l (replay u [line] s)"
  by (simp add: replay_simps)

lemma replay_line:
  assumes "on_keys u line" and "line_keys u line \<subseteq> K"
  shows "replay u [line] (s |` K) = replay u [line] s |` K"
    and "replay u [line] s |` (- K) = s |` (- K)"
  using run_within [OF within_command [of "ToLower u (hd line)" "tl line" K u], of s "[]"] assms
  by (auto simp: replay_simps line_proc_def on_keys_def line_keys_def split: prod.splits)

lemma body_logs:
  assumes "c \<in> known_commands" and "arity_ok c (length as)" and "c \<notin> {''flushdb'', ''keys''}"
    and "run_proc (body_proc c as) (s, []) = (rs, s', x)"
  shows "x = [] \<and> s' = s \<or> x = [c # as]"
  using assms(1,2)
proof (cases rule: accepted_cases)
  case del
  with assms(4) restrict_untouched [of as s] show ?thesis
    by (auto simp: body_proc_defs run_del Let_def split: if_splits)
next
  case exists
  with assms(4) show ?thesis by (simp add: body_proc_defs run_exists)
qed (use assms(3,4) in \<open>auto simp: body_simps split: option.splits if_splits\<close>)

lemma command_replays:
  assumes "on_keys u line" and "run_proc (line_proc u line) (s, []) = (rs, s', x)"
  shows "replay u x s = s'"
proof -
  define c where "c = ToLower u (hd line)"
  show ?thesis
  proof (cases "c \<in> known_commands \<and> arity_ok c (length (tl line))")
    case False
    with assms(2) show ?thesis
      by (auto simp: line_proc_def c_def command_proc_def replay_simps split: if_splits)
  next
    case True
    with assms body_logs [of c "tl line" s rs s' x] have "x = [] \<and> s' = s \<or> x = [c # tl line]"
      by (simp add: on_keys_def line_proc_def c_def command_proc_accepted)
    moreover have "line_proc u (c # tl line) = line_proc u line"
      using True by (simp add: line_proc_def c_def ToLower_known)
    ultimately show ?thesis using assms(2) by (auto simp: replay_simps)
  qed
qed

lemma session_replays:
  "list_all (on_keys u) lines \<Longrightarrow>
   run_proc (session_proc u lines rs0) (s, []) = (rs, s', x) \<Longrightarrow> replay u x s = s'"
proof (induction lines arbitrary: rs0 s rs s' x)
  case Nil
  then show ?case by (simp add: replay_simps)
next
  case (Cons line lines rs0 s x)
  obtain r s1 x1 where 1: "run_proc (line_proc u line) (s, []) = (r, s1, x1)"
    by (cases "run_proc (line_proc u line) (s, [])") auto
  obtain rs2 s2 x2 where 2: "run_proc (session_proc u lines (rs0 @ r)) (s1, []) = (rs2, s2, x2)"
    by (cases "run_proc (session_proc u lines (rs0 @ r)) (s1, [])") auto
  from Cons.prems 1 2 have "s' = s2" "x = x1 @ x2"
    by (simp_all add: run_then_do run_proc_log [of _ s1 x1])
  moreover have "replay u x1 s = s1" using Cons.prems(1) by (intro command_replays [OF _ 1]) simp
  moreover have "replay u x2 s1 = s2" using Cons.prems(1) by (intro Cons.IH [OF _ 2]) simp
  ultimately show ?case by (simp add: replay_append)
qed


section \<open>Clients at the same time\<close>

text \<open>The scheduler lets one operation of one client happen at a time.\<close>

fun run_procs :: "nat list \<Rightarrow> proc list \<Rightarrow> shared \<Rightarrow> proc list \<times> shared" where
  "run_procs [] ps sl = (ps, sl)"
| "run_procs (i # is) ps sl =
     (case (if i < length ps then proc_step (ps ! i) sl else None) of
        None \<Rightarrow> run_procs is ps sl
      | Some (p, sl') \<Rightarrow> run_procs is (ps[i := p]) sl')"

text \<open>
  What holds for each client on the way: running what is left of it on its part of the store
  gives what it would have given alone, and the rest of its log brings the replayed store there.
\<close>

definition on_track :: "(nat \<Rightarrow> nat) \<Rightarrow> string set \<Rightarrow> reply list \<times> store \<Rightarrow> proc \<Rightarrow> store \<Rightarrow> store \<Rightarrow> bool" where
  "on_track u K goal p s r \<longleftrightarrow> within u K p \<and>
     (\<exists>x. run_proc p (s |` K, []) = (fst goal, snd goal, x) \<and> replay u x (r |` K) = snd goal)"

lemma on_track_own:
  assumes "on_track u K goal p s (replay u l s0)" and step: "proc_step p (s, l) = Some (p', s', l')"
  shows "on_track u K goal p' s' (replay u l' s0)"
proof -
  from assms(1) obtain x where p: "within u K p" "run_proc p (s |` K, []) = (fst goal, snd goal, x)"
      "replay u x (replay u l s0 |` K) = snd goal"
    by (auto simp: on_track_def)
  note w = within_step [OF p(1) step]
  then consider "l' = l" "proc_step p (s |` K, []) = Some (p', s' |` K, [])"
    | line where "p = LogP line p'" "on_keys u line" "line_keys u line \<subseteq> K" "l' = l @ [line]" "s' = s"
    by blast
  then show ?thesis
  proof cases
    case 1
    have "run_proc p' (s' |` K, []) = (fst goal, snd goal, x)" using proc_step_run [OF 1(2)] p(2) by simp
    with p(3) w 1(1) show ?thesis by (auto simp: on_track_def)
  next
    case 2
    obtain x' where x': "run_proc p' (s |` K, []) = (fst goal, snd goal, x')" "x = line # x'"
      using p(2) unfolding 2(1) by (auto simp: run_proc_log [of p' _ "[line]"] split: prod.splits)
    have "replay u x' (replay u l' s0 |` K) = snd goal"
      using p(3) replay_line(1) [OF 2(2,3)] unfolding x'(2) 2(4) replay_Cons [of u line x']
      by (simp add: replay_append)
    with x' w 2(5) show ?thesis by (auto simp: on_track_def)
  qed
qed

lemma step_elsewhere:
  assumes "within u K p" and "proc_step p (s, l) = Some (p', s', l')"
  shows "s' |` (- K) = s |` (- K) \<and> replay u l' s0 |` (- K) = replay u l s0 |` (- K)"
  using within_step [OF assms] replay_line(2) [of u _ K "replay u l s0"] by (auto simp: replay_append)

lemma restrict_smaller: "s |` A = s' |` A \<Longrightarrow> B \<subseteq> A \<Longrightarrow> s |` B = s' |` B"
  by (metis inf.absorb2 restrict_restrict)

definition all_on_track ::
  "(nat \<Rightarrow> nat) \<Rightarrow> string set list \<Rightarrow> (reply list \<times> store) list \<Rightarrow> proc list \<Rightarrow> store \<Rightarrow> store \<Rightarrow> bool" where
  "all_on_track u Ks goals ps s r \<longleftrightarrow> length ps = length Ks \<and>
     (\<forall>i < length Ks. on_track u (Ks ! i) (goals ! i) (ps ! i) s r) \<and>
     s |` (- \<Union> (set Ks)) = r |` (- \<Union> (set Ks))"

definition disjoint_keys :: "string set list \<Rightarrow> bool" where
  "disjoint_keys Ks \<longleftrightarrow> (\<forall>i < length Ks. \<forall>j < length Ks. i \<noteq> j \<longrightarrow> Ks ! i \<inter> Ks ! j = {})"

lemma all_on_track_step:
  assumes "all_on_track u Ks goals ps s (replay u l s0)" and "disjoint_keys Ks" and "i < length ps"
    and step: "proc_step (ps ! i) (s, l) = Some (p', s', l')"
  shows "all_on_track u Ks goals (ps[i := p']) s' (replay u l' s0)"
proof -
  have i: "i < length Ks" "length ps = length Ks"
    and t: "\<And>j. j < length Ks \<Longrightarrow> on_track u (Ks ! j) (goals ! j) (ps ! j) s (replay u l s0)"
    using assms(1,3) by (auto simp: all_on_track_def)
  have "within u (Ks ! i) (ps ! i)" using t [OF i(1)] by (simp add: on_track_def)
  note same = step_elsewhere [OF this step, of s0]
  have "on_track u (Ks ! j) (goals ! j) (ps[i := p'] ! j) s' (replay u l' s0)" if j: "j < length Ks" for j
  proof (cases "j = i")
    case True
    with on_track_own [OF t [OF i(1)] step] i show ?thesis by simp
  next
    case False
    then have sub: "Ks ! j \<subseteq> - Ks ! i" using assms(2) i(1) j by (auto simp: disjoint_keys_def)
    with same have "s' |` (Ks ! j) = s |` (Ks ! j)" "replay u l' s0 |` (Ks ! j) = replay u l s0 |` (Ks ! j)"
      by (auto intro: restrict_smaller)
    with t [OF j] False show ?thesis by (simp add: on_track_def)
  qed
  moreover have "s' |` (- \<Union> (set Ks)) = replay u l' s0 |` (- \<Union> (set Ks))"
  proof -
    have sub: "- \<Union> (set Ks) \<subseteq> - Ks ! i" using nth_mem [OF i(1)] by auto
    have "s' |` (- \<Union> (set Ks)) = s |` (- \<Union> (set Ks))"
      by (rule restrict_smaller [OF _ sub]) (simp add: same)
    also have "\<dots> = replay u l s0 |` (- \<Union> (set Ks))" using assms(1) by (simp add: all_on_track_def)
    also have "\<dots> = replay u l' s0 |` (- \<Union> (set Ks))"
      by (rule restrict_smaller [OF _ sub]) (simp add: same)
    finally show ?thesis .
  qed
  ultimately show ?thesis using i by (simp add: all_on_track_def)
qed

lemma all_on_track_run:
  "run_procs is ps (s, l) = (ps', s', l') \<Longrightarrow> all_on_track u Ks goals ps s (replay u l s0) \<Longrightarrow>
   disjoint_keys Ks \<Longrightarrow> all_on_track u Ks goals ps' s' (replay u l' s0)"
proof (induction "is" arbitrary: ps s l)
  case Nil
  then show ?case by simp
next
  case (Cons i "is")
  show ?case
  proof (cases "if i < length ps then proc_step (ps ! i) (s, l) else None")
    case None
    with Cons show ?thesis by simp
  next
    case (Some c)
    obtain p1 s1 l1 where c: "c = (p1, s1, l1)" by (cases c) auto
    with Some have "i < length ps" "proc_step (ps ! i) (s, l) = Some (p1, s1, l1)"
      by (auto split: if_splits)
    from all_on_track_step [OF Cons.prems(2,3) this] Cons.IH [of "ps[i := p1]" s1 l1] Cons.prems Some c
    show ?thesis by simp
  qed
qed


definition session_keys :: "(nat \<Rightarrow> nat) \<Rightarrow> CmdLine list \<Rightarrow> string set" where
  "session_keys u lines = (\<Union>line \<in> set lines. line_keys u line)"

lemma within_session_keys:
  "list_all (on_keys u) lines \<Longrightarrow> session_keys u lines \<subseteq> K \<Longrightarrow> within u K (session_proc u lines rs)"
  by (rule within_session) (auto simp: session_keys_def list_all_iff)

lemma session_on_track:
  assumes "list_all (on_keys u) lines"
  shows "\<exists>t. on_track u (session_keys u lines) (fst (run_proc (session_proc u lines []) (s, [])), t)
    (session_proc u lines []) s s"
proof -
  let ?K = "session_keys u lines"
  note w = within_session_keys [OF assms subset_refl, of "[]"]
  obtain rs t x where run: "run_proc (session_proc u lines []) (s |` ?K, []) = (rs, t, x)"
    by (cases "run_proc (session_proc u lines []) (s |` ?K, [])") auto
  with run_within [OF w, of s "[]"] have "rs = fst (run_proc (session_proc u lines []) (s, []))"
    by (auto split: prod.splits)
  with run w session_replays [OF assms run] show ?thesis by (auto simp: on_track_def)
qed

lemma done_on_track:
  "on_track u K goal (DoneP rs) s r \<Longrightarrow> rs = fst goal \<and> s |` K = r |` K"
  by (auto simp: on_track_def replay_simps)

lemma logs_on_keys:
  "run_procs is ps (s, l) = (ps', s', l') \<Longrightarrow> list_all (within u UNIV) ps \<Longrightarrow> list_all (on_keys u) l \<Longrightarrow>
   list_all (on_keys u) l'"
proof (induction "is" arbitrary: ps s l)
  case Nil
  then show ?case by simp
next
  case (Cons i "is")
  show ?case
  proof (cases "if i < length ps then proc_step (ps ! i) (s, l) else None")
    case None
    with Cons show ?thesis by simp
  next
    case (Some c)
    obtain p1 s1 l1 where c: "c = (p1, s1, l1)" by (cases c) auto
    with Some have i: "i < length ps" "proc_step (ps ! i) (s, l) = Some (p1, s1, l1)"
      by (auto split: if_splits)
    have "within u UNIV (ps ! i)" using Cons.prems(2) i(1) by (simp add: list_all_length)
    note step = within_step [OF this i(2)]
    have "list_all (within u UNIV) (ps[i := p1])"
      using Cons.prems(2) step set_update_subset_insert [of ps i p1] by (auto simp: list_all_iff)
    moreover have "list_all (on_keys u) l1" using Cons.prems(3) step by auto
    ultimately show ?thesis using Cons.IH [of "ps[i := p1]" s1 l1] Cons.prems(1) Some c by simp
  qed
qed

text \<open>Clients on disjoint keys, at the level of the store.\<close>

lemma disjoint_run:
  assumes keys: "list_all (list_all (on_keys u)) css" and "disjoint_keys (map (session_keys u) css)"
    and run: "run_procs sched (map (\<lambda>lines. session_proc u lines []) css) (s, []) = (map DoneP rss, s', l)"
  shows "rss = map (\<lambda>lines. fst (run_proc (session_proc u lines []) (s, []))) css \<and> replay u l s = s' \<and>
    list_all (on_keys u) l"
proof -
  let ?Ks = "map (session_keys u) css" and ?start = "\<lambda>lines. session_proc u lines []"
  let ?alone = "\<lambda>lines. fst (run_proc (?start lines) (s, []))"
  have "\<exists>t. on_track u (session_keys u lines) (?alone lines, t) (?start lines) s s"
    if "lines \<in> set css" for lines
    using session_on_track [of u lines s] keys that by (auto simp: list_all_iff)
  then obtain t where t: "lines \<in> set css \<Longrightarrow>
      on_track u (session_keys u lines) (?alone lines, t lines) (?start lines) s s" for lines
    by metis
  let ?goals = "map (\<lambda>lines. (?alone lines, t lines)) css"
  have "all_on_track u ?Ks ?goals (map ?start css) s (replay u [] s)"
    using t by (simp add: all_on_track_def replay_simps)
  from all_on_track_run [OF run this assms(2)]
  have final: "length rss = length css"
      "\<And>i. i < length css \<Longrightarrow> on_track u (?Ks ! i) (?goals ! i) (DoneP (rss ! i)) s' (replay u l s)"
      "s' |` (- \<Union> (set ?Ks)) = replay u l s |` (- \<Union> (set ?Ks))"
    by (auto simp: all_on_track_def)
  have ends: "rss ! i = ?alone (css ! i)" "s' |` (?Ks ! i) = replay u l s |` (?Ks ! i)" if "i < length css" for i
    using done_on_track [OF final(2) [OF that]] that by simp_all
  have "replay u l s k = s' k" for k
  proof (cases "\<exists>i < length css. k \<in> ?Ks ! i")
    case True
    then obtain i where "i < length css" "k \<in> ?Ks ! i" by blast
    with fun_cong [OF ends(2) [OF this(1)], of k] show ?thesis by simp
  next
    case False
    then have "k \<in> - \<Union> (set ?Ks)" by (auto simp: in_set_conv_nth)
    with fun_cong [OF final(3), of k] show ?thesis by (simp only: restrict_in)
  qed
  moreover have "rss = map ?alone css" using final(1) ends(1) by (auto intro: nth_equalityI)
  moreover have "list_all (on_keys u) l"
    by (rule logs_on_keys [OF run])
      (use keys within_session_keys [of u _ UNIV] in \<open>auto simp: list_all_iff\<close>)
  ultimately show ?thesis by blast
qed

text \<open>No operation waits for another client.\<close>

lemma proc_step_Some: "\<forall>rs. p \<noteq> DoneP rs \<Longrightarrow> \<exists>p' sl'. proc_step p sl = Some (p', sl')"
  by (cases p; cases sl) auto

text \<open>Induction along the steps of a sequence.\<close>

lemma proc_step_induct:
  assumes "\<And>p. (\<And>sl p' sl'. proc_step p sl = Some (p', sl') \<Longrightarrow> P p') \<Longrightarrow> P p"
  shows "P p"
  by (induction p; rule assms; erule proc_step.elims; auto split: if_splits)

text \<open>
  Two clients store different values under the same key at the same time.  The operations can
  interleave so that both are answered OK, one value is in memory, and a restart from the
  append-only file brings the other: a command changes the dictionary first and is logged
  afterwards, and no lock covers both.
\<close>

theorem log_order_race:
  assumes "db_inv db" and "v \<noteq> w"
  shows "\<exists>sched s' l rs db' log.
    run_procs sched [session_proc u [[''set'', k, v]] [], session_proc u [[''set'', k, w]] []] (db_abs db, []) =
      ([DoneP [OkReply], DoneP [OkReply]], s', l) \<and>
    exec_lines u db l = Inr (rs, db', log) \<and> s' k = Some w \<and> db_abs db' k = Some v"
proof -
  let ?l = "[[''set'', k, w], [''set'', k, v]]"
  have "run_procs [0, 0, 1, 1, 1, 0] [session_proc u [[''set'', k, v]] [], session_proc u [[''set'', k, w]] []]
      (db_abs db, []) = ([DoneP [OkReply], DoneP [OkReply]], (db_abs db)(k \<mapsto> w), ?l)"
    by (simp add: line_proc_def body_simps)
  moreover have "run_proc (session_proc u ?l []) (db_abs db, []) = ([OkReply, OkReply], (db_abs db)(k \<mapsto> v), ?l)"
    by (simp add: line_proc_def body_simps)
  from exec_lines_alone [OF this assms(1)] obtain db' where
    "exec_lines u db ?l = Inr ([OkReply, OkReply], db', ?l)" "db_abs db' = (db_abs db)(k \<mapsto> v)"
    by (auto simp: on_keys_def)
  ultimately show ?thesis by fastforce
qed

theorem log_order_race_witness:
  "\<exists>sched s' l rs db' log.
    run_procs sched [session_proc id [[''set'', ''k'', ''1'']] [], session_proc id [[''set'', ''k'', ''2'']] []]
      (db_abs makeDB, []) = ([DoneP [OkReply], DoneP [OkReply]], s', l) \<and>
    exec_lines id makeDB l = Inr (rs, db', log) \<and> s' ''k'' = Some ''2'' \<and> db_abs db' ''k'' = Some ''1''"
  by (rule log_order_race) simp_all

text \<open>
  SETNX of a missing key and SET of the same key run at the same time.  SETNX can answer 1, SET
  can answer OK, and the value of SETNX is the one that stays, which no order of the two commands
  allows: \<^verbatim>\<open>PutIfAbsent\<close> stores the value a second time after \<^verbatim>\<open>LoadOrStore\<close> has stored it, and the
  second store overwrites the value of SET.  The file then holds the value of SET.
\<close>

theorem setnx_loses_a_set:
  assumes "db_inv db" and "db_abs db k = None"
  shows "(\<exists>sched s' l rs db' log.
      run_procs sched [session_proc u [[''setnx'', k, v]] [], session_proc u [[''set'', k, w]] []] (db_abs db, []) =
        ([DoneP [IntReply 1], DoneP [OkReply]], s', l) \<and>
      exec_lines u db l = Inr (rs, db', log) \<and> s' k = Some v \<and> db_abs db' k = Some w) \<and>
    (\<exists>db' log. exec_lines u db [[''setnx'', k, v], [''set'', k, w]] = Inr ([IntReply 1, OkReply], db', log) \<and>
      db_abs db' k = Some w) \<and>
    (\<exists>db' log. exec_lines u db [[''set'', k, w], [''setnx'', k, v]] = Inr ([OkReply, IntReply 0], db', log) \<and>
      db_abs db' k = Some w)"
proof -
  let ?l = "[[''set'', k, w], [''setnx'', k, v]]" and ?l' = "[[''setnx'', k, v], [''set'', k, w]]"
    and ?s = "(db_abs db)(k \<mapsto> w)"
  have "run_proc (session_proc u ?l []) (db_abs db, []) = ([OkReply, IntReply 0], ?s, ?l)"
    by (simp add: line_proc_def body_simps)
  from exec_lines_alone [OF this assms(1)] obtain db1 where
    1: "exec_lines u db ?l = Inr ([OkReply, IntReply 0], db1, ?l)" "db_abs db1 = ?s"
    by (auto simp: on_keys_def)
  have "run_proc (session_proc u ?l' []) (db_abs db, []) = ([IntReply 1, OkReply], ?s, ?l')"
    using assms(2) by (simp add: line_proc_def body_simps)
  from exec_lines_alone [OF this assms(1)] obtain db2 where
    2: "exec_lines u db ?l' = Inr ([IntReply 1, OkReply], db2, ?l')" "db_abs db2 = ?s"
    by (auto simp: on_keys_def)
  have "run_procs [0, 1, 1, 1, 0, 0] [session_proc u [[''setnx'', k, v]] [], session_proc u [[''set'', k, w]] []]
      (db_abs db, []) = ([DoneP [IntReply 1], DoneP [OkReply]], (db_abs db)(k \<mapsto> v), ?l)"
    using assms(2) by (simp add: line_proc_def body_simps)
  moreover have "((db_abs db)(k \<mapsto> v)) k = Some v" "db_abs db1 k = Some w" "db_abs db2 k = Some w"
    using 1(2) 2(2) by simp_all
  ultimately show ?thesis using 1(1) 2(1) by blast
qed

theorem setnx_loses_a_set_witness:
  "\<exists>db' log. exec_lines id makeDB [[''setnx'', ''k'', ''1''], [''set'', ''k'', ''2'']] =
    Inr ([IntReply 1, OkReply], db', log) \<and> db_abs db' ''k'' = Some ''2''"
  using setnx_loses_a_set [of makeDB "''k''" id "''1''" "''2''"] by simp

end
