(* ===== verification/ConcurrentAof.thy ===== *)
theory ConcurrentAof
  imports Concurrency Handler
begin

text \<open>
  Clients at the same time in front of the append-only file itself.  \<open>Concurrency\<close> has a command as the
  sequence of its operations, with a log of the lines handed to the hook of one database.  Here the clients
  are in any of the numbered databases and an operation of the log is a call of \<^verbatim>\<open>AddAof\<close> (\<^verbatim>\<open>aof/aof.go\<close>),
  which holds a lock and so is one step: a SELECT is written first when the call before it was for another
  database.  What the file is good for is what the loader makes of its bytes.

  \<open>run_clients_projects\<close> reduces a run to one run of \<open>Concurrency\<close> for each database; \<open>replay_server\<close> says what
  the loader does with the lines.
\<close>

section \<open>Clients of several databases\<close>

type_synonym shared_server = "(nat \<Rightarrow> store) \<times> AofHandler"

text \<open>A client is the number of its database and what is left of its commands.\<close>

fun aof_step ::
  "ServerProperties \<Rightarrow> write_fault \<Rightarrow> nat \<times> proc \<Rightarrow> shared_server \<Rightarrow> ((nat \<times> proc) \<times> shared_server) option" where
  "aof_step cfg disk (i, LogP line p) (S, h) = Some ((i, p), S, AddAof cfg disk (int i) line h)"
| "aof_step cfg disk (i, p) (S, h) =
     (case proc_step p (S i, []) of None \<Rightarrow> None | Some (p', s, l) \<Rightarrow> Some ((i, p'), S(i := s), h))"

fun run_clients ::
  "ServerProperties \<Rightarrow> write_fault \<Rightarrow> nat list \<Rightarrow> (nat \<times> proc) list \<Rightarrow> shared_server \<Rightarrow>
     (nat \<times> proc) list \<times> shared_server" where
  "run_clients cfg disk [] cs sh = (cs, sh)"
| "run_clients cfg disk (x # xs) cs sh =
     (case (if x < length cs then aof_step cfg disk (cs ! x) sh else None) of
        None \<Rightarrow> run_clients cfg disk xs cs sh
      | Some (c, sh') \<Rightarrow> run_clients cfg disk xs (cs[x := c]) sh')"

definition start_clients :: "(nat \<Rightarrow> nat) \<Rightarrow> (nat \<times> CmdLine list) list \<Rightarrow> (nat \<times> proc) list" where
  "start_clients u cs = map (\<lambda>(i, lines). (i, session_proc u lines [])) cs"

section \<open>One database at a time\<close>

definition in_db :: "nat \<Rightarrow> nat \<times> proc \<Rightarrow> proc" where
  "in_db j c = (if fst c = j then snd c else DoneP [])"

definition lines_of :: "nat \<Rightarrow> (nat \<times> CmdLine) list \<Rightarrow> CmdLine list" where
  "lines_of j L = map snd (filter (\<lambda>e. fst e = j) L)"

definition log_all :: "ServerProperties \<Rightarrow> write_fault \<Rightarrow> (nat \<times> CmdLine) list \<Rightarrow> AofHandler \<Rightarrow> AofHandler" where
  "log_all cfg disk L h = fold (\<lambda>(i, line). AddAof cfg disk (int i) line) L h"

text \<open>All lines a sequence can log have a property.\<close>

primrec logs :: "(CmdLine \<Rightarrow> bool) \<Rightarrow> proc \<Rightarrow> bool" where
  "logs P (LoadP k f) \<longleftrightarrow> (\<forall>v. logs P (f v))"
| "logs P (StoreP k v p) \<longleftrightarrow> logs P p"
| "logs P (LoadOrStoreP k v f) \<longleftrightarrow> (\<forall>b. logs P (f b))"
| "logs P (DeleteP k p) \<longleftrightarrow> logs P p"
| "logs P (LogP line p) \<longleftrightarrow> P line \<and> logs P p"
| "logs P (DoneP rs) \<longleftrightarrow> True"

lemma logs_then_do: "logs P p \<Longrightarrow> (\<And>rs. logs P (q rs)) \<Longrightarrow> logs P (then_do p q)"
  by (induction p) auto

lemma logs_del: "P line \<Longrightarrow> logs P (del_proc ks line n)"
  by (induction ks arbitrary: n) (auto simp: RemoveP_def)

lemma logs_exists: "logs P (exists_proc ks n)"
  by (induction ks arbitrary: n) auto

lemma logs_command:
  assumes "c \<in> known_commands \<Longrightarrow> P (c # as)" and "c \<notin> {''flushdb'', ''keys''}"
  shows "logs P (command_proc c as)"
proof (cases "c \<in> known_commands \<and> arity_ok c (length as)")
  case False
  then show ?thesis by (auto simp: command_proc_def)
next
  case True
  with assms(1) have log: "P (c # as)" and known: "c \<in> known_commands" "arity_ok c (length as)" by auto
  from known show ?thesis
  proof (cases rule: accepted_cases)
    case del
    with log known show ?thesis by (auto simp: body_simps intro!: logs_del)
  next
    case exists
    with known show ?thesis by (auto simp: body_simps intro!: logs_exists)
  qed (use log assms(2) known in \<open>auto simp: body_simps split: option.splits\<close>)
qed

lemma logs_session:
  "\<forall>line \<in> set lines. on_keys u line \<and> (ToLower u (hd line) \<in> known_commands \<longrightarrow> P (ToLower u (hd line) # tl line)) \<Longrightarrow>
   logs P (session_proc u lines rs)"
  by (induction lines arbitrary: rs) (auto simp: line_proc_def on_keys_def intro!: logs_then_do logs_command)

text \<open>A step of a client is a step of its sequence on its own database, and is seen by no other.\<close>

lemma aof_step_cases:
  assumes "aof_step cfg disk (i, p) (S, h) = Some (c, S', h')"
  shows "\<exists>p' L. c = (i, p') \<and> S' = S(i := S' i) \<and> h' = log_all cfg disk L h \<and> fst ` set L \<subseteq> {i} \<and>
    (\<forall>l. proc_step p (S i, l) = Some (p', S' i, l @ map snd L)) \<and> (\<forall>P. logs P p \<longrightarrow> logs P p' \<and> (\<forall>e \<in> set L. P (snd e)))"
proof (cases p)
  case (LogP line q)
  with assms show ?thesis by (intro exI [of _ q] exI [of _ "[(i, line)]"]) (auto simp: log_all_def)
next
  case (DoneP rs)
  with assms show ?thesis by simp
next
  case (LoadP k f)
  with assms show ?thesis by (intro exI [of _ "f (S i k)"] exI [of _ "[]"]) (auto simp: log_all_def)
next
  case (LoadOrStoreP k v f)
  with assms show ?thesis by (intro exI [of _ "f (S i k \<noteq> None)"] exI [of _ "[]"]) (auto simp: log_all_def)
next
  case (StoreP k v q)
  with assms show ?thesis by (intro exI [of _ q] exI [of _ "[]"]) (auto simp: log_all_def)
next
  case (DeleteP k q)
  with assms show ?thesis by (intro exI [of _ q] exI [of _ "[]"]) (auto simp: log_all_def)
qed

lemma aof_step_None: "aof_step cfg disk (i, p) (S, h) = None \<longleftrightarrow> (\<exists>rs. p = DoneP rs)"
  by (cases p) auto

lemma map_in_db_update:
  "x < length cs \<Longrightarrow> fst (cs ! x) = i \<Longrightarrow>
   map (in_db j) (cs[x := (i, p)]) = (if j = i then (map (in_db j) cs)[x := p] else map (in_db j) cs)"
  by (auto simp: map_update in_db_def list_update_same_conv)

lemma run_clients_projects:
  "run_clients cfg disk sched cs (S, h) = (cs', S', h') \<Longrightarrow> \<forall>c \<in> set cs. logs P (snd c) \<Longrightarrow>
   \<exists>L. h' = log_all cfg disk L h \<and> (\<forall>e \<in> set L. P (snd e) \<and> fst e \<in> fst ` set cs) \<and> map fst cs' = map fst cs \<and>
     (\<forall>j l. run_procs sched (map (in_db j) cs) (S j, l) = (map (in_db j) cs', S' j, l @ lines_of j L))"
proof (induction sched arbitrary: cs S h)
  case Nil
  then show ?case by (intro exI [of _ "[]"]) (simp add: log_all_def lines_of_def)
next
  case (Cons x xs)
  show ?case
  proof (cases "if x < length cs then aof_step cfg disk (cs ! x) (S, h) else None")
    case None
    have "(if x < length (map (in_db j) cs) then proc_step (map (in_db j) cs ! x) sl else None) = None" for j sl
    proof (cases "x < length cs")
      case True
      with None have "aof_step cfg disk (cs ! x) (S, h) = None" by simp
      then have "\<exists>rs. in_db j (cs ! x) = DoneP rs"
        using aof_step_None [of cfg disk "fst (cs ! x)" "snd (cs ! x)" S h] by (auto simp: in_db_def)
      with True show ?thesis by (cases sl) auto
    qed simp
    with None Cons show ?thesis by simp
  next
    case (Some r)
    obtain c1 S1 h1 where r: "r = (c1, S1, h1)" by (cases r) auto
    obtain i p where cx: "cs ! x = (i, p)" by (cases "cs ! x")
    from Some r cx have x: "x < length cs" and st: "aof_step cfg disk (i, p) (S, h) = Some (c1, S1, h1)"
      by (auto split: if_splits)
    from aof_step_cases [OF st] obtain p1 L1 where 0: "c1 = (i, p1)" "S1 = S(i := S1 i)" "h1 = log_all cfg disk L1 h" "fst ` set L1 \<subseteq> {i}"
      "\<forall>l. proc_step p (S i, l) = Some (p1, S1 i, l @ map snd L1)" "\<forall>P. logs P p \<longrightarrow> logs P p1 \<and> (\<forall>e \<in> set L1. P (snd e))"
      by blast
    note 1 = 0(1-4) 0(5) [rule_format] 0(6) [rule_format]
    have cs: "cs ! x \<in> set cs" using x by simp
    then have "logs P p" using Cons.prems(2) cx by auto
    note P1 = 1(6) [OF this]
    have "\<forall>c \<in> set (cs[x := c1]). logs P (snd c)"
      using Cons.prems(2) P1 1(1) set_update_subset_insert [of cs x c1] by auto
    moreover have "run_clients cfg disk xs (cs[x := c1]) (S1, h1) = (cs', S', h')" using Cons.prems(1) Some r by simp
    ultimately obtain L where L: "h' = log_all cfg disk L h1" "\<forall>e \<in> set L. P (snd e) \<and> fst e \<in> fst ` set (cs[x := c1])"
      "map fst cs' = map fst (cs[x := c1])"
      "\<And>j l. run_procs xs (map (in_db j) (cs[x := c1])) (S1 j, l) = (map (in_db j) cs', S' j, l @ lines_of j L)"
      using Cons.IH by blast
    have fsts: "map fst (cs[x := c1]) = map fst cs" using x cx 1(1) by (simp add: map_update list_update_same_conv)
    have "run_procs (x # xs) (map (in_db j) cs) (S j, l) = (map (in_db j) cs', S' j, l @ lines_of j (L1 @ L))" for j l
    proof (cases "j = i")
      case True
      have "lines_of j L1 = map snd L1"
        using 1(4) True by (force simp: lines_of_def intro: arg_cong [OF filter_True])
      moreover have "map (in_db j) cs ! x = p" using x cx True by (simp add: in_db_def)
      moreover have "map (in_db j) (cs[x := c1]) = (map (in_db j) cs)[x := p1]"
        using map_in_db_update [of x cs i j p1] x cx 1(1) True by simp
      ultimately show ?thesis using 1(5) [of l] L(4) [of j "l @ map snd L1"] x True by (simp add: lines_of_def)
    next
      case False
      have "lines_of j L1 = []" using 1(4) False by (auto simp: lines_of_def filter_empty_conv)
      moreover have "map (in_db j) cs ! x = DoneP []" using x cx False by (simp add: in_db_def)
      moreover have "map (in_db j) (cs[x := c1]) = map (in_db j) cs"
        using map_in_db_update [of x cs i j p1] x cx 1(1) False by simp
      moreover have "S1 j = S j" using 1(2) False by (metis fun_upd_other)
      ultimately show ?thesis using L(4) [of j l] x by (simp add: lines_of_def)
    qed
    moreover have "h' = log_all cfg disk (L1 @ L) h" using L(1) 1(3) by (simp add: log_all_def)
    moreover have "\<forall>e \<in> set (L1 @ L). P (snd e) \<and> fst e \<in> fst ` set cs"
    proof -
      have "fst ` set (cs[x := c1]) = fst ` set cs" using fsts by (metis list.set_map)
      moreover have "i \<in> fst ` set cs" using cs cx by (metis fst_conv image_eqI)
      ultimately show ?thesis using L(2) P1 1(4) by auto
    qed
    ultimately show ?thesis using L(3) fsts by metis
  qed
qed

section \<open>Every run can be completed\<close>

lemma run_clients_append:
  "run_clients cfg disk (xs @ ys) cs sh =
     (case run_clients cfg disk xs cs sh of (cs', sh') \<Rightarrow> run_clients cfg disk ys cs' sh')"
  by (induction xs arbitrary: cs sh) (auto split: option.splits)

lemma aof_client_finishes:
  "x < length cs \<Longrightarrow> cs ! x = (i, p) \<Longrightarrow>
   \<exists>sched rs sh'. run_clients cfg disk sched cs sh = (cs[x := (i, DoneP rs)], sh')"
proof (induction p arbitrary: cs sh rule: proc_step_induct)
  case (1 p)
  obtain S h where sh: "sh = (S, h)" by (cases sh)
  show ?case
  proof (cases "aof_step cfg disk (i, p) (S, h)")
    case None
    then obtain rs where "p = DoneP rs" using aof_step_None by blast
    with 1 have "run_clients cfg disk [] cs sh = (cs[x := (i, DoneP rs)], sh)" using list_update_id [of cs x] by simp
    then show ?thesis by blast
  next
    case (Some r)
    obtain c1 S1 h1 where r: "r = (c1, S1, h1)" by (cases r) auto
    from Some r have st: "aof_step cfg disk (i, p) (S, h) = Some (c1, S1, h1)" by simp
    from aof_step_cases [OF st] obtain p1 sl sl' where c1: "c1 = (i, p1)" "proc_step p sl = Some (p1, sl')" by blast
    obtain sched rs sh' where "run_clients cfg disk sched (cs[x := c1]) (S1, h1) = (cs[x := (i, DoneP rs)], sh')"
      using 1(1) [OF c1(2), of "cs[x := c1]" "(S1, h1)"] 1(2) c1(1) by auto
    with st 1(2,3) sh have "run_clients cfg disk (x # sched) cs sh = (cs[x := (i, DoneP rs)], sh')" by simp
    then show ?thesis by blast
  qed
qed

lemma aof_all_finish: "\<exists>sched cs' rss sh'. run_clients cfg disk sched cs sh = (cs', sh') \<and> map snd cs' = map DoneP rss"
proof -
  have "\<exists>sched cs' sh'. run_clients cfg disk sched cs sh = (cs', sh') \<and> length cs' = length cs \<and>
      (\<forall>x < n. \<exists>rs. snd (cs' ! x) = DoneP rs)" if "n \<le> length cs" for n
    using that
  proof (induction n)
    case 0
    have "run_clients cfg disk [] cs sh = (cs, sh)" by simp
    then show ?case by blast
  next
    case (Suc n)
    then obtain sched cs1 sh1 where 1: "run_clients cfg disk sched cs sh = (cs1, sh1)" "length cs1 = length cs"
      "\<forall>x < n. \<exists>rs. snd (cs1 ! x) = DoneP rs" by auto
    obtain i p where "cs1 ! n = (i, p)" by (cases "cs1 ! n")
    then obtain sched' rs sh2 where "run_clients cfg disk sched' cs1 sh1 = (cs1[n := (i, DoneP rs)], sh2)"
      using aof_client_finishes [of n cs1 i p cfg disk sh1] 1(2) Suc.prems by auto
    then have "run_clients cfg disk (sched @ sched') cs sh = (cs1[n := (i, DoneP rs)], sh2)"
      using 1(1) by (simp add: run_clients_append)
    moreover have "\<forall>x < Suc n. \<exists>rs'. snd (cs1[n := (i, DoneP rs)] ! x) = DoneP rs'"
      using 1(2,3) Suc.prems by (auto simp: less_Suc_eq nth_list_update)
    ultimately show ?case using 1(2) by (intro exI conjI) auto
  qed
  then obtain sched cs' sh' where r: "run_clients cfg disk sched cs sh = (cs', sh')" "length cs' = length cs"
    "\<forall>x < length cs. \<exists>rs. snd (cs' ! x) = DoneP rs" by blast
  then obtain f where "\<forall>x < length cs. snd (cs' ! x) = DoneP (f x)" by metis
  then have "map snd cs' = map DoneP (map f [0..<length cs])" using r(2) by (intro nth_equalityI) auto
  with r(1) show ?thesis by blast
qed

section \<open>What the loader makes of the lines\<close>

fun file_lines :: "int \<Rightarrow> (nat \<times> CmdLine) list \<Rightarrow> CmdLine list" where
  "file_lines dbi [] = []"
| "file_lines dbi ((i, line) # L) = logged dbi (int i) line @ file_lines (int i) L"

lemma log_all_bytes:
  assumes "AppendOnly cfg" and "\<And>n. disk n = None"
  shows "written (aofFile (log_all cfg disk L h)) = written (aofFile h) @ log_bytes (file_lines (currentDBIndex h) L)"
  using AddAof_ok [OF assms]
  by (induction L arbitrary: h) (auto simp: log_all_def)

text \<open>The lines clients on keys log: clean, and of a known command other than FLUSHDB and KEYS.\<close>

definition log_line_ok :: "(nat \<Rightarrow> nat) \<Rightarrow> CmdLine \<Rightarrow> bool" where
  "log_line_ok u line \<longleftrightarrow> clean_cmd line \<and> on_keys u line \<and> hd line \<in> known_commands"

lemma file_lines_clean:
  "\<forall>e \<in> set L. log_line_ok u (snd e) \<and> int (fst e) < 2 ^ 63 \<Longrightarrow> cmd \<in> set (file_lines dbi L) \<Longrightarrow> clean_cmd cmd"
  by (induction dbi L rule: file_lines.induct) (auto simp: logged_def log_line_ok_def clean_select_cmd split: if_splits)

lemma Exec_replays:
  assumes "sa_inv d" and "sa_conn_ok d c" and "log_line_ok u line"
  shows "\<exists>r d'. Exec (u, cfg, disk) d c line = (r, d', c) \<and> sa_inv d' \<and> length (dbSet d') = length (dbSet d) \<and>
    sa_abs d' = (sa_abs d)(nat (selectedDB c) := replay u [line] (sa_abs d (nat (selectedDB c))))"
proof -
  have l: "line \<noteq> []" "hd line \<in> known_commands" "on_keys u line" using assms(3) by (auto simp: log_line_ok_def clean_cmd_def)
  then have "ToLower u (hd line) \<noteq> ''select''" by (auto simp: ToLower_known known_commands_def)
  from Exec_on_store [OF assms(1,2) l(1) this, of cfg disk] obtain r d' s where
    e: "Exec (u, cfg, disk) d c line = (Some r, d', c)"
      "redis_step (sa_abs d (nat (selectedDB c))) (ToLower u (hd line)) (tl line) r s"
      "sa_abs d' = (sa_abs d)(nat (selectedDB c) := s)" by metis
  from Concurrency.run_command [OF e(2), of "[]"] l(3)
  have "replay u [line] (sa_abs d (nat (selectedDB c))) = s" by (auto simp: replay_simps line_proc_def on_keys_def)
  with e Exec_keeps [OF assms(1,2) l(1) e(1)] show ?thesis by auto
qed

lemma replay_server:
  "sa_inv d \<Longrightarrow> length (dbSet d) = n \<Longrightarrow> int n < 2 ^ 63 \<Longrightarrow> \<forall>e \<in> set L. log_line_ok u (snd e) \<and> fst e < n \<Longrightarrow>
   sa_conn_ok d c \<Longrightarrow>
   \<exists>d' c'. exec_all (Exec (u, cfg, disk)) (file_lines (selectedDB c) L) d c = (d', c') \<and>
     (\<forall>j. sa_abs d' j = replay u (lines_of j L) (sa_abs d j))"
proof (induction L arbitrary: d c)
  case Nil
  then show ?case by (simp add: lines_of_def replay_simps)
next
  case (Cons e L)
  obtain i line where e: "e = (i, line)" by (cases e)
  have i: "i < n" "int i < 2 ^ 63" and line: "log_line_ok u line" using Cons.prems(3,4) e by auto
  define c1 where "c1 = c\<lparr>selectedDB := int i\<rparr>"
  have c1: "selectedDB c1 = int i" "sa_conn_ok d c1" using i Cons.prems(2) by (simp_all add: c1_def sa_conn_ok_def)
  have sel: "exec_all (Exec (u, cfg, disk)) (logged (selectedDB c) (int i) line) d c =
      exec_all (Exec (u, cfg, disk)) [line] d c1"
  proof (cases "int i = selectedDB c")
    case True
    then have "c1 = c" by (simp add: c1_def)
    with True show ?thesis by (simp add: logged_def)
  next
    case False
    then show ?thesis
      using replay_select [of "int i" d "(u, cfg, disk)" c] i Cons.prems(2) by (simp add: logged_def c1_def)
  qed
  from Exec_replays [OF Cons.prems(1) c1(2) line, of cfg disk] c1(1) obtain r d1 where
    1: "Exec (u, cfg, disk) d c1 line = (r, d1, c1)" "sa_inv d1" "length (dbSet d1) = n"
      "sa_abs d1 = (sa_abs d)(i := replay u [line] (sa_abs d i))" using Cons.prems(2) by auto
  have "sa_conn_ok d1 c1" using c1 1(3) Cons.prems(2) by (simp add: sa_conn_ok_def)
  from Cons.IH [OF 1(2,3) Cons.prems(3) _ this] Cons.prems(4) c1(1) obtain d' c' where
    2: "exec_all (Exec (u, cfg, disk)) (file_lines (int i) L) d1 c1 = (d', c')"
      "\<forall>j. sa_abs d' j = replay u (lines_of j L) (sa_abs d1 j)" by auto
  have "exec_all (Exec (u, cfg, disk)) (file_lines (selectedDB c) (e # L)) d c = (d', c')"
    using 1(1) 2(1) by (simp add: e exec_all_append sel)
  moreover have "sa_abs d' j = replay u (lines_of j (e # L)) (sa_abs d j)" for j
    using 2(2) 1(4) by (cases "j = i") (simp_all add: e lines_of_def replay_Cons [of u line "lines_of i L", unfolded lines_of_def])
  ultimately show ?case by blast
qed

section \<open>Properties\<close>

text \<open>Clients of one database work on keys of their own.\<close>

definition keys_apart :: "(nat \<Rightarrow> nat) \<Rightarrow> (nat \<times> CmdLine list) list \<Rightarrow> bool" where
  "keys_apart u cs \<longleftrightarrow> (\<forall>x < length cs. \<forall>y < length cs. x \<noteq> y \<longrightarrow> fst (cs ! x) = fst (cs ! y) \<longrightarrow>
     session_keys u (snd (cs ! x)) \<inter> session_keys u (snd (cs ! y)) = {})"

lemma projected_sessions:
  "map (in_db j) (start_clients u cs) =
   map (\<lambda>lines. session_proc u lines []) (map (\<lambda>(i, lines). if i = j then lines else []) cs)"
  by (auto simp: start_clients_def in_db_def)

lemma projected_keys:
  assumes "keys_apart u cs"
  shows "disjoint_keys (map (session_keys u) (map (\<lambda>(i, lines). if i = j then lines else []) cs))"
  using assms by (auto simp: disjoint_keys_def keys_apart_def session_keys_def case_prod_unfold split: if_splits)

lemma sa_abs_empty: "sa_abs (empty_server n) = (\<lambda>i. Map.empty)"
  by (auto simp: sa_abs_def empty_server_def fresh_dbs_def db_abs_def makeDB_def MakeSyncDict_def dict_abs_def fun_eq_iff)

text \<open>
  What a finished run leaves: the replies of each client alone, and a file from which the loader makes
  the stores in memory.
\<close>

lemma finished_run:
  assumes cfg: "AppendOnly cfg" "\<And>n. disk n = None" "0 < database_count cfg" "database_count cfg \<le> 2 ^ 45"
    and h: "written (aofFile h) = []" "currentDBIndex h = 0"
    and cs: "\<forall>c \<in> set cs. int (fst c) < database_count cfg"
      "\<forall>c \<in> set cs. \<forall>line \<in> set (snd c). clean_cmd line \<and> on_keys u line"
    and apart: "keys_apart u cs"
    and run: "run_clients cfg disk sched (start_clients u cs) (\<lambda>i. Map.empty, h) = (cs', S, h')" "map snd cs' = map DoneP rss"
  shows "length rss = length cs \<and>
    (\<forall>x < length cs. rss ! x = fst (run_proc (session_proc u (snd (cs ! x)) []) (Map.empty, []))) \<and>
    (\<exists>d. NewStandaloneDatabase (u, cfg, disk) (Some (written (aofFile h'))) True = Started d \<and> sa_abs d = S)"
proof -
  let ?n = "nat (database_count cfg)"
  have "\<forall>c \<in> set (start_clients u cs). logs (log_line_ok u) (snd c)"
  proof
    fix c assume "c \<in> set (start_clients u cs)"
    then obtain lines where c: "snd c = session_proc u lines []" "\<forall>line \<in> set lines. clean_cmd line \<and> on_keys u line"
      using cs(2) by (auto simp: start_clients_def)
    have "log_line_ok u (ToLower u (hd line) # tl line)"
      if "line \<in> set lines" "ToLower u (hd line) \<in> known_commands" for line
      using c(2) that clean_known [OF that(2)]
      by (cases line) (auto simp: log_line_ok_def clean_cmd_def on_keys_def ToLower_known)
    with c(2) show "logs (log_line_ok u) (snd c)" unfolding c(1) by (intro logs_session) blast
  qed
  from run_clients_projects [OF run(1) this] obtain L where L: "h' = log_all cfg disk L h"
    "\<forall>e \<in> set L. log_line_ok u (snd e) \<and> fst e \<in> fst ` set (start_clients u cs)" "map fst cs' = map fst (start_clients u cs)"
    "\<And>j. run_procs sched (map (in_db j) (start_clients u cs)) (Map.empty, []) = (map (in_db j) cs', S j, lines_of j L)"
    by fastforce
  have "map fst (start_clients u cs) = map fst cs" by (simp add: start_clients_def case_prod_unfold comp_def)
  then have fsts: "map fst cs' = map fst cs" "fst ` set (start_clients u cs) = fst ` set cs"
    using L(3) by (simp, metis list.set_map)
  then have len: "length cs' = length cs" by (metis length_map)
  with run(2) have len_rss: "length rss = length cs" by (metis length_map)
  have cs'x: "cs' ! x = (fst (cs ! x), DoneP (rss ! x))" if "x < length cs" for x
    using arg_cong [OF fsts(1), of "\<lambda>l. l ! x"] arg_cong [OF run(2), of "\<lambda>l. l ! x"] that len len_rss
    by (simp add: prod_eq_iff)
  define css where "css j = map (\<lambda>(i, lines). if i = j then lines else []) cs" for j
  define rs where "rs j = map (\<lambda>x. if fst (cs ! x) = j then rss ! x else []) [0..<length cs]" for j
  have "map (in_db j) cs' = map DoneP (rs j)" for j
    using cs'x len by (intro nth_equalityI) (auto simp: rs_def in_db_def)
  then have runs: "run_procs sched (map (\<lambda>lines. session_proc u lines []) (css j)) (Map.empty, []) =
      (map DoneP (rs j), S j, lines_of j L)" for j
    using L(4) [of j] by (simp only: projected_sessions css_def)
  have keys: "list_all (list_all (on_keys u)) (css j)" for j
    using cs(2) by (auto simp: css_def list_all_iff split: if_splits)
  note alone = disjoint_run [OF keys projected_keys [OF apart, folded css_def] runs]
  have "rss ! x = fst (run_proc (session_proc u (snd (cs ! x)) []) (Map.empty, []))" if x: "x < length cs" for x
  proof -
    have "rs (fst (cs ! x)) ! x = rss ! x" "css (fst (cs ! x)) ! x = snd (cs ! x)" "length (css (fst (cs ! x))) = length cs"
      using x by (simp_all add: rs_def css_def case_prod_unfold)
    then show ?thesis using alone [of "fst (cs ! x)"] x by (metis (no_types, lifting) nth_map)
  qed
  moreover have "\<exists>d. NewStandaloneDatabase (u, cfg, disk) (Some (written (aofFile h'))) True = Started d \<and> sa_abs d = S"
  proof -
    have e: "\<forall>e \<in> set L. log_line_ok u (snd e) \<and> fst e < ?n" "\<forall>e \<in> set L. log_line_ok u (snd e) \<and> int (fst e) < 2 ^ 63"
      using L(2) cs(1) cfg(4) fsts(2) by fastforce+
    have bytes: "written (aofFile h') = log_bytes (file_lines 0 L) @ []"
      using log_all_bytes [OF cfg(1,2), where L = L and h = h] h L(1) by simp
    have clean: "\<forall>cmd \<in> set (file_lines 0 L). clean_cmd cmd" using file_lines_clean [OF e(2)] by blast
    have "int ?n < 2 ^ 63" "length (dbSet (empty_server ?n)) = ?n" using cfg(3,4) by (simp_all add: empty_server_def)
    moreover have "sa_conn_ok (empty_server ?n) fake_connection"
      using cfg(3) by (simp add: sa_conn_ok_def fake_connection_def empty_server_def)
    ultimately obtain d' c' where d': "replayed (u, cfg, disk) ?n (file_lines 0 L) = (d', c')"
      "\<forall>j. sa_abs d' j = replay u (lines_of j L) (sa_abs (empty_server ?n) j)"
      using replay_server [OF sa_inv_empty _ _ e(1), where c = fake_connection and cfg = cfg and disk = disk]
      by (auto simp: replayed_def fake_connection_def)
    have "sa_abs d' j = S j" for j using d'(2) alone [of j] by (simp add: sa_abs_empty)
    then have "sa_abs d' = S" by (rule ext)
    then have "sa_abs (started d' (written (aofFile h'))) = S"
      using snapshot_abs [of "started d' (written (aofFile h'))" d'] by simp
    with start_on_log [OF cfg(1,3,4) clean, of "[]" u disk] bytes d'(1) show ?thesis by simp
  qed
  ultimately show ?thesis using len_rss by blast
qed

text \<open>
  C7 (concurrent_clients_recover). With the append-only file on, a disk that does not fail and no file yet, any number of
  clients run commands on keys (all but SELECT, FLUSHDB and KEYS, with non-empty arguments that do not begin with
  a dollar sign) at the same time, each in some database and on keys that no other client of that database
  uses.  However their operations on the dictionaries and their calls of \<^verbatim>\<open>AddAof\<close> have interleaved so far, they
  can all finish; and whenever they have, every client has got the replies it would have got alone, and a
  server started on the bytes of the file holds the data that is in memory, in every database.
\<close>

theorem concurrent_clients_recover:
  assumes "AppendOnly cfg" and "\<And>n. disk n = None" and "0 < database_count cfg"
    and "NewStandaloneDatabase (u, cfg, disk) None True = Started d0" and "aofHandler d0 = Some h0"
    and "\<forall>c \<in> set cs. int (fst c) < database_count cfg"
    and "\<forall>c \<in> set cs. \<forall>line \<in> set (snd c). clean_cmd line \<and> ToLower u (hd line) \<notin> {''select'', ''flushdb'', ''keys''}"
    and "keys_apart u cs"
  shows "(\<exists>rest cs' S h rss. run_clients cfg disk (sched @ rest) (start_clients u cs) (sa_abs d0, h0) = (cs', S, h) \<and>
      map snd cs' = map DoneP rss) \<and>
    (\<forall>rest cs' S h rss. run_clients cfg disk (sched @ rest) (start_clients u cs) (sa_abs d0, h0) = (cs', S, h) \<longrightarrow>
      map snd cs' = map DoneP rss \<longrightarrow>
      length rss = length cs \<and>
      (\<forall>x < length cs. \<exists>db log. exec_lines u (dbSet d0 ! fst (cs ! x)) (snd (cs ! x)) = Inr (rss ! x, db, log)) \<and>
      (\<exists>d. NewStandaloneDatabase (u, cfg, disk) (Some (written (aofFile h))) True = Started d \<and> sa_abs d = S))"
proof (rule conjI)
  obtain cs1 sh1 where "run_clients cfg disk sched (start_clients u cs) (sa_abs d0, h0) = (cs1, sh1)"
    by (cases "run_clients cfg disk sched (start_clients u cs) (sa_abs d0, h0)")
  with aof_all_finish [of cfg disk cs1 sh1]
  show "\<exists>rest cs' S h rss. run_clients cfg disk (sched @ rest) (start_clients u cs) (sa_abs d0, h0) = (cs', S, h) \<and>
      map snd cs' = map DoneP rss" by (fastforce simp: run_clients_append)
  let ?n = "nat (database_count cfg)"
  have le: "database_count cfg \<le> 2 ^ 45" using Started_count [OF assms(4)] by simp
  have d0: "d0 = started (empty_server ?n) []" using assms(4) start_fresh [OF assms(1,3) le, of u disk] by simp
  then have h0: "written (aofFile h0) = []" "currentDBIndex h0 = 0" using assms(5) by auto
  have inv: "sa_inv d0" "length (dbSet d0) = ?n" using sa_inv_started [OF sa_inv_empty] by (simp_all add: d0 empty_server_def)
  have "sa_abs d0 = sa_abs (empty_server ?n)" using snapshot_abs [of d0 "empty_server ?n"] by (simp add: d0)
  then have empty: "sa_abs d0 = (\<lambda>i. Map.empty)" by (simp add: sa_abs_empty)
  have keys: "\<forall>c \<in> set cs. \<forall>line \<in> set (snd c). clean_cmd line \<and> on_keys u line"
    using assms(7) by (auto simp: on_keys_def clean_cmd_def)
  show "\<forall>rest cs' S h rss. run_clients cfg disk (sched @ rest) (start_clients u cs) (sa_abs d0, h0) = (cs', S, h) \<longrightarrow>
      map snd cs' = map DoneP rss \<longrightarrow>
      length rss = length cs \<and>
      (\<forall>x < length cs. \<exists>db log. exec_lines u (dbSet d0 ! fst (cs ! x)) (snd (cs ! x)) = Inr (rss ! x, db, log)) \<and>
      (\<exists>d. NewStandaloneDatabase (u, cfg, disk) (Some (written (aofFile h))) True = Started d \<and> sa_abs d = S)"
  proof (intro allI impI)
    fix rest cs' S h rss
    assume run: "run_clients cfg disk (sched @ rest) (start_clients u cs) (sa_abs d0, h0) = (cs', S, h)"
      and fin: "map snd cs' = map DoneP rss"
    note f = finished_run [OF assms(1-3) le h0 assms(6) keys assms(8) run [unfolded empty] fin]
    have "\<exists>db log. exec_lines u (dbSet d0 ! fst (cs ! x)) (snd (cs ! x)) = Inr (rss ! x, db, log)" if x: "x < length cs" for x
    proof -
      have c: "cs ! x \<in> set cs" using x by simp
      then have i: "fst (cs ! x) < length (dbSet d0)" using assms(6) inv(2) by fastforce
      then have "db_inv (dbSet d0 ! fst (cs ! x))" "db_abs (dbSet d0 ! fst (cs ! x)) = Map.empty"
        using inv(1) fun_cong [OF empty, of "fst (cs ! x)"] by (simp_all add: sa_inv_def sa_abs_def)
      moreover have "list_all (on_keys u) (snd (cs ! x))" using keys c by (simp add: list_all_iff)
      ultimately show ?thesis
        using exec_lines_run_proc [of "dbSet d0 ! fst (cs ! x)" u "snd (cs ! x)" "[]" "[]"] f x by auto
    qed
    with f show "length rss = length cs \<and>
      (\<forall>x < length cs. \<exists>db log. exec_lines u (dbSet d0 ! fst (cs ! x)) (snd (cs ! x)) = Inr (rss ! x, db, log)) \<and>
      (\<exists>d. NewStandaloneDatabase (u, cfg, disk) (Some (written (aofFile h))) True = Started d \<and> sa_abs d = S)" by blast
  qed
qed

theorem concurrent_clients_recover_witness:
  "\<exists>S h d. snd (run_clients (default_properties\<lparr>AppendOnly := True\<rparr>) (\<lambda>n. None) [2, 0, 2, 1, 0, 1, 1, 2, 0, 2]
        (start_clients id [(0, [[''SET'', ''a'', ''1'']]), (0, [[''SET'', ''b'', ''2'']]), (3, [[''SET'', ''a'', ''3''], [''GET'', ''a'']])])
        (sa_abs (started (empty_server 16) []), \<lparr>aofFile = \<lparr>written = [], writes = 0\<rparr>, currentDBIndex = 0\<rparr>)) = (S, h) \<and>
     NewStandaloneDatabase (id, default_properties\<lparr>AppendOnly := True\<rparr>, \<lambda>n. None) (Some (written (aofFile h))) True = Started d \<and>
     sa_abs d 0 = [''a'' \<mapsto> ''1'', ''b'' \<mapsto> ''2''] \<and> sa_abs d 3 = [''a'' \<mapsto> ''3'']"
proof -
  let ?cfg = "default_properties\<lparr>AppendOnly := True\<rparr>" and ?disk = "\<lambda>n. None"
  let ?cs = "[(0, [[''SET'', ''a'', ''1'']]), (0, [[''SET'', ''b'', ''2'']]), (3, [[''SET'', ''a'', ''3''], [''GET'', ''a'']])]"
  let ?d0 = "started (empty_server 16) []" and ?h0 = "\<lparr>aofFile = \<lparr>written = [], writes = 0\<rparr>, currentDBIndex = 0\<rparr>"
  have n: "database_count ?cfg = 16"
    by (simp add: database_count_def default_properties_def zero_properties_def)
  have start: "NewStandaloneDatabase (id, ?cfg, ?disk) None True = Started ?d0" using start_fresh [of ?cfg] n by simp
  have h0: "aofHandler ?d0 = Some ?h0" by (simp add: started_def)
  have clean: "\<forall>c \<in> set ?cs. \<forall>line \<in> set (snd c). clean_cmd line \<and> ToLower id (hd line) \<notin> {''select'', ''flushdb'', ''keys''}"
    by (simp add: clean_cmd_def clean_arg_def maxAlloc_def)
  have apart: "keys_apart id ?cs"
    by (auto simp: keys_apart_def session_keys_def line_keys_def cmd_keys_def body_simps less_Suc_eq)
  obtain cs' S h where r: "run_clients ?cfg ?disk [2, 0, 2, 1, 0, 1, 1, 2, 0, 2] (start_clients id ?cs) (sa_abs ?d0, ?h0) = (cs', S, h)"
    by (metis prod_cases3)
  then have fin: "map snd cs' = map DoneP [[OkReply], [OkReply], [OkReply, BulkReply ''3'']]"
    and S: "S 0 = [''a'' \<mapsto> ''1'', ''b'' \<mapsto> ''2'']" "S 3 = [''a'' \<mapsto> ''3'']"
    using snapshot_abs [of ?d0 "empty_server 16"]
    by (auto simp: start_clients_def line_proc_def body_simps sa_abs_empty fun_upd_twist)
  have db: "\<forall>c \<in> set ?cs. int (fst c) < database_count ?cfg" and on: "AppendOnly ?cfg" "0 < database_count ?cfg" using n by simp_all
  note all = conjunct2 [OF concurrent_clients_recover [OF on(1) refl on(2) start h0 db clean apart, of "[2, 0, 2, 1, 0, 1, 1, 2, 0, 2]"]]
  have "\<exists>d. NewStandaloneDatabase (id, ?cfg, ?disk) (Some (written (aofFile h))) True = Started d \<and> sa_abs d = S"
    using all [rule_format, unfolded append_Nil2, OF _ fin, of "[]" S h] r by (simp only: append_Nil2)
  with r S show ?thesis by auto
qed

end
