(* ===== verification/ConcurrentKeys.thy ===== *)
theory ConcurrentKeys
  imports Concurrency
begin

text \<open>
  \<^verbatim>\<open>sync.Map.Range\<close> while the commands of other clients change the map: \<^verbatim>\<open>ForEach\<close>, \<^verbatim>\<open>Len\<close> and \<^verbatim>\<open>Keys\<close> of
  \<^verbatim>\<open>datastruct/dict/sync_dict.go\<close>, and KEYS of \<^verbatim>\<open>database/keys.go\<close>.  Range is not a snapshot.  Go
  promises that it visits no key twice, that a visited key was in the map at some time during the
  call, and that a key that was there all along is visited; \<open>range_step\<close> allows exactly that.  The other
  clients are those of \<open>Concurrency\<close>: what is in the map is what the operations of their commands make of it.
\<close>

section \<open>Range\<close>

text \<open>
  \<open>visited\<close> are the keys in the order of the visits; \<open>ever\<close> those that have been in the map since the
  call, and \<open>always\<close> those that have not left it.
\<close>

record range_state =
  ever :: "string set"
  always :: "string set"
  visited :: "string list"

text \<open>A client does the next operation of its commands, or Range hands a key to its function.\<close>

datatype range_event = Client nat | Visit string

type_synonym traversal = "proc list \<times> shared \<times> range_state"

definition range_begins :: "store \<Rightarrow> range_state" where
  "range_begins s = \<lparr>ever = dom s, always = dom s, visited = []\<rparr>"

fun range_step :: "range_event \<Rightarrow> traversal \<Rightarrow> traversal option" where
  "range_step (Client i) (ps, sl, w) =
     (case (if i < length ps then proc_step (ps ! i) sl else None) of
        None \<Rightarrow> None
      | Some (p, s, l) \<Rightarrow> Some (ps[i := p], (s, l), w\<lparr>ever := ever w \<union> dom s, always := always w \<inter> dom s\<rparr>))"
| "range_step (Visit k) (ps, sl, w) =
     (if k \<in> ever w \<and> k \<notin> set (visited w) then Some (ps, sl, w\<lparr>visited := visited w @ [k]\<rparr>) else None)"

fun range_run :: "range_event list \<Rightarrow> traversal \<Rightarrow> traversal option" where
  "range_run [] t = Some t"
| "range_run (ev # evs) t = (case range_step ev t of None \<Rightarrow> None | Some t' \<Rightarrow> range_run evs t')"

text \<open>Range may return when it has visited every key that was there all along.\<close>

definition may_return :: "range_state \<Rightarrow> bool" where
  "may_return w \<longleftrightarrow> always w \<subseteq> set (visited w)"

section \<open>The callers\<close>

text \<open>\<^verbatim>\<open>Len\<close> counts the visits; \<^verbatim>\<open>Keys\<close> writes the visited keys into a slice made with the length before.\<close>

definition range_Len :: "string list \<Rightarrow> nat" where
  "range_Len vs = fold (\<lambda>k n. n + 1) vs 0"

fun fill_keys :: "string list \<Rightarrow> string list \<Rightarrow> nat \<Rightarrow> string list go" where
  "fill_keys [] keys i = Inr keys"
| "fill_keys (k # ks) keys i = go_bind (set_index keys i k) (\<lambda>keys. fill_keys ks keys (i + 1))"

definition range_Keys :: "string list \<Rightarrow> string list \<Rightarrow> string list go" where
  "range_Keys counted vs = fill_keys vs (replicate (range_Len counted) []) 0"

definition range_execKeys :: "string \<Rightarrow> string list \<Rightarrow> reply" where
  "range_execKeys arg vs =
     (let pattern = CompilePattern arg;
          result = fold (\<lambda>key result. if IsMatch pattern key then result @ [key] else result) vs []
      in MakeMultiBulkReply result)"

section \<open>What commands store and delete\<close>

definition stored_by :: "(nat \<Rightarrow> nat) \<Rightarrow> CmdLine \<Rightarrow> string set" where
  "stored_by u line =
     (let c = ToLower u (hd line); as = tl line in
      if c \<notin> known_commands \<or> \<not> arity_ok c (length as) then {}
      else if c \<in> {''set'', ''setnx'', ''getset''} then {as ! 0}
      else if c \<in> {''rename'', ''renamenx''} then {as ! 1} else {})"

definition deleted_by :: "(nat \<Rightarrow> nat) \<Rightarrow> CmdLine \<Rightarrow> string set" where
  "deleted_by u line =
     (let c = ToLower u (hd line); as = tl line in
      if c \<notin> known_commands \<or> \<not> arity_ok c (length as) then {}
      else if c = ''del'' then set as
      else if c \<in> {''rename'', ''renamenx''} then {as ! 0} else {})"

text \<open>A sequence of operations stores keys of \<open>A\<close> and deletes keys of \<open>D\<close> only.\<close>

primrec changes :: "string set \<Rightarrow> string set \<Rightarrow> proc \<Rightarrow> bool" where
  "changes A D (LoadP k f) \<longleftrightarrow> (\<forall>v. changes A D (f v))"
| "changes A D (StoreP k v p) \<longleftrightarrow> k \<in> A \<and> changes A D p"
| "changes A D (LoadOrStoreP k v f) \<longleftrightarrow> k \<in> A \<and> (\<forall>b. changes A D (f b))"
| "changes A D (DeleteP k p) \<longleftrightarrow> k \<in> D \<and> changes A D p"
| "changes A D (LogP line p) \<longleftrightarrow> changes A D p"
| "changes A D (DoneP rs) \<longleftrightarrow> True"

lemma changes_then_do: "changes A D p \<Longrightarrow> (\<And>rs. changes A D (q rs)) \<Longrightarrow> changes A D (then_do p q)"
  by (induction p) auto

lemma changes_del: "set ks \<subseteq> D \<Longrightarrow> changes A D (del_proc ks line n)"
  by (induction ks arbitrary: n) (auto simp: RemoveP_def)

lemma changes_exists: "changes A D (exists_proc ks n)"
  by (induction ks arbitrary: n) auto

lemma changes_line:
  assumes "on_keys u line" and "stored_by u line \<subseteq> A" and "deleted_by u line \<subseteq> D"
  shows "changes A D (line_proc u line)"
proof -
  define c where "c = ToLower u (hd line)"
  define as where "as = tl line"
  have k: "c \<notin> {''flushdb'', ''keys''}" using assms(1) by (simp add: on_keys_def c_def)
  note sets = assms(2,3) [unfolded stored_by_def deleted_by_def Let_def, folded c_def as_def]
  show ?thesis unfolding line_proc_def c_def [symmetric] as_def [symmetric]
  proof (cases "c \<in> known_commands \<and> arity_ok c (length as)")
    case False
    then show "changes A D (command_proc c as)" by (auto simp: command_proc_def)
  next
    case True
    then have known: "c \<in> known_commands" "arity_ok c (length as)" by auto
    from known show "changes A D (command_proc c as)"
    proof (cases rule: accepted_cases)
      case del
      with sets known show ?thesis by (auto simp: body_simps intro!: changes_del)
    next
      case exists
      with known show ?thesis by (auto simp: body_simps intro!: changes_exists)
    qed (use sets k known in \<open>auto simp: body_simps split: option.splits\<close>)
  qed
qed

lemma changes_session:
  "\<forall>line \<in> set lines. on_keys u line \<and> stored_by u line \<subseteq> A \<and> deleted_by u line \<subseteq> D \<Longrightarrow>
   changes A D (session_proc u lines rs)"
  by (induction lines arbitrary: rs) (auto intro!: changes_then_do changes_line)

lemma changes_step:
  assumes "changes A D p" and "proc_step p (s, l) = Some (p', s', l')"
  shows "changes A D p'" "dom s' \<subseteq> dom s \<union> A" "dom s - D \<subseteq> dom s'" "finite (dom s) \<Longrightarrow> finite (dom s')"
  using assms by (cases p; auto split: if_splits)+

section \<open>Facts\<close>

lemma finite_db_abs: "finite (dom (db_abs db))"
  by (rule finite_subset [of _ "dom (dict_abs (data db))"])
    (auto simp: db_abs_def dict_abs_def finite_dom_map_of bind_eq_Some_conv)

lemma changes_run_procs:
  "run_procs sched ps (s, l) = (ps', s', l') \<Longrightarrow> list_all (changes A D) ps \<Longrightarrow> finite (dom s) \<Longrightarrow>
   list_all (changes A D) ps' \<and> finite (dom s')"
proof (induction sched arbitrary: ps s l)
  case (Cons i sched)
  show ?case
  proof (cases "if i < length ps then proc_step (ps ! i) (s, l) else None")
    case None
    with Cons show ?thesis by simp
  next
    case (Some r)
    obtain p s1 l1 where r: "r = (p, s1, l1)" by (cases r) auto
    from Some r have i: "i < length ps" "proc_step (ps ! i) (s, l) = Some (p, s1, l1)" by (auto split: if_splits)
    with Cons.prems(2) have "changes A D (ps ! i)" by (auto simp: list_all_length)
    note c = changes_step [OF this i(2)]
    have "list_all (changes A D) (ps[i := p])"
      using Cons.prems(2) c(1) by (auto simp: list_all_iff dest: set_update_subset_insert [THEN subsetD])
    with Cons.IH [of "ps[i := p]" s1 l1] Cons.prems(1,3) c(4) i show ?thesis by simp
  qed
qed simp

text \<open>What holds at every moment of a call that began on the store \<open>s0\<close>.\<close>

fun range_inv :: "string set \<Rightarrow> string set \<Rightarrow> store \<Rightarrow> traversal \<Rightarrow> bool" where
  "range_inv A D s0 (ps, (s, l), w) \<longleftrightarrow> list_all (changes A D) ps \<and> dom s \<subseteq> ever w \<and> ever w \<subseteq> dom s0 \<union> A \<and>
     dom s0 - D \<subseteq> always w \<and> always w \<subseteq> dom s \<and> always w \<subseteq> dom s0 \<and> distinct (visited w) \<and> set (visited w) \<subseteq> ever w"

lemma range_inv_step: "range_step ev t = Some t' \<Longrightarrow> range_inv A D s0 t \<Longrightarrow> range_inv A D s0 t'"
proof (cases ev)
  case (Client i)
  assume step: "range_step ev t = Some t'" and inv: "range_inv A D s0 t"
  obtain ps s l w where t: "t = (ps, (s, l), w)" by (cases t) auto
  from step Client t obtain p s1 l1 where i: "i < length ps" "proc_step (ps ! i) (s, l) = Some (p, s1, l1)"
    and t': "t' = (ps[i := p], (s1, l1), w\<lparr>ever := ever w \<union> dom s1, always := always w \<inter> dom s1\<rparr>)"
    by (auto split: if_splits option.splits)
  from inv t i(1) have "changes A D (ps ! i)" by (auto simp: list_all_length)
  note c = changes_step [OF this i(2)]
  from inv t have w: "list_all (changes A D) ps" "dom s \<subseteq> ever w" "ever w \<subseteq> dom s0 \<union> A" "dom s0 - D \<subseteq> always w"
    "always w \<subseteq> dom s" "always w \<subseteq> dom s0" "distinct (visited w)" "set (visited w) \<subseteq> ever w" by simp_all
  have "list_all (changes A D) (ps[i := p])"
    using w(1) c(1) by (auto simp: list_all_iff dest: set_update_subset_insert [THEN subsetD])
  moreover have "ever w \<union> dom s1 \<subseteq> dom s0 \<union> A" using w(2,3) c(2) by blast
  moreover have "dom s0 - D \<subseteq> always w \<inter> dom s1" using w(4,5) c(3) by blast
  ultimately show ?thesis using w(6-8) unfolding t' by (simp add: le_infI1 le_supI1)
next
  case (Visit k)
  assume "range_step ev t = Some t'" and "range_inv A D s0 t"
  with Visit show ?thesis by (cases t) (auto split: if_splits)
qed

lemma range_inv_run: "range_run evs t = Some t' \<Longrightarrow> range_inv A D s0 t \<Longrightarrow> range_inv A D s0 t'"
proof (induction evs arbitrary: t)
  case (Cons ev evs)
  then obtain t1 where "range_step ev t = Some t1" "range_run evs t1 = Some t'" by (auto split: option.splits)
  with Cons range_inv_step show ?case by blast
qed simp

lemma range_run_append:
  "range_run (evs @ evs') t = (case range_run evs t of None \<Rightarrow> None | Some t' \<Rightarrow> range_run evs' t')"
  by (induction evs arbitrary: t) (auto split: option.splits)

lemma range_run_Visit:
  "distinct (visited w @ vs) \<Longrightarrow> set vs \<subseteq> ever w \<Longrightarrow>
   range_run (map Visit vs) (ps, sl, w) = Some (ps, sl, w\<lparr>visited := visited w @ vs\<rparr>)"
  by (induction vs arbitrary: w) auto

lemma range_Len [simp]: "range_Len vs = length vs"
proof -
  have "fold (\<lambda>k n. n + 1) vs n = n + length vs" for n by (induction vs arbitrary: n) auto
  then show ?thesis by (simp add: range_Len_def)
qed

lemma fill_keys_result:
  "fill_keys vs (pre @ replicate n []) (length pre) =
     (if length vs \<le> n then Inr (pre @ vs @ replicate (n - length vs) []) else Inl IndexOutOfRange)"
proof (induction vs arbitrary: pre n)
  case (Cons k vs)
  show ?case
  proof (cases n)
    case 0
    then show ?thesis by (simp add: set_index_def)
  next
    case (Suc m)
    from Cons.IH [of "pre @ [k]" m] show ?thesis by (simp add: Suc set_index_append)
  qed
qed simp

lemma range_execKeys_filter: "range_execKeys arg vs = MultiBulkReply (filter (IsMatch (CompilePattern arg)) vs)"
proof -
  have "fold (\<lambda>key result. if P key then result @ [key] else result) vs acc = acc @ filter P vs" for P and acc :: "string list"
    by (induction vs arbitrary: acc) auto
  then show ?thesis by (simp add: range_execKeys_def MakeMultiBulkReply_def Let_def)
qed

text \<open>Without other goroutines a call is a traversal of the whole map, and KEYS is the one of \<open>Database\<close>.\<close>

lemma range_alone:
  assumes "distinct ks" and "set ks = dom s"
  shows "\<exists>w. range_run (map Visit ks) (ps, (s, l), range_begins s) = Some (ps, (s, l), w) \<and> may_return w \<and> visited w = ks"
  using range_run_Visit [of "range_begins s" ks ps "(s, l)"] assms by (simp add: may_return_def range_begins_def)

lemma execKeys_sequential:
  "execKeys db [arg] = Inr (range_execKeys arg (map fst (m (data db))), db, [])"
  by (simp add: execKeys_def range_execKeys_def ForEach_fold Let_def case_prod_unfold fold_map comp_def if_distrib [of snd])

text \<open>
  \<^verbatim>\<open>Keys\<close> panics exactly if there are more keys to visit than it has counted, and pads the answer with empty
  keys if there are fewer.
\<close>

lemma range_Keys_result:
  "range_Keys counted vs =
     (if length vs \<le> length counted then Inr (vs @ replicate (length counted - length vs) []) else Inl IndexOutOfRange)"
  using fill_keys_result [of vs "[]" "length counted"] by (simp add: range_Keys_def)

text \<open>So a SET between the two traversals of \<^verbatim>\<open>Keys\<close>, the one that counts and the one that writes, makes it panic.\<close>

lemma Keys_races_with_set:
  "\<exists>ps sl w w1 sched l. range_run [] ([session_proc id [[''set'', ''k'', v]] []], (Map.empty, []), range_begins Map.empty) =
       Some (ps, sl, w) \<and> may_return w \<and>
     run_procs sched ps sl = ([DoneP [OkReply]], [''k'' \<mapsto> v], l) \<and>
     range_run [Visit ''k''] ([DoneP [OkReply]], ([''k'' \<mapsto> v], l), range_begins [''k'' \<mapsto> v]) =
       Some ([DoneP [OkReply]], ([''k'' \<mapsto> v], l), w1) \<and> may_return w1 \<and>
     range_Keys (visited w) (visited w1) = Inl IndexOutOfRange"
proof -
  have "run_procs [0, 0, 0] [session_proc id [[''set'', ''k'', v]] []] (Map.empty, []) =
      ([DoneP [OkReply]], [''k'' \<mapsto> v], [[''set'', ''k'', v]])"
    by (simp add: line_proc_def body_simps)
  moreover have "range_Keys [] [''k''] = Inl IndexOutOfRange" by (simp add: range_Keys_result)
  ultimately show ?thesis
    by (intro exI [of _ "[session_proc id [[''set'', ''k'', v]] []]"] exI [of _ "(Map.empty, [])"]
        exI [of _ "range_begins Map.empty"] exI [of _ "(range_begins [''k'' \<mapsto> v])\<lparr>visited := [''k'']\<rparr>"]
        exI [of _ "[0, 0, 0]"] exI [of _ "[[''set'', ''k'', v]]"])
      (simp add: may_return_def range_begins_def del: session_proc.simps run_procs.simps)
qed

section \<open>Properties\<close>

text \<open>
  C22 (concurrent_keys_bounds). KEYS begins while clients are at any point of their commands on keys (all but FLUSHDB and
  KEYS), and their operations go on during its traversal.  The traversal can always return, and whenever it does, KEYS
  lists no key twice; it lists every matching key that was there when it began and that no command of the clients
  deletes (by DEL, or by renaming it), however often it is overwritten meanwhile; and it lists no key but
  matching ones that were there when it began or that some command stores (by SET, SETNX, GETSET or a rename).
\<close>

theorem concurrent_keys_bounds:
  assumes "db_inv db" and "list_all (list_all (on_keys u)) css"
    and "run_procs sched (map (\<lambda>lines. session_proc u lines []) css) (db_abs db, []) = (ps0, s0, l0)"
    and "range_run evs (ps0, (s0, l0), range_begins s0) = Some (ps, sl, w)"
  shows "(\<exists>vs w'. range_run (evs @ map Visit vs) (ps0, (s0, l0), range_begins s0) = Some (ps, sl, w') \<and> may_return w') \<and>
    (may_return w \<longrightarrow> (\<exists>ks. range_execKeys arg (visited w) = MultiBulkReply ks \<and> distinct ks \<and>
      (\<forall>k. IsMatch (CompilePattern arg) k \<and> s0 k \<noteq> None \<and> (\<forall>line \<in> set (concat css). k \<notin> deleted_by u line) \<longrightarrow> k \<in> set ks) \<and>
      (\<forall>k \<in> set ks. IsMatch (CompilePattern arg) k \<and> (s0 k \<noteq> None \<or> (\<exists>line \<in> set (concat css). k \<in> stored_by u line)))))"
proof -
  define A where "A = \<Union> (stored_by u ` set (concat css))"
  define D where "D = \<Union> (deleted_by u ` set (concat css))"
  have "list_all (changes A D) (map (\<lambda>lines. session_proc u lines []) css)"
    using assms(2) by (auto simp: list_all_iff A_def D_def intro!: changes_session)
  from changes_run_procs [OF assms(3) this] have ps0: "list_all (changes A D) ps0" and fin: "finite (dom s0)"
    using finite_db_abs [of db] by auto
  obtain s l where sl: "sl = (s, l)" by (cases sl)
  have "range_inv A D s0 (ps0, (s0, l0), range_begins s0)" using ps0 by (auto simp: range_begins_def)
  from range_inv_run [OF assms(4) this] have inv: "range_inv A D s0 (ps, (s, l), w)" by (simp add: sl)
  then have "finite (always w - set (visited w))" using fin by (auto intro: finite_subset)
  then obtain vs where vs: "set vs = always w - set (visited w)" "distinct vs" using finite_distinct_list by blast
  then have "range_run (map Visit vs) (ps, sl, w) = Some (ps, sl, w\<lparr>visited := visited w @ vs\<rparr>)"
    using inv by (intro range_run_Visit) auto
  then have "\<exists>vs w'. range_run (evs @ map Visit vs) (ps0, (s0, l0), range_begins s0) = Some (ps, sl, w') \<and> may_return w'"
    using assms(4) vs(1) by (intro exI conjI) (simp add: range_run_append, auto simp: may_return_def)
  moreover have "\<exists>ks. range_execKeys arg (visited w) = MultiBulkReply ks \<and> distinct ks \<and>
      (\<forall>k. IsMatch (CompilePattern arg) k \<and> s0 k \<noteq> None \<and> (\<forall>line \<in> set (concat css). k \<notin> deleted_by u line) \<longrightarrow> k \<in> set ks) \<and>
      (\<forall>k \<in> set ks. IsMatch (CompilePattern arg) k \<and> (s0 k \<noteq> None \<or> (\<exists>line \<in> set (concat css). k \<in> stored_by u line)))"
    if "may_return w"
  proof -
    have "dom s0 - D \<subseteq> set (visited w)" "set (visited w) \<subseteq> dom s0 \<union> A" "distinct (visited w)"
      using that inv by (auto simp: may_return_def)
    then have "k \<in> set (visited w)" if "s0 k \<noteq> None" "k \<notin> D" for k using that by blast
    moreover have "s0 k \<noteq> None \<or> k \<in> A" if "k \<in> set (visited w)" for k
      using that \<open>set (visited w) \<subseteq> dom s0 \<union> A\<close> by blast
    ultimately show ?thesis
      using \<open>distinct (visited w)\<close> unfolding range_execKeys_filter A_def D_def by simp
  qed
  ultimately show ?thesis by blast
qed

theorem concurrent_keys_bounds_witness:
  "\<exists>ks. range_execKeys ''a*'' [''ac'', ''ab''] = MultiBulkReply ks \<and> distinct ks \<and> ''ab'' \<in> set ks"
proof -
  let ?css = "[[[''SET'', ''ab'', ''1''], [''SET'', ''ab'', ''2'']], [[''SET'', ''ac'', ''3'']]]"
  let ?evs = "[Client 1, Client 0, Client 1, Visit ''ac'', Client 0, Visit ''ab'']" and ?s0 = "[''ab'' \<mapsto> ''1'']"
  have keys: "list_all (list_all (on_keys id)) ?css" by (simp add: on_keys_def)
  obtain ps0 l0 where 0: "run_procs [0, 0, 0] (map (\<lambda>lines. session_proc id lines []) ?css) (db_abs makeDB, []) = (ps0, ?s0, l0)"
    by (simp add: line_proc_def body_simps)
  then obtain ps sl w where 1: "range_run ?evs (ps0, (?s0, l0), range_begins ?s0) = Some (ps, sl, w)"
    and w: "visited w = [''ac'', ''ab'']" "always w = {''ab''}"
    by (auto simp: line_proc_def body_simps range_begins_def)
  have "may_return w" by (simp add: may_return_def w)
  from mp [OF conjunct2 [OF concurrent_keys_bounds [OF db_inv_makeDB(1) keys 0 1, of "''a*''"]] this]
  obtain ks where ks: "range_execKeys ''a*'' [''ac'', ''ab''] = MultiBulkReply ks" "distinct ks"
    "\<forall>k. IsMatch (CompilePattern ''a*'') k \<and> ?s0 k \<noteq> None \<and> (\<forall>line \<in> set (concat ?css). k \<notin> deleted_by id line) \<longrightarrow> k \<in> set ks"
    unfolding w(1) by (elim exE conjE) (rule that)
  have "IsMatch (CompilePattern ''a*'') ''ab''" by code_simp
  moreover have "\<forall>line \<in> set (concat ?css). ''ab'' \<notin> deleted_by id line" by (simp add: deleted_by_def Let_def)
  ultimately have "''ab'' \<in> set ks" by (intro mp [OF spec [OF ks(3)]] conjI) simp_all
  with ks(1,2) show ?thesis by blast
qed

end
