(* ===== verification/Linearizability.thy ===== *)
theory Linearizability
  imports Concurrency
begin

text \<open>
  Which commands look atomic to clients that run at the same time.  \<open>atomic_step\<close> is a server that
  executes every command in one step of \<open>redis_step\<close> somewhere between its call and its answer.
  \<open>conc_step\<close> is the server of \<open>Concurrency\<close>, where the operations of the clients' commands on the
  dictionary interleave.  A command whose sequence has one effect (\<open>one_effect\<close>: GET, SET, STRLEN,
  TYPE, EXISTS of one key, PING, and every command in error) is atomic: each run of the second server has the
  calls and answers of a run of the first (a forward simulation, with the effect as the step
  of the atomic server).  SETNX is not (\<open>Concurrency.setnx_loses_a_set\<close>).
\<close>

section \<open>The two servers\<close>

datatype client_call = Invoke nat CmdLine | Respond nat reply

datatype atomic_client = Idle | Invoked CmdLine | Answered reply

type_synonym atomic_state = "(nat \<Rightarrow> atomic_client) \<times> store"

inductive atomic_step :: "(nat \<Rightarrow> nat) \<Rightarrow> atomic_state \<Rightarrow> client_call list \<Rightarrow> atomic_state \<Rightarrow> bool" for u where
  atomic_invoke: "st i = Idle \<Longrightarrow> atomic_step u (st, s) [Invoke i line] (st(i := Invoked line), s)"
| atomic_effect: "st i = Invoked line \<Longrightarrow> redis_step s (ToLower u (hd line)) (tl line) r s' \<Longrightarrow>
    atomic_step u (st, s) [] (st(i := Answered r), s')"
| atomic_respond: "st i = Answered r \<Longrightarrow> atomic_step u (st, s) [Respond i r] (st(i := Idle), s)"

inductive atomic_run :: "(nat \<Rightarrow> nat) \<Rightarrow> atomic_state \<Rightarrow> client_call list \<Rightarrow> atomic_state \<Rightarrow> bool" for u where
  atomic_refl: "atomic_run u a [] a"
| atomic_more: "atomic_run u a tr b \<Longrightarrow> atomic_step u b ev c \<Longrightarrow> atomic_run u a (tr @ ev) c"

datatype conc_client = Ready | Running proc

type_synonym conc_state = "(nat \<Rightarrow> conc_client) \<times> store \<times> CmdLine list"

text \<open>\<open>allowed\<close> says which command lines the clients may send.\<close>

inductive conc_step ::
  "(nat \<Rightarrow> nat) \<Rightarrow> (CmdLine \<Rightarrow> bool) \<Rightarrow> conc_state \<Rightarrow> client_call list \<Rightarrow> conc_state \<Rightarrow> bool" for u allowed where
  conc_invoke: "cl i = Ready \<Longrightarrow> allowed line \<Longrightarrow>
    conc_step u allowed (cl, s, l) [Invoke i line] (cl(i := Running (line_proc u line)), s, l)"
| conc_operate: "cl i = Running p \<Longrightarrow> proc_step p (s, l) = Some (p', s', l') \<Longrightarrow>
    conc_step u allowed (cl, s, l) [] (cl(i := Running p'), s', l')"
| conc_respond: "cl i = Running (DoneP [r]) \<Longrightarrow>
    conc_step u allowed (cl, s, l) [Respond i r] (cl(i := Ready), s, l)"

inductive conc_run ::
  "(nat \<Rightarrow> nat) \<Rightarrow> (CmdLine \<Rightarrow> bool) \<Rightarrow> conc_state \<Rightarrow> client_call list \<Rightarrow> conc_state \<Rightarrow> bool" for u allowed where
  conc_refl: "conc_run u allowed a [] a"
| conc_more: "conc_run u allowed a tr b \<Longrightarrow> conc_step u allowed b ev c \<Longrightarrow> conc_run u allowed a (tr @ ev) c"

section \<open>Sequences with one effect\<close>

text \<open>Nothing is left to do but to log and to answer.\<close>

definition settled :: "reply \<Rightarrow> proc \<Rightarrow> bool" where
  "settled r p \<longleftrightarrow> p = DoneP [r] \<or> (\<exists>line. p = LogP line (DoneP [r]))"

text \<open>
  \<open>Q s r s'\<close> is the specification: answer \<open>r\<close> and store \<open>s'\<close> from store \<open>s\<close>.  The sequence may load
  values it makes no use of; its last operation before it is settled meets the specification, in
  whatever store it happens.
\<close>

primrec one_effect :: "(store \<Rightarrow> reply \<Rightarrow> store \<Rightarrow> bool) \<Rightarrow> proc \<Rightarrow> bool" where
  "one_effect Q (LoadP k f) \<longleftrightarrow>
     (\<forall>v. one_effect Q (f v)) \<or> (\<forall>s. \<exists>r. settled r (f (s k)) \<and> Q s r s)"
| "one_effect Q (StoreP k v p) \<longleftrightarrow> (\<forall>s. \<exists>r. settled r p \<and> Q s r (s(k \<mapsto> v)))"
| "one_effect Q (LoadOrStoreP k v f) \<longleftrightarrow>
     (\<forall>s. \<exists>r. settled r (f (s k \<noteq> None)) \<and> Q s r (if s k = None then s(k \<mapsto> v) else s))"
| "one_effect Q (DeleteP k p) \<longleftrightarrow> (\<forall>s. \<exists>r. settled r p \<and> Q s r (s(k := None)))"
| "one_effect Q (LogP line p) \<longleftrightarrow> False"
| "one_effect Q (DoneP rs) \<longleftrightarrow> (\<exists>r. rs = [r] \<and> (\<forall>s. Q s r s))"

lemma one_effect_step:
  assumes "one_effect Q p" and "proc_step p (s, l) = Some (p', s', l')"
  shows "one_effect Q p' \<and> s' = s \<or> (\<exists>r. settled r p' \<and> Q s r s')"
  using assms
proof (cases p)
  case (LoadOrStoreP k v f)
  with assms obtain r where "settled r (f (s k \<noteq> None))" "Q s r (if s k = None then s(k \<mapsto> v) else s)" by auto
  with assms(2) LoadOrStoreP show ?thesis by auto
qed (auto split: if_splits)

lemma settled_step:
  "settled r p \<Longrightarrow> proc_step p (s, l) = Some (p', s', l') \<Longrightarrow> settled r p' \<and> s' = s"
  by (auto simp: settled_def)

text \<open>The effect as a step of the atomic server.\<close>

definition spec_of :: "(nat \<Rightarrow> nat) \<Rightarrow> CmdLine \<Rightarrow> store \<Rightarrow> reply \<Rightarrow> store \<Rightarrow> bool" where
  "spec_of u line s r s' \<longleftrightarrow> redis_step s (ToLower u (hd line)) (tl line) r s'"

definition atomic_line :: "(nat \<Rightarrow> nat) \<Rightarrow> CmdLine \<Rightarrow> bool" where
  "atomic_line u line \<longleftrightarrow> one_effect (spec_of u line) (line_proc u line)"

section \<open>The simulation\<close>

fun matches_client :: "(nat \<Rightarrow> nat) \<Rightarrow> conc_client \<Rightarrow> atomic_client \<Rightarrow> bool" where
  "matches_client u Ready Idle = True"
| "matches_client u (Running p) (Invoked line) = one_effect (spec_of u line) p"
| "matches_client u (Running p) (Answered r) = settled r p"
| "matches_client u _ _ = False"

definition matches_state :: "(nat \<Rightarrow> nat) \<Rightarrow> conc_state \<Rightarrow> atomic_state \<Rightarrow> bool" where
  "matches_state u c a \<longleftrightarrow> fst (snd c) = snd a \<and> (\<forall>i. matches_client u (fst c i) (fst a i))"

lemma matches_ReadyD: "matches_client u Ready a \<Longrightarrow> a = Idle"
  by (cases a) auto

lemma matches_RunningE:
  assumes "matches_client u (Running p) a"
  obtains (before) line where "a = Invoked line" "one_effect (spec_of u line) p"
  | (after) r where "a = Answered r" "settled r p"
  using assms by (cases a) auto

lemma matches_update:
  "\<forall>i. matches_client u (cl i) (st i) \<Longrightarrow> matches_client u x y \<Longrightarrow> \<forall>j. matches_client u ((cl(i := x)) j) ((st(i := y)) j)"
  by simp

lemma conc_step_simulates:
  assumes "conc_step u (atomic_line u) c ev c'" and "matches_state u c a"
  shows "\<exists>a'. (\<exists>tr. atomic_run u a tr a' \<and> tr = ev) \<and> matches_state u c' a'"
  using assms
proof (induction rule: conc_step.induct)
  case (conc_invoke cl i line s l)
  obtain st where a: "a = (st, s)" and m: "\<forall>i. matches_client u (cl i) (st i)"
    using conc_invoke(3) by (cases a) (auto simp: matches_state_def)
  have "st i = Idle" using m conc_invoke(1) matches_ReadyD by metis
  then have "atomic_step u a [Invoke i line] (st(i := Invoked line), s)" unfolding a by (rule atomic_invoke)
  from atomic_more [OF atomic_refl this] have "atomic_run u a [Invoke i line] (st(i := Invoked line), s)" by simp
  moreover have "matches_client u (Running (line_proc u line)) (Invoked line)"
    using conc_invoke(2) by (simp add: atomic_line_def)
  with m have "matches_state u (cl(i := Running (line_proc u line)), s, l) (st(i := Invoked line), s)"
    by (simp add: matches_state_def)
  ultimately show ?case by blast
next
  case (conc_operate cl i p s l p' s' l')
  obtain st where a: "a = (st, s)" and m: "\<forall>i. matches_client u (cl i) (st i)"
    using conc_operate(3) by (cases a) (auto simp: matches_state_def)
  have "matches_client u (Running p) (st i)" using m conc_operate(1) by metis
  then show ?case
  proof (cases rule: matches_RunningE)
    case (before line)
    from one_effect_step [OF before(2) conc_operate(2)] show ?thesis
    proof (elim disjE exE conjE)
      assume e: "one_effect (spec_of u line) p'" "s' = s"
      have "st(i := Invoked line) = st" using before(1) by auto
      moreover have "matches_state u (cl(i := Running p'), s', l') (st(i := Invoked line), s)"
        using m e by (simp add: matches_state_def)
      ultimately show ?thesis unfolding a using atomic_refl by fastforce
    next
      fix r assume e: "settled r p'" "spec_of u line s r s'"
      then have "atomic_step u (st, s) [] (st(i := Answered r), s')"
        using before(1) by (intro atomic_effect) (simp_all add: spec_of_def)
      from atomic_more [OF atomic_refl this] have "atomic_run u a [] (st(i := Answered r), s')" by (simp add: a)
      moreover have "matches_state u (cl(i := Running p'), s', l') (st(i := Answered r), s')"
        using m e by (simp add: matches_state_def)
      ultimately show ?thesis by blast
    qed
  next
    case (after r)
    from settled_step [OF after(2) conc_operate(2)] have e: "settled r p'" "s' = s" by auto
    have "st(i := Answered r) = st" using after(1) by auto
    moreover have "matches_state u (cl(i := Running p'), s', l') (st(i := Answered r), s)"
      using m e by (simp add: matches_state_def)
    ultimately show ?thesis unfolding a using atomic_refl by fastforce
  qed
next
  case (conc_respond cl i r s l)
  obtain st where a: "a = (st, s)" and m: "\<forall>i. matches_client u (cl i) (st i)"
    using conc_respond(2) by (cases a) (auto simp: matches_state_def)
  have "matches_client u (Running (DoneP [r])) (st i)" using m conc_respond(1) by metis
  then have "\<exists>st1. atomic_run u a [] (st1, s) \<and> st1 i = Answered r \<and> st1(i := Idle) = st(i := Idle)"
  proof (cases rule: matches_RunningE)
    case (before line)
    then have "atomic_step u a [] (st(i := Answered r), s)"
      unfolding a by (intro atomic_effect) (auto simp: spec_of_def)
    from atomic_more [OF atomic_refl this] show ?thesis by (intro exI [of _ "st(i := Answered r)"]) simp
  next
    case (after r')
    then have "st i = Answered r" by (simp add: settled_def)
    then show ?thesis using atomic_refl [of u a] by (auto simp: a)
  qed
  then obtain st1 where 1: "atomic_run u a [] (st1, s)" "st1 i = Answered r" "st1(i := Idle) = st(i := Idle)" by blast
  from atomic_more [OF 1(1) atomic_respond [of st1 i, OF 1(2)]]
  have "atomic_run u a [Respond i r] (st(i := Idle), s)" by (simp add: 1(3))
  moreover have "matches_state u (cl(i := Ready), s, l) (st(i := Idle), s)" using m by (simp add: matches_state_def)
  ultimately show ?case by blast
qed

lemma atomic_run_append: "atomic_run u b tr' c \<Longrightarrow> atomic_run u a tr b \<Longrightarrow> atomic_run u a (tr @ tr') c"
  by (induction rule: atomic_run.induct) (auto intro: atomic_more simp flip: append_assoc)

lemma conc_run_simulates:
  "conc_run u (atomic_line u) c tr c' \<Longrightarrow> matches_state u c a \<Longrightarrow> \<exists>a'. atomic_run u a tr a' \<and> matches_state u c' a'"
proof (induction rule: conc_run.induct)
  case (conc_refl c)
  then show ?case using atomic_refl by blast
next
  case (conc_more c tr c1 ev c2)
  then obtain a1 where 1: "atomic_run u a tr a1" "matches_state u c1 a1" by blast
  from conc_step_simulates [OF conc_more(2) 1(2)] obtain a2 where "atomic_run u a1 ev a2" "matches_state u c2 a2"
    by blast
  with 1 show ?case using atomic_run_append by blast
qed

section \<open>Atomic commands\<close>

definition single_key_line :: "(nat \<Rightarrow> nat) \<Rightarrow> CmdLine \<Rightarrow> bool" where
  "single_key_line u line \<longleftrightarrow>
     (let c = ToLower u (hd line); n = length (tl line) in
      c \<notin> known_commands \<or> \<not> arity_ok c n \<or> c \<in> {''get'', ''set'', ''strlen'', ''type'', ''ping''} \<or>
      c = ''exists'' \<and> n = 1)"

lemma exists_one_key:
  "s k = Some v \<Longrightarrow> redis_step s ''exists'' [k] (IntReply 1) s"
  "s k = None \<Longrightarrow> redis_step s ''exists'' [k] (IntReply 0) s"
  using redis_step.exists [of "[k]" s] by (simp_all add: dom_def)

lemma command_one_effect:
  assumes "c \<notin> known_commands \<or> \<not> arity_ok c (length as) \<or> c \<in> {''get'', ''set'', ''strlen'', ''type'', ''ping''} \<or>
    c = ''exists'' \<and> length as = 1"
  shows "one_effect (\<lambda>s r s'. redis_step s c as r s') (command_proc c as)"
proof (cases "c \<in> known_commands \<and> arity_ok c (length as)")
  case False
  then show ?thesis
    by (auto simp: command_proc_def intro: redis_step.unknown [simplified] redis_step.arity_error)
next
  case True
  then have known: "c \<in> known_commands" "arity_ok c (length as)" by auto
  have cmd: "c \<in> {''get'', ''set'', ''strlen'', ''type'', ''ping''} \<or> c = ''exists'' \<and> length as = 1"
    using assms True by auto
  from known show ?thesis
  proof (cases rule: accepted_cases)
    case exists
    with cmd obtain k where "as = [k]" by (auto simp: length_Suc_conv)
    with exists show ?thesis
      by (auto simp: body_simps settled_def split: option.split intro: exists_one_key)
  next
    case ping
    then show ?thesis by (auto simp: body_simps intro: redis_step.ping)
  next
    case (get k)
    then show ?thesis
      by (auto simp: body_simps settled_def split: option.split intro: redis_step.get_hit redis_step.get_miss)
  next
    case (strlen k)
    then show ?thesis
      by (auto simp: body_simps settled_def split: option.split intro: redis_step.strlen_hit redis_step.strlen_miss)
  next
    case (type k)
    then show ?thesis
      by (auto simp: body_simps settled_def intro: redis_step.type_hit redis_step.type_miss)
  next
    case (set k v)
    then show ?thesis by (auto simp: body_simps settled_def intro: redis_step.set)
  qed (use cmd in auto)
qed

lemma single_key_atomic: "single_key_line u line \<Longrightarrow> atomic_line u line"
  using command_one_effect [of "ToLower u (hd line)" "tl line"]
  by (simp add: single_key_line_def atomic_line_def line_proc_def spec_of_def [abs_def] Let_def)

section \<open>Every call can be answered\<close>

lemma conc_run_append: "conc_run u P b tr' c \<Longrightarrow> conc_run u P a tr b \<Longrightarrow> conc_run u P a (tr @ tr') c"
  by (induction rule: conc_run.induct) (auto intro: conc_more simp flip: append_assoc)

lemma conc_run_first: "conc_step u P a ev b \<Longrightarrow> conc_run u P b tr c \<Longrightarrow> conc_run u P a (ev @ tr) c"
  using conc_run_append [of u P b tr c a "[] @ ev"] conc_more [OF conc_refl] by auto

lemma conc_run_mono:
  assumes "\<And>line. P line \<Longrightarrow> P' line"
  shows "conc_run u P a tr b \<Longrightarrow> conc_run u P' a tr b"
proof (induction rule: conc_run.induct)
  case (conc_more a tr b ev c)
  from conc_more(2) have "conc_step u P' b ev c"
    by (induction rule: conc_step.induct) (auto intro: conc_step.intros assms)
  with conc_more(3) show ?case by (rule conc_run.conc_more)
qed (rule conc_run.conc_refl)

lemma matches_proc_step:
  assumes "matches_client u (Running p) a" and "proc_step p (s, l) = Some (p', s', l')"
  shows "\<exists>a'. matches_client u (Running p') a'"
  using assms(1)
proof (cases rule: matches_RunningE)
  case (before line)
  from one_effect_step [OF before(2) assms(2)] have "matches_client u (Running p') (Invoked line) \<or>
    (\<exists>r. matches_client u (Running p') (Answered r))" by auto
  then show ?thesis by blast
next
  case (after r)
  from settled_step [OF after(2) assms(2)] have "matches_client u (Running p') (Answered r)" by simp
  then show ?thesis by blast
qed

lemma matches_done: "matches_client u (Running (DoneP rs)) a \<Longrightarrow> \<exists>r. rs = [r]"
  by (cases a) (auto simp: settled_def)

lemma client_responds:
  "cl i = Running p \<Longrightarrow> matches_client u (Running p) a \<Longrightarrow>
   \<exists>r s' l'. conc_run u P (cl, s, l) [Respond i r] (cl(i := Ready), s', l')"
proof (induction p arbitrary: cl s l a rule: proc_step_induct)
  case (1 p)
  show ?case
  proof (cases "\<exists>rs. p = DoneP rs")
    case True
    then obtain r where "p = DoneP [r]" using matches_done 1(3) by blast
    with 1(2) have "conc_step u P (cl, s, l) [Respond i r] (cl(i := Ready), s, l)" by (intro conc_respond) simp
    from conc_run_first [OF this conc_refl] have "conc_run u P (cl, s, l) [Respond i r] (cl(i := Ready), s, l)"
      by simp
    then show ?thesis by blast
  next
    case False
    then obtain p1 s1 l1 where step: "proc_step p (s, l) = Some (p1, s1, l1)"
      using proc_step_Some [of p "(s, l)"] by auto
    from matches_proc_step [OF 1(3) step] obtain a1 where a1: "matches_client u (Running p1) a1" by blast
    have "(cl(i := Running p1)) i = Running p1" by simp
    note 1(1) [OF step, where cl = "cl(i := Running p1)" and s = s1 and l = l1, OF this a1, unfolded fun_upd_upd]
    then obtain r s' l' where
      "conc_run u P (cl(i := Running p1), s1, l1) [Respond i r] (cl(i := Ready), s', l')" by blast
    from conc_run_first [OF conc_operate [where cl = cl and i = i, OF 1(2) step] this]
    have "conc_run u P (cl, s, l) [Respond i r] (cl(i := Ready), s', l')" by simp
    then show ?thesis by blast
  qed
qed

section \<open>Properties\<close>

text \<open>
  C4 (single_key_commands_linearize). Clients send GET, SET, STRLEN, TYPE, EXISTS of one key, PING and commands in error
  (but not SETNX, GETSET or DEL, see \<open>Races\<close>), whenever they like and on the same keys.  However the
  operations interleave, the calls and answers are those of a server that executes each command in one
  step of the specification between its call and its answer, and that ends with the same data.
  No client waits for another: each open call can be answered by its own operations alone.
\<close>

theorem single_key_commands_linearize:
  assumes "conc_run u (single_key_line u) (\<lambda>i. Ready, s, l) tr (cl, s', l')"
  shows "(\<exists>st. atomic_run u (\<lambda>i. Idle, s) tr (st, s') \<and> (\<forall>i. cl i = Ready \<longrightarrow> st i = Idle)) \<and>
    (\<forall>i. cl i \<noteq> Ready \<longrightarrow>
      (\<exists>r s'' l''. conc_run u (single_key_line u) (cl, s', l') [Respond i r] (cl(i := Ready), s'', l'')))"
proof -
  have "conc_run u (atomic_line u) (\<lambda>i. Ready, s, l) tr (cl, s', l')"
    using assms by (rule conc_run_mono [rotated]) (rule single_key_atomic)
  moreover have "matches_state u (\<lambda>i. Ready, s, l) (\<lambda>i. Idle, s)" by (simp add: matches_state_def)
  ultimately obtain st s2 where a: "atomic_run u (\<lambda>i. Idle, s) tr (st, s2)" "matches_state u (cl, s', l') (st, s2)"
    using conc_run_simulates by fastforce
  then have m: "s2 = s'" "\<And>i. matches_client u (cl i) (st i)" by (simp_all add: matches_state_def)
  have "\<exists>r s'' l''. conc_run u (single_key_line u) (cl, s', l') [Respond i r] (cl(i := Ready), s'', l'')"
    if "cl i \<noteq> Ready" for i
  proof -
    from that obtain p where p: "cl i = Running p" by (cases "cl i") auto
    show ?thesis using m(2) [of i] client_responds [where cl = cl and i = i and p = p and a = "st i" and u = u] p by simp
  qed
  moreover have "\<forall>i. cl i = Ready \<longrightarrow> st i = Idle" using m(2) matches_ReadyD by metis
  ultimately show ?thesis using a(1) m(1) by blast
qed

theorem single_key_commands_linearize_witness:
  "\<exists>st. atomic_run id (\<lambda>i. Idle, Map.empty)
    [Invoke 0 [''SET'', ''k'', ''v''], Invoke 1 [''GET'', ''k''], Respond 1 (BulkReply ''v'')] (st, [''k'' \<mapsto> ''v''])"
proof -
  let ?P = "single_key_line id" and ?set = "[''SET'', ''k'', ''v'']" and ?get = "[''GET'', ''k'']"
  let ?p0 = "LogP [''set'', ''k'', ''v''] (DoneP [OkReply])"
  define c0 where "c0 = (\<lambda>i :: nat. Ready)"
  define c1 where "c1 = c0(0 := Running (line_proc id ?set))"
  define c2 where "c2 = c1(1 := Running (line_proc id ?get))"
  define c3 where "c3 = c2(0 := Running (StoreP ''k'' ''v'' ?p0))"
  define c4 where "c4 = c3(0 := Running ?p0)"
  define c5 where "c5 = c4(1 := Running (DoneP [BulkReply ''v'']))"
  note P = single_key_line_def line_proc_def body_simps
  have "conc_step id ?P (c0, Map.empty, []) [Invoke 0 ?set] (c1, Map.empty, [])"
    unfolding c1_def by (rule conc_invoke) (simp_all add: c0_def single_key_line_def)
  from conc_more [OF conc_refl this] have "conc_run id ?P (c0, Map.empty, []) [Invoke 0 ?set] (c1, Map.empty, [])" by simp
  moreover have "conc_step id ?P (c1, Map.empty, []) [Invoke 1 ?get] (c2, Map.empty, [])"
    unfolding c2_def by (rule conc_invoke) (simp_all add: c1_def c0_def single_key_line_def)
  ultimately have "conc_run id ?P (c0, Map.empty, []) [Invoke 0 ?set, Invoke 1 ?get] (c2, Map.empty, [])"
    using conc_more by fastforce
  moreover have "conc_step id ?P (c2, Map.empty, []) [] (c3, Map.empty, [])"
    unfolding c3_def by (rule conc_operate [of _ _ "line_proc id ?set"]) (simp_all add: c2_def c1_def P)
  ultimately have "conc_run id ?P (c0, Map.empty, []) [Invoke 0 ?set, Invoke 1 ?get] (c3, Map.empty, [])"
    using conc_more by fastforce
  moreover have "conc_step id ?P (c3, Map.empty, []) [] (c4, [''k'' \<mapsto> ''v''], [])"
    unfolding c4_def by (rule conc_operate [of _ _ "StoreP ''k'' ''v'' ?p0"]) (simp_all add: c3_def)
  ultimately have "conc_run id ?P (c0, Map.empty, []) [Invoke 0 ?set, Invoke 1 ?get] (c4, [''k'' \<mapsto> ''v''], [])"
    using conc_more by fastforce
  moreover have "conc_step id ?P (c4, [''k'' \<mapsto> ''v''], []) [] (c5, [''k'' \<mapsto> ''v''], [])"
    unfolding c5_def
    by (rule conc_operate [of _ _ "line_proc id ?get"]) (simp_all add: c4_def c3_def c2_def P)
  ultimately have "conc_run id ?P (c0, Map.empty, []) [Invoke 0 ?set, Invoke 1 ?get] (c5, [''k'' \<mapsto> ''v''], [])"
    using conc_more by fastforce
  moreover have "conc_step id ?P (c5, [''k'' \<mapsto> ''v''], []) [Respond 1 (BulkReply ''v'')] (c5(1 := Ready), [''k'' \<mapsto> ''v''], [])"
    by (rule conc_respond) (simp add: c5_def)
  ultimately have "conc_run id ?P (\<lambda>i. Ready, Map.empty, []) [Invoke 0 ?set, Invoke 1 ?get, Respond 1 (BulkReply ''v'')]
      (c5(1 := Ready), [''k'' \<mapsto> ''v''], [])"
    unfolding c0_def using conc_more by fastforce
  from single_key_commands_linearize [OF this] show ?thesis by blast
qed

end
