(* ===== verification/Races.thy ===== *)
theory Races
  imports Linearizability
begin

text \<open>
  The commands that are not atomic.  Every run of the server that executes commands in one step
  explains its calls and answers by one sequence of the commands (\<open>atomic_run_serial\<close>); for SETNX,
  GETSET, DEL, RENAME, RENAMENX and EXISTS of two keys there is a schedule of two clients whose answers
  and data no sequence explains.  With \<open>Linearizability.single_key_commands_linearize\<close> this
  settles which commands on keys look atomic.
\<close>

section \<open>A sequence behind every atomic run\<close>

fun client_of :: "client_call \<Rightarrow> nat" where
  "client_of (Invoke i line) = i"
| "client_of (Respond i r) = i"

definition calls_of :: "nat \<Rightarrow> client_call list \<Rightarrow> client_call list" where
  "calls_of i tr = filter (\<lambda>ev. client_of ev = i) tr"

text \<open>A sequence of executed commands, with who sent them and what was answered.\<close>

type_synonym executed = "nat \<times> CmdLine \<times> reply"

fun serial :: "(nat \<Rightarrow> nat) \<Rightarrow> store \<Rightarrow> executed list \<Rightarrow> store \<Rightarrow> bool" where
  "serial u s [] s' \<longleftrightarrow> s' = s"
| "serial u s ((i, line, r) # h) s' \<longleftrightarrow> (\<exists>s1. spec_of u line s r s1 \<and> serial u s1 h s')"

definition seen_by :: "nat \<Rightarrow> executed list \<Rightarrow> client_call list" where
  "seen_by i h = concat (map (\<lambda>(j, line, r). if j = i then [Invoke i line, Respond i r] else []) h)"

lemma serial_snoc:
  "serial u s (h @ [(i, line, r)]) s' \<longleftrightarrow> (\<exists>s1. serial u s h s1 \<and> spec_of u line s1 r s')"
  by (induction h arbitrary: s) (auto, blast+)

lemma calls_of_append [simp]: "calls_of i (tr @ tr') = calls_of i tr @ calls_of i tr'"
  by (simp add: calls_of_def)

lemma seen_by_simps [simp]:
  "seen_by i [] = []"
  "seen_by i ((j, line, r) # h) = (if j = i then [Invoke i line, Respond i r] else []) @ seen_by i h"
  by (simp_all add: seen_by_def)

lemma seen_by_even: "even (length (seen_by i h))"
  by (induction h) auto

lemma seen_by_member: "(i, line, r) \<in> set h \<Longrightarrow> seen_by i h \<noteq> []"
  by (induction h) auto

lemma seen_by_snoc [simp]:
  "seen_by i (h @ [(j, line, r)]) = seen_by i h @ (if j = i then [Invoke i line, Respond i r] else [])"
  by (simp add: seen_by_def)

text \<open>What a client has seen so far, by where it is.\<close>

fun up_to :: "nat \<Rightarrow> atomic_client \<Rightarrow> client_call list \<Rightarrow> executed list \<Rightarrow> bool" where
  "up_to i Idle tr h = (calls_of i tr = seen_by i h)"
| "up_to i (Invoked line) tr h = (calls_of i tr = seen_by i h @ [Invoke i line])"
| "up_to i (Answered r) tr h = (calls_of i tr @ [Respond i r] = seen_by i h)"

lemma up_to_other:
  "up_to i c tr h \<Longrightarrow> calls_of i ev = [] \<Longrightarrow> up_to i c (tr @ ev) h"
  by (cases c) simp_all

lemma atomic_run_history:
  "atomic_run u a tr b \<Longrightarrow> fst a = (\<lambda>i. Idle) \<Longrightarrow>
   \<exists>h. serial u (snd a) h (snd b) \<and> (\<forall>i. up_to i (fst b i) tr h)"
proof (induction rule: atomic_run.induct)
  case (atomic_refl a)
  then show ?case by (intro exI [of _ "[]"]) (simp add: calls_of_def seen_by_def)
next
  case (atomic_more a tr b ev c)
  then obtain h where h: "serial u (snd a) h (snd b)" "\<And>i. up_to i (fst b i) tr h" by blast
  from atomic_more(2) show ?case
  proof cases
    case (atomic_invoke st i s line)
    then have "up_to j (fst c j) (tr @ ev) h" for j
      using h(2) [of j] by (cases "j = i") (auto intro: up_to_other simp: calls_of_def)
    moreover have "serial u (snd a) h (snd c)" using h(1) atomic_invoke by simp
    ultimately show ?thesis by blast
  next
    case (atomic_effect st i line s r s')
    have "up_to j (fst c j) (tr @ ev) (h @ [(i, line, r)])" for j
      using h(2) [of j] atomic_effect by (cases "j = i"; cases "st j") auto
    moreover have "serial u (snd a) (h @ [(i, line, r)]) (snd c)"
      unfolding serial_snoc using h(1) atomic_effect by (auto simp: spec_of_def)
    ultimately show ?thesis by blast
  next
    case (atomic_respond st i r s)
    then have "up_to j (fst c j) (tr @ ev) h" for j
      using h(2) [of j] by (cases "j = i") (auto intro: up_to_other simp: calls_of_def)
    moreover have "serial u (snd a) h (snd c)" using h(1) atomic_respond by simp
    ultimately show ?thesis by blast
  qed
qed

text \<open>Once every call is answered, each client has seen its own commands of the sequence, in order.\<close>

lemma atomic_run_serial:
  assumes "atomic_run u (\<lambda>i. Idle, s) tr (st, s')" and "\<forall>i. even (length (calls_of i tr))"
  shows "\<exists>h. serial u s h s' \<and> (\<forall>i. calls_of i tr = seen_by i h)"
proof -
  from atomic_run_history [OF assms(1)] obtain h where h: "serial u s h s'" "\<And>i. up_to i (st i) tr h" by auto
  have "calls_of i tr = seen_by i h" for i
  proof (cases "st i")
    case Idle
    with h(2) [of i] show ?thesis by simp
  next
    case (Invoked line)
    with h(2) [of i] have "length (calls_of i tr) = Suc (length (seen_by i h))" by simp
    with assms(2) seen_by_even [of i h] show ?thesis by (metis even_Suc)
  next
    case (Answered r)
    with h(2) [of i] have "Suc (length (calls_of i tr)) = length (seen_by i h)" by (metis length_append_singleton up_to.simps(3))
    with assms(2) seen_by_even [of i h] show ?thesis by (metis even_Suc)
  qed
  with h(1) show ?thesis by blast
qed

section \<open>Two clients\<close>

definition two_calls :: "CmdLine \<Rightarrow> CmdLine \<Rightarrow> reply \<Rightarrow> reply \<Rightarrow> client_call list" where
  "two_calls a b ra rb = [Invoke 0 a, Invoke 1 b, Respond 0 ra, Respond 1 rb]"

text \<open>Two commands at the same time are executed one after the other.\<close>

lemma two_calls_serial:
  assumes "atomic_run u (\<lambda>i. Idle, s) (two_calls a b ra rb) (st, s')"
  shows "(\<exists>s1. spec_of u a s ra s1 \<and> spec_of u b s1 rb s') \<or> (\<exists>s1. spec_of u b s rb s1 \<and> spec_of u a s1 ra s')"
proof -
  have "\<forall>i. even (length (calls_of i (two_calls a b ra rb)))" by (auto simp: two_calls_def calls_of_def)
  from atomic_run_serial [OF assms this] obtain h where h: "serial u s h s'"
    and seen: "\<And>i. calls_of i (two_calls a b ra rb) = seen_by i h" by blast
  have s0: "seen_by 0 h = [Invoke 0 a, Respond 0 ra]" and s1: "seen_by 1 h = [Invoke 1 b, Respond 1 rb]"
    using seen [of 0] seen [of 1] by (simp_all add: two_calls_def calls_of_def)
  have "seen_by i h = []" if "i \<noteq> 0" "i \<noteq> 1" for i
    using seen [of i] that by (simp add: two_calls_def calls_of_def)
  then have clients: "fst e \<in> {0, 1}" if "e \<in> set h" for e
    using that seen_by_member [of "fst e" "fst (snd e)" "snd (snd e)" h] by (cases "fst e \<in> {0, 1}") auto
  consider "h = []" | e where "h = [e]" | e e' where "h = [e, e']" | e e' e'' h' where "h = e # e' # e'' # h'"
    by (metis list.exhaust)
  then have "h = [(0, a, ra), (1, b, rb)] \<or> h = [(1, b, rb), (0, a, ra)]"
  proof cases
    case (2 e)
    with s0 s1 show ?thesis by (cases e) (auto split: if_splits)
  next
    case (3 e e')
    with s0 s1 show ?thesis by (cases e; cases e') (auto split: if_splits)
  next
    case (4 e e' e'' h')
    with s0 s1 clients [of e] clients [of e'] clients [of e''] show ?thesis
      by (cases e; cases e'; cases e'') (auto split: if_splits)
  qed (use s0 in simp)
  with h show ?thesis by auto
qed

text \<open>
  Two clients can get answers, and leave data behind, that a server which executes commands in one
  step does not give them.
\<close>

definition races :: "(nat \<Rightarrow> nat) \<Rightarrow> store \<Rightarrow> CmdLine \<Rightarrow> CmdLine \<Rightarrow> bool" where
  "races u s a b \<longleftrightarrow> (\<exists>ra rb s' l.
     conc_run u (\<lambda>line. line \<in> {a, b}) (\<lambda>i. Ready, s, []) (two_calls a b ra rb) (\<lambda>i. Ready, s', l) \<and>
     \<not> (\<exists>st. atomic_run u (\<lambda>i. Idle, s) (two_calls a b ra rb) (st, s')))"

text \<open>A schedule as a run of the concurrent server.\<close>

lemma run_procs_conc:
  "run_procs sched [p, q] (s, l) = ([p', q'], s', l') \<Longrightarrow> cl 0 = Running p \<Longrightarrow> cl 1 = Running q \<Longrightarrow>
   conc_run u P (cl, s, l) [] (cl(0 := Running p', 1 := Running q'), s', l')"
proof (induction sched arbitrary: p q s l cl)
  case Nil
  then have "p' = p" "q' = q" "s' = s" "l' = l" by simp_all
  moreover have "cl(0 := Running p, 1 := Running q) = cl" using Nil by auto
  ultimately show ?case by (simp only: conc_refl)
next
  case (Cons i sched)
  show ?case
  proof (cases "if i < 2 then proc_step ([p, q] ! i) (s, l) else None")
    case None
    with Cons show ?thesis by (auto split: if_splits)
  next
    case (Some x)
    then obtain r s1 l1 where x: "x = (r, s1, l1)" and i: "i < 2" and r: "proc_step ([p, q] ! i) (s, l) = Some (r, s1, l1)"
      by (cases x) (auto split: if_splits)
    let ?cl = "cl(i := Running r)" and ?ps = "[p, q][i := r]"
    have "cl i = Running ([p, q] ! i)" using Cons.prems(2,3) i by (auto simp: less_2_cases_iff)
    then have step: "conc_step u P (cl, s, l) [] (?cl, s1, l1)" using r by (rule conc_operate)
    have "run_procs sched ?ps (s1, l1) = ([p', q'], s', l')" using Cons.prems(1) i r by simp
    moreover have "?ps = [if i = 0 then r else p, if i = 0 then q else r]" using i by (auto simp: less_2_cases_iff)
    ultimately have rest: "conc_run u P (?cl, s1, l1) [] (?cl(0 := Running p', 1 := Running q'), s', l')"
      using Cons.prems(2,3) i by (intro Cons.IH) (auto simp: less_2_cases_iff)
    have "?cl(0 := Running p', 1 := Running q') = cl(0 := Running p', 1 := Running q')"
      using i by (auto simp: less_2_cases_iff)
    with conc_run_first [OF step rest] show ?thesis by (simp only: append_Nil)
  qed
qed

lemma racesI:
  assumes "run_procs sched [line_proc u a, line_proc u b] (s, []) = ([DoneP [ra], DoneP [rb]], s', l)"
    and "\<And>s1. \<not> (spec_of u a s ra s1 \<and> spec_of u b s1 rb s')"
    and "\<And>s1. \<not> (spec_of u b s rb s1 \<and> spec_of u a s1 ra s')"
  shows "races u s a b"
proof -
  let ?P = "\<lambda>line. line \<in> {a, b}"
  define c0 where "c0 = (\<lambda>i :: nat. Ready)"
  define c1 where "c1 = c0(0 := Running (line_proc u a))"
  define c2 where "c2 = c1(1 := Running (line_proc u b))"
  define c3 where "c3 = c2(0 := Running (DoneP [ra]), 1 := Running (DoneP [rb]))"
  have "conc_step u ?P (c0, s, []) [Invoke 0 a] (c1, s, [])"
    unfolding c1_def by (rule conc_invoke) (simp_all add: c0_def)
  from conc_more [OF conc_refl this] have 1: "conc_run u ?P (c0, s, []) [Invoke 0 a] (c1, s, [])" by simp
  have "conc_step u ?P (c1, s, []) [Invoke 1 b] (c2, s, [])"
    unfolding c2_def by (rule conc_invoke) (simp_all add: c1_def c0_def)
  note 2 = conc_more [OF 1 this]
  have "conc_run u ?P (c2, s, []) [] (c3, s', l)"
    unfolding c3_def by (rule run_procs_conc [OF assms(1)]) (simp_all add: c2_def c1_def)
  note 3 = conc_run_append [OF this 2]
  have "conc_step u ?P (c3, s', l) [Respond 0 ra] (c3(0 := Ready), s', l)"
    by (rule conc_respond) (simp add: c3_def)
  note 4 = conc_more [OF 3 this]
  have "conc_step u ?P (c3(0 := Ready), s', l) [Respond 1 rb] (c3(0 := Ready, 1 := Ready), s', l)"
    by (rule conc_respond) (simp add: c3_def)
  note 5 = conc_more [OF 4 this]
  have "c3(0 := Ready, 1 := Ready) = (\<lambda>i. Ready)" by (auto simp: c3_def c2_def c1_def c0_def)
  with 5 have "conc_run u ?P (\<lambda>i. Ready, s, []) (two_calls a b ra rb) (\<lambda>i. Ready, s', l)"
    by (simp add: c0_def two_calls_def)
  moreover have "\<not> (\<exists>st. atomic_run u (\<lambda>i. Idle, s) (two_calls a b ra rb) (st, s'))"
    using two_calls_serial [of u s a b ra rb _ s'] assms(2,3) by blast
  ultimately show ?thesis unfolding races_def by blast
qed

section \<open>The schedules\<close>

lemmas spec_simps = spec_of_def known_commands_def arity_ok_names fun_eq_iff

text \<open>The value of SET is overwritten by the second store of \<^verbatim>\<open>PutIfAbsent\<close>.\<close>

lemma setnx_races:
  assumes "s k = None" and "v \<noteq> w"
  shows "races u s [''setnx'', k, v] [''set'', k, w]"
proof (rule racesI)
  show "run_procs [0, 1, 1, 0, 1, 0] [line_proc u [''setnx'', k, v], line_proc u [''set'', k, w]] (s, []) =
      ([DoneP [IntReply 1], DoneP [OkReply]], s(k \<mapsto> v), [[''set'', k, w], [''setnx'', k, v]])"
    using assms by (simp add: line_proc_def body_simps)
qed (use assms in \<open>auto simp: spec_simps elim!: redis_stepE split: if_splits\<close>)

text \<open>Both load before either stores.\<close>

lemma getset_races:
  assumes "s j = Some x" and "v \<noteq> x" and "w \<noteq> x"
  shows "races u s [''getset'', j, v] [''getset'', j, w]"
proof (rule racesI)
  show "run_procs [0, 1, 0, 0, 0, 1, 1, 1] [line_proc u [''getset'', j, v], line_proc u [''getset'', j, w]] (s, []) =
      ([DoneP [BulkReply x], DoneP [BulkReply x]], s(j \<mapsto> w), [[''getset'', j, v], [''getset'', j, w]])"
    using assms by (simp add: line_proc_def body_simps)
qed (use assms in \<open>auto simp: spec_simps elim!: redis_stepE split: if_splits\<close>)

text \<open>Both find the key before either deletes it.\<close>

lemma del_races:
  assumes "s j = Some x"
  shows "races u s [''del'', j] [''del'', j]"
proof (rule racesI)
  show "run_procs [0, 1, 0, 0, 1, 1] [line_proc u [''del'', j], line_proc u [''del'', j]] (s, []) =
      ([DoneP [IntReply 1], DoneP [IntReply 1]], s(j := None), [[''del'', j], [''del'', j]])"
    using assms by (simp add: line_proc_def body_simps)
qed (use assms in \<open>auto simp: spec_simps elim!: redis_stepE split: if_splits\<close>)

text \<open>The value is stored under the old name after it has been copied and before it is deleted.\<close>

lemma rename_races:
  assumes "s j = Some x" and "j \<noteq> k" and "w \<noteq> x"
  shows "races u s [''rename'', j, k] [''set'', j, w]"
proof (rule racesI)
  show "run_procs [0, 0, 0, 1, 1, 1, 0, 0, 0] [line_proc u [''rename'', j, k], line_proc u [''set'', j, w]] (s, []) =
      ([DoneP [OkReply], DoneP [OkReply]], (s(k \<mapsto> x))(j := None), [[''set'', j, w], [''rename'', j, k]])"
    using assms by (simp add: line_proc_def body_simps)
qed (use assms in \<open>auto simp: spec_simps elim!: redis_stepE split: if_splits\<close>)

lemma renamenx_races:
  assumes "s k = None" and "s j = Some x" and "j \<noteq> k" and "w \<noteq> x"
  shows "races u s [''renamenx'', j, k] [''set'', j, w]"
proof (rule racesI)
  show "run_procs [0, 0, 0, 0, 1, 1, 1, 0, 0, 0] [line_proc u [''renamenx'', j, k], line_proc u [''set'', j, w]] (s, []) =
      ([DoneP [IntReply 1], DoneP [OkReply]], (s(k \<mapsto> x))(j := None), [[''set'', j, w], [''renamenx'', j, k]])"
    using assms by (simp add: line_proc_def body_simps)
qed (use assms in \<open>auto simp: spec_simps elim!: redis_stepE split: if_splits\<close>)

text \<open>The key appears between the two loads.\<close>

lemma exists_races:
  assumes "s k = None"
  shows "races u s [''exists'', k, k] [''set'', k, v]"
proof (rule racesI)
  show "run_procs [0, 1, 1, 1, 0] [line_proc u [''exists'', k, k], line_proc u [''set'', k, v]] (s, []) =
      ([DoneP [IntReply 1], DoneP [OkReply]], s(k \<mapsto> v), [[''set'', k, v]])"
    using assms by (simp add: line_proc_def body_simps)
qed (use assms in \<open>auto simp: spec_simps elim!: redis_stepE split: if_splits\<close>)

section \<open>Properties\<close>

text \<open>
  C5 (compound_commands_race). SETNX, GETSET, DEL, RENAME, RENAMENX and EXISTS of more than one key are not atomic: on any
  store that has a key and lacks another, each races with one command of a second client, and the
  answers and the data are those of no order of the two.  SETNX overwrites an acknowledged SET; two
  GETSETs answer the same old value; two DELs both count the key; RENAME and RENAMENX delete a value
  that was stored meanwhile; EXISTS counts one of two occurrences of a key.
\<close>

theorem compound_commands_race:
  assumes "s k = None" and "s j = Some x" and "v \<noteq> w" and "v \<noteq> x" and "w \<noteq> x"
  shows "races u s [''setnx'', k, v] [''set'', k, w] \<and> races u s [''getset'', j, v] [''getset'', j, w] \<and>
    races u s [''del'', j] [''del'', j] \<and> races u s [''rename'', j, k] [''set'', j, w] \<and>
    races u s [''renamenx'', j, k] [''set'', j, w] \<and> races u s [''exists'', k, k] [''set'', k, v]"
proof -
  have "j \<noteq> k" using assms(1,2) by auto
  with assms show ?thesis
    by (simp add: setnx_races getset_races del_races rename_races renamenx_races exists_races)
qed

theorem compound_commands_race_witness:
  "races id [''j'' \<mapsto> ''x''] [''del'', ''j''] [''del'', ''j''] \<and>
   races id [''j'' \<mapsto> ''x''] [''rename'', ''j'', ''k''] [''set'', ''j'', ''w'']"
  using compound_commands_race [of "[''j'' \<mapsto> ''x'']" "''k''" "''j''" "''x''" "''v''" "''w''" id] by simp

text \<open>
  The other direction: a run of commands on one key is explained by one sequence of its commands
  in which every client finds its own calls and answers.
\<close>

theorem single_key_commands_serialize:
  assumes "conc_run u (single_key_line u) (\<lambda>i. Ready, s, l) tr (\<lambda>i. Ready, s', l')"
  shows "\<exists>h. serial u s h s' \<and> (\<forall>i. calls_of i tr = seen_by i h)"
proof -
  have "conc_run u (atomic_line u) (\<lambda>i. Ready, s, l) tr (\<lambda>i. Ready, s', l')"
    using assms by (rule conc_run_mono [rotated]) (rule single_key_atomic)
  moreover have "matches_state u (\<lambda>i. Ready, s, l) (\<lambda>i. Idle, s)" by (simp add: matches_state_def)
  ultimately obtain st where a: "atomic_run u (\<lambda>i. Idle, s) tr (st, s')" "\<forall>i. matches_client u Ready (st i)"
    using conc_run_simulates by (fastforce simp: matches_state_def)
  then have "\<forall>i. st i = Idle" using matches_ReadyD by blast
  with atomic_run_history [OF a(1)] show ?thesis by auto
qed

end
