(* ===== verification/Pipeline.thy ===== *)
theory Pipeline
  imports Handler
begin

text \<open>
  The two goroutines behind a connection: the parser (\<^verbatim>\<open>parse0\<close>), which reads the socket and sends
  payloads on a channel without a buffer, and the handler (\<^verbatim>\<open>RespHandler.Handler\<close>), which receives
  and executes them.  \<open>Parser\<close> and \<open>Handler\<close> say what each does alone, with the channel as the list
  of the payloads; here they run at the same time.  The properties are that every interleaving has the
  outcome of \<open>serve_stream\<close>, that all of them end, and what becomes of the parser's goroutine: it
  waits on the channel for ever unless the handler takes every payload.
\<close>

section \<open>Steps\<close>

text \<open>
  The parser reads, or waits to send a payload, after which it goes on with a reader and a state or,
  after the last one, closes the channel.  A panic is recovered and leaves the channel open.
\<close>

datatype parser_state =
    Reading reader readState
  | Sending payload "(reader \<times> readState) option"
  | ParserClosed
  | ParserPanicked panic

datatype 'db handler_state =
    Receiving 'db Connection
  | Handling payload 'db Connection
  | Returned conn_end 'db Connection

text \<open>
  The socket is closed: what is in the buffer of the parser's reader, \<open>n\<close> bytes, is still read, and
  then comes the error.
\<close>

definition closed_reader :: "nat \<Rightarrow> reader \<Rightarrow> reader" where
  "closed_reader n rd = \<lparr>unread = take n (unread rd), read_err = NetError ''use of closed network connection''\<rparr>"

fun close_socket :: "nat \<Rightarrow> parser_state \<Rightarrow> parser_state" where
  "close_socket n (Reading rd st) = Reading (closed_reader n rd) st"
| "close_socket n (Sending p (Some (rd, st))) = Sending p (Some (closed_reader n rd, st))"
| "close_socket n q = q"

text \<open>One iteration of \<^verbatim>\<open>parse0\<close> up to its send, and what it does after the send.\<close>

definition parser_iteration :: "reader \<Rightarrow> readState \<Rightarrow> parser_state" where
  "parser_iteration rd st =
     (case parse_iter rd st of
        Inl e \<Rightarrow> ParserPanicked e
      | Inr (Last p) \<Rightarrow> Sending p None
      | Inr (Next None rd' st') \<Rightarrow> Reading rd' st'
      | Inr (Next (Some p) rd' st') \<Rightarrow> Sending p (Some (rd', st')))"

fun after_send :: "(reader \<times> readState) option \<Rightarrow> parser_state" where
  "after_send None = ParserClosed"
| "after_send (Some (rd, st)) = Reading rd st"

text \<open>The third component has the payloads the handler has received.\<close>

type_synonym 'db pipe = "parser_state \<times> 'db handler_state \<times> payload list"

inductive pipe_step :: "'db db_exec \<Rightarrow> write_fault \<Rightarrow> 'db pipe \<Rightarrow> 'db pipe \<Rightarrow> bool" for exec net where
  parses: "pipe_step exec net (Reading rd st, h, ps) (parser_iteration rd st, h, ps)"
| hands_over: "pipe_step exec net (Sending p nxt, Receiving db c, ps) (after_send nxt, Handling p db c, ps @ [p])"
| goes_on: "handle_payload exec net p db c = GoOn db' c' \<Longrightarrow>
    pipe_step exec net (q, Handling p db c, ps) (q, Receiving db' c', ps)"
| returns: "handle_payload exec net p db c = Stop e db' c' \<Longrightarrow>
    pipe_step exec net (q, Handling p db c, ps)
      (if e \<in> {ClientClosed, WriteFailed} then close_socket n q else q, Returned e db' c', ps)"
| channel_closed: "pipe_step exec net (ParserClosed, Receiving db c, ps) (ParserClosed, Returned ChannelClosed db c, ps)"

inductive_cases pipe_stepE: "pipe_step exec net s s'"

definition pipe_runs :: "'db db_exec \<Rightarrow> write_fault \<Rightarrow> 'db pipe \<Rightarrow> 'db pipe \<Rightarrow> bool" where
  "pipe_runs exec net = (pipe_step exec net)\<^sup>*\<^sup>*"

definition pipe_starts :: "reader \<Rightarrow> 'db \<Rightarrow> Connection \<Rightarrow> 'db pipe" where
  "pipe_starts rd db c = (Reading rd init_state, Receiving db c, [])"

definition at_rest :: "'db db_exec \<Rightarrow> write_fault \<Rightarrow> 'db pipe \<Rightarrow> bool" where
  "at_rest exec net s \<longleftrightarrow> (\<forall>s'. \<not> pipe_step exec net s s')"

section \<open>What is still to come\<close>

fun to_come :: "parser_state \<Rightarrow> payload list \<times> parse_end" where
  "to_come (Reading rd st) = parse_loop rd st"
| "to_come (Sending p None) = ([p], Closed)"
| "to_come (Sending p (Some (rd, st))) = send (Some p) (parse_loop rd st)"
| "to_come ParserClosed = ([], Closed)"
| "to_come (ParserPanicked e) = ([], Abandoned e)"

fun outcome :: "'db db_exec \<Rightarrow> write_fault \<Rightarrow> 'db pipe \<Rightarrow> conn_end \<times> 'db \<times> Connection" where
  "outcome exec net (q, Receiving db c, ps) = handle_payloads exec net (fst (to_come q)) (snd (to_come q)) db c"
| "outcome exec net (q, Handling p db c, ps) = handle_payloads exec net (p # fst (to_come q)) (snd (to_come q)) db c"
| "outcome exec net (q, Returned e db c, ps) = (e, db, c)"

lemma to_come_iteration [simp]: "to_come (parser_iteration rd st) = parse_loop rd st"
  by (subst parse_loop.simps) (simp add: parser_iteration_def split: sum.split iteration.split option.split)

lemma to_come_sent: "to_come (Sending p nxt) = (p # fst (to_come (after_send nxt)), snd (to_come (after_send nxt)))"
  by (cases nxt) auto

text \<open>No step changes the outcome.\<close>

lemma pipe_step_outcome: "pipe_step exec net s s' \<Longrightarrow> outcome exec net s' = outcome exec net s"
proof (induction rule: pipe_step.induct)
  case (parses rd st h ps)
  then show ?case by (cases h) simp_all
next
  case (hands_over p nxt db c ps)
  then show ?case by (simp add: to_come_sent del: handle_payloads.simps to_come.simps)
qed auto

lemma pipe_runs_outcome: "pipe_runs exec net s s' \<Longrightarrow> outcome exec net s' = outcome exec net s"
  unfolding pipe_runs_def by (induction rule: rtranclp_induct) (auto dest: pipe_step_outcome)

section \<open>Every run ends\<close>

definition reader_size :: "reader \<Rightarrow> readState \<Rightarrow> nat" where
  "reader_size rd st = 2 * length (unread rd) + (if bulkLen st = 0 then 0 else 1)"

fun parser_size :: "parser_state \<Rightarrow> nat" where
  "parser_size (Reading rd st) = 3 * reader_size rd st + 3"
| "parser_size (Sending p None) = 2"
| "parser_size (Sending p (Some (rd, st))) = 3 * reader_size rd st + 5"
| "parser_size ParserClosed = 0"
| "parser_size (ParserPanicked e) = 0"

fun handler_size :: "'db handler_state \<Rightarrow> nat" where
  "handler_size (Handling p db c) = 2"
| "handler_size (Receiving db c) = 1"
| "handler_size (Returned e db c) = 0"

fun pipe_size :: "'db pipe \<Rightarrow> nat" where
  "pipe_size (q, h, ps) = parser_size q + handler_size h"

lemma parser_iteration_size: "parser_size (parser_iteration rd st) < parser_size (Reading rd st)"
proof (cases "parse_iter rd st")
  case (Inr it)
  show ?thesis
  proof (cases it)
    case (Next p rd' st')
    with Inr parse_iter_progress [of rd st p rd' st'] show ?thesis
      by (cases p) (auto simp: parser_iteration_def reader_size_def)
  qed (use Inr in \<open>simp add: parser_iteration_def\<close>)
qed (simp add: parser_iteration_def)

lemma close_socket_size: "parser_size (close_socket n q) \<le> parser_size q"
  by (cases "(n, q)" rule: close_socket.cases) (auto simp: reader_size_def closed_reader_def)

lemma pipe_step_size: "pipe_step exec net s s' \<Longrightarrow> pipe_size s' < pipe_size s"
proof (induction rule: pipe_step.induct)
  case (parses rd st h ps)
  then show ?case using parser_iteration_size [of rd st] by simp
next
  case (hands_over p nxt db c ps)
  then show ?case by (cases nxt) auto
next
  case (returns p db c e db' c' q ps n)
  then show ?case using close_socket_size [of n q] by simp
qed simp_all

lemma comes_to_rest: "\<exists>s'. pipe_runs exec net s s' \<and> at_rest exec net s'"
proof (induction "pipe_size s" arbitrary: s rule: less_induct)
  case less
  show ?case
  proof (cases "at_rest exec net s")
    case True
    then show ?thesis unfolding pipe_runs_def by blast
  next
    case False
    then obtain s1 where s1: "pipe_step exec net s s1" by (auto simp: at_rest_def)
    from less [OF pipe_step_size [OF s1]] obtain s' where "pipe_runs exec net s1 s'" "at_rest exec net s'" by blast
    with s1 show ?thesis unfolding pipe_runs_def by (meson converse_rtranclp_into_rtranclp)
  qed
qed

text \<open>Where both goroutines are when nothing moves any more.\<close>

lemma at_rest_cases:
  assumes "at_rest exec net (q, h, ps)"
  obtains (stuck) p db c where "q = ParserPanicked p" "h = Receiving db c"
  | (done_) e db c where "h = Returned e db c" "\<nexists>rd st. q = Reading rd st"
proof -
  have no: "\<And>rd st. q \<noteq> Reading rd st"
    using assms parses unfolding at_rest_def by fast
  show thesis
  proof (cases h)
    case (Receiving db c)
    have "\<And>p nxt. q \<noteq> Sending p nxt" "q \<noteq> ParserClosed"
      using assms hands_over channel_closed Receiving unfolding at_rest_def by fast+
    with no Receiving stuck show thesis by (cases q) auto
  next
    case (Handling p db c)
    then show thesis
      using assms goes_on returns unfolding at_rest_def by (cases "handle_payload exec net p db c") fast+
  next
    case (Returned e db c)
    with no done_ show thesis by blast
  qed
qed

section \<open>What the handler has received\<close>

lemma parse_loop_not_silent: "parse_loop rd st \<noteq> ([], Closed)"
proof (induction rd st rule: parse_loop.induct)
  case (1 rd st)
  show ?case
  proof (cases "parse_iter rd st")
    case (Inl p)
    then show ?thesis by (simp add: parse_loop_panic)
  next
    case (Inr it)
    show ?thesis
    proof (cases it)
      case (Last x)
      with Inr show ?thesis by (simp add: parse_loop_Last)
    next
      case (Next p rd' st')
      with 1 [OF Inr Next] Inr show ?thesis by (cases p) (auto simp: parse_loop_Next send_def prod_eq_iff)
    qed
  qed
qed

lemma to_come_nothing: "to_come q = ([], Closed) \<longleftrightarrow> q = ParserClosed"
  by (cases q rule: to_come.cases) (simp_all add: parse_loop_not_silent send_def)

text \<open>
  While the handler runs, it has received the payloads that are not to come; once it has returned the
  channel is closed exactly if it had received all of them.
\<close>

fun received_inv :: "reader \<Rightarrow> 'db pipe \<Rightarrow> bool" where
  "received_inv rd (q, Returned e db c, ps) = (q = ParserClosed \<longleftrightarrow> ParseStream rd = (ps, Closed))"
| "received_inv rd (q, h, ps) = (ParseStream rd = (ps @ fst (to_come q), snd (to_come q)))"

lemma pipe_step_received:
  assumes "pipe_step exec net s s'" and "received_inv rd s"
  shows "received_inv rd s'"
  using assms
proof (induction rule: pipe_step.induct)
  case (parses rd1 st h ps)
  have "parser_iteration rd1 st \<noteq> ParserClosed"
    by (simp add: parser_iteration_def split: sum.split iteration.split option.split)
  with parses show ?case by (cases h) simp_all
next
  case (hands_over p nxt db c ps)
  then show ?case by (simp add: to_come_sent del: to_come.simps)
next
  case (returns p db c e db' c' q ps n)
  have "close_socket n q = ParserClosed \<longleftrightarrow> q = ParserClosed" by (cases "(n, q)" rule: close_socket.cases) auto
  moreover have "q = ParserClosed \<longleftrightarrow> ParseStream rd = (ps, Closed)"
    using returns(2) to_come_nothing [of q] by (cases "to_come q") auto
  ultimately show ?case by auto
next
  case (channel_closed db c ps)
  then show ?case by simp
qed simp

lemma pipe_runs_received:
  "pipe_runs exec net s s' \<Longrightarrow> received_inv rd s \<Longrightarrow> received_inv rd s'"
  unfolding pipe_runs_def by (induction rule: rtranclp_induct) (auto intro: pipe_step_received)

text \<open>The payloads up to the one the handler stops at.\<close>

fun taken :: "'db db_exec \<Rightarrow> write_fault \<Rightarrow> payload list \<Rightarrow> 'db \<Rightarrow> Connection \<Rightarrow> payload list" where
  "taken exec net [] db c = []"
| "taken exec net (p # ps) db c =
     p # (case handle_payload exec net p db c of GoOn db c \<Rightarrow> taken exec net ps db c | Stop e db c \<Rightarrow> [])"

fun will_take :: "'db db_exec \<Rightarrow> write_fault \<Rightarrow> 'db pipe \<Rightarrow> payload list" where
  "will_take exec net (q, Receiving db c, ps) = ps @ taken exec net (fst (to_come q)) db c"
| "will_take exec net (q, Handling p db c, ps) = butlast ps @ taken exec net (p # fst (to_come q)) db c"
| "will_take exec net (q, Returned e db c, ps) = ps"

text \<open>The payload that is being handled is the last one received.\<close>

fun handling_last :: "'db pipe \<Rightarrow> bool" where
  "handling_last (q, Handling p db c, ps) = (ps \<noteq> [] \<and> last ps = p)"
| "handling_last _ = True"

lemma pipe_step_takes:
  assumes "pipe_step exec net s s'" and "handling_last s"
  shows "handling_last s' \<and> will_take exec net s' = will_take exec net s"
  using assms
proof (induction rule: pipe_step.induct)
  case (parses rd st h ps)
  then show ?case by (cases h) simp_all
next
  case (hands_over p nxt db c ps)
  then show ?case by (simp add: to_come_sent del: to_come.simps)
next
  case (goes_on p db c db' c' q ps)
  then have "butlast ps @ [p] = ps" by (metis append_butlast_last_id handling_last.simps(1))
  with goes_on show ?case by (metis (no_types, lifting) append.assoc append_Cons append_Nil handling_last.simps(2)
        served.case(1) taken.simps(2) will_take.simps(1) will_take.simps(2))
next
  case (returns p db c e db' c' q ps n)
  then have "butlast ps @ [p] = ps" by (metis append_butlast_last_id handling_last.simps(1))
  with returns show ?case by simp
qed simp

lemma pipe_runs_takes:
  "pipe_runs exec net s s' \<Longrightarrow> handling_last s \<Longrightarrow> handling_last s' \<and> will_take exec net s' = will_take exec net s"
  unfolding pipe_runs_def by (induction rule: rtranclp_induct) (use pipe_step_takes in \<open>force+\<close>)

lemma starts_received: "received_inv rd (pipe_starts rd db c)"
  by (simp add: pipe_starts_def ParseStream_def parse0_def)

lemma starts_outcome: "outcome exec net (pipe_starts rd db c) = serve_stream exec net rd db c"
  by (simp add: pipe_starts_def serve_stream_def ParseStream_def parse0_def case_prod_unfold)

lemma pipe_steps_bounded: "(pipe_step exec net ^^ n) s s' \<Longrightarrow> n + pipe_size s' \<le> pipe_size s"
proof (induction n arbitrary: s')
  case (Suc n)
  then obtain s1 where "(pipe_step exec net ^^ n) s s1" "pipe_step exec net s1 s'" by auto
  with Suc.IH pipe_step_size show ?case by fastforce
qed simp

section \<open>A leak\<close>

text \<open>An error that quotes the client's line is taken for the error of a closed connection.\<close>

definition closed_text_line :: string where
  "closed_text_line = CHR ''*'' # closed_text"

definition closed_text_payload :: payload where
  "closed_text_payload = \<lparr>Data = None,
     Err = Some (ErrorString (''parseMutiBulkHeader ParseUint error:'' @ closed_text_line @ CRLF))\<rparr>"

lemma closed_text_iteration:
  "parse_iter \<lparr>unread = closed_text_line @ CRLF, read_err = e\<rparr> init_state =
     Inr (Next (Some closed_text_payload) \<lparr>unread = [], read_err = e\<rparr> init_state)"
proof -
  have "handle_line (closed_text_line @ CRLF) init_state = Inr (Some closed_text_payload, init_state)"
    by (simp add: handle_line_def closed_text_payload_def closed_text_line_def closed_text_def parseMutiBulkHeader_def
        init_state_def go_slice_def go_index_def ParseUint_def is_digit_def)
  moreover have "LF \<notin> set closed_text_line" by (simp add: closed_text_line_def closed_text_def)
  ultimately show ?thesis
    using parse_iter_line [of init_state closed_text_line "[]" e] by (simp add: init_state_def)
qed

text \<open>What is left at rest, from the start of a connection.\<close>

lemma rest_of_connection:
  assumes "pipe_runs exec net (pipe_starts rd db c) (q, h, ps)" and "at_rest exec net (q, h, ps)"
  shows "ps = taken exec net (fst (ParseStream rd)) db c" "q = ParserClosed \<longleftrightarrow> ParseStream rd = (ps, Closed)"
    "\<nexists>rd st. q = Reading rd st"
proof -
  have "will_take exec net (q, h, ps) = will_take exec net (pipe_starts rd db c)"
    using pipe_runs_takes [OF assms(1)] by (simp add: pipe_starts_def)
  then have take: "will_take exec net (q, h, ps) = taken exec net (fst (ParseStream rd)) db c"
    by (simp add: pipe_starts_def ParseStream_def parse0_def)
  note inv = pipe_runs_received [OF assms(1) starts_received]
  have "ps = taken exec net (fst (ParseStream rd)) db c \<and> (q = ParserClosed \<longleftrightarrow> ParseStream rd = (ps, Closed)) \<and>
      (\<nexists>rd st. q = Reading rd st)"
    using assms(2)
  proof (cases rule: at_rest_cases)
    case (stuck p d k)
    then have "ParseStream rd \<noteq> (ps, Closed)" using inv by simp
    with stuck take show ?thesis by simp
  next
    case (done_ e d k)
    with take inv show ?thesis by auto
  qed
  then show "ps = taken exec net (fst (ParseStream rd)) db c" "q = ParserClosed \<longleftrightarrow> ParseStream rd = (ps, Closed)"
    "\<nexists>rd st. q = Reading rd st" by blast+
qed

text \<open>After that line the parser reads nothing but the error of the connection.\<close>

fun at_the_end :: "parser_state \<Rightarrow> bool" where
  "at_the_end (Reading rd st) = (unread rd = [] \<and> st = init_state)"
| "at_the_end (Sending p nxt) = (nxt = None)"
| "at_the_end ParserClosed = True"
| "at_the_end (ParserPanicked p) = False"

lemma close_socket_end: "at_the_end q \<Longrightarrow> at_the_end (close_socket n q)"
  by (cases "(n, q)" rule: close_socket.cases) (auto simp: closed_reader_def)

lemma parser_iteration_end: "unread rd = [] \<Longrightarrow> at_the_end (parser_iteration rd init_state)"
  using parse_iter_end [of init_state "read_err rd"] by (cases rd) (simp add: parser_iteration_def init_state_def)

lemma closed_text_parser_iteration:
  "parser_iteration \<lparr>unread = closed_text_line @ CRLF, read_err = e\<rparr> init_state =
     Sending closed_text_payload (Some (\<lparr>unread = [], read_err = e\<rparr>, init_state))"
  by (simp add: parser_iteration_def closed_text_iteration)

lemma closed_text_runs:
  assumes "pipe_runs exec net (pipe_starts \<lparr>unread = closed_text_line @ CRLF, read_err = e\<rparr> db c) (q, h, ps)"
  shows "at_the_end q \<or> (\<exists>d k. h = Receiving d k) \<and>
    q \<in> {Reading \<lparr>unread = closed_text_line @ CRLF, read_err = e\<rparr> init_state,
          Sending closed_text_payload (Some (\<lparr>unread = [], read_err = e\<rparr>, init_state))}"
  using assms unfolding pipe_runs_def
proof (induction "(q, h, ps)" arbitrary: q h ps rule: rtranclp_induct)
  case base
  then show ?case by (auto simp: pipe_starts_def)
next
  case (step s)
  obtain q1 h1 ps1 where s: "s = (q1, h1, ps1)" by (cases s)
  from step(2) step(3) [OF s] show ?case unfolding s
    by cases (auto simp: parser_iteration_end closed_text_parser_iteration close_socket_end split: if_splits)
qed

section \<open>Properties\<close>

text \<open>
  C6 (pipeline_is_sequential). However the parser and the handler of a connection interleave, they come to rest, after a
  number of steps that the input bounds, and the database, what the client is sent and how the
  handler ends are those of parsing the whole input first and handling the payloads in order.  The
  handler is left waiting exactly when the parser has panicked.
\<close>

theorem pipeline_is_sequential:
  assumes "serve_stream exec net rd db c = (e, db', c')"
  shows "(\<forall>n s. (pipe_step exec net ^^ n) (pipe_starts rd db c) s \<longrightarrow> n \<le> pipe_size (pipe_starts rd db c)) \<and>
    (\<forall>s. pipe_runs exec net (pipe_starts rd db c) s \<longrightarrow> (\<exists>s'. pipe_runs exec net s s' \<and> at_rest exec net s')) \<and>
    (\<forall>q h ps. pipe_runs exec net (pipe_starts rd db c) (q, h, ps) \<and> at_rest exec net (q, h, ps) \<longrightarrow>
      h = Returned e db' c' \<or> e = Blocked \<and> h = Receiving db' c' \<and> (\<exists>p. q = ParserPanicked p))"
proof (intro conjI allI impI)
  fix n s
  assume "(pipe_step exec net ^^ n) (pipe_starts rd db c) s"
  from pipe_steps_bounded [OF this] show "n \<le> pipe_size (pipe_starts rd db c)" by simp
next
  fix s :: "'a pipe"
  show "\<exists>s'. pipe_runs exec net s s' \<and> at_rest exec net s'" by (rule comes_to_rest)
next
  fix q h ps
  assume r: "pipe_runs exec net (pipe_starts rd db c) (q, h, ps) \<and> at_rest exec net (q, h, ps)"
  then have out: "outcome exec net (q, h, ps) = (e, db', c')"
    using pipe_runs_outcome [of exec net "pipe_starts rd db c"] assms by (simp add: starts_outcome)
  from r have "at_rest exec net (q, h, ps)" by blast
  then show "h = Returned e db' c' \<or> e = Blocked \<and> h = Receiving db' c' \<and> (\<exists>p. q = ParserPanicked p)"
    by (cases rule: at_rest_cases) (use out in auto)
qed

theorem pipeline_is_sequential_witness:
  "\<exists>q h ps. pipe_runs (Exec (id, default_properties, \<lambda>n. None)) (\<lambda>n. None)
      (pipe_starts \<lparr>unread = [], read_err = EOF\<rparr> (empty_server 1) new_client) (q, h, ps) \<and>
    h = Returned ClientClosed (empty_server 1) new_client"
proof -
  let ?exec = "Exec (id, default_properties, \<lambda>n. None)" and ?rd = "\<lparr>unread = [], read_err = EOF\<rparr>"
  have "serve_stream ?exec (\<lambda>n. None) ?rd (empty_server 1) new_client = (ClientClosed, empty_server 1, new_client)"
    by (simp add: serve_stream_def ParseStream_def parse0_def handle_payload_def is_closed_err_def)
  note seq = pipeline_is_sequential [OF this]
  obtain q h ps where r: "pipe_runs ?exec (\<lambda>n. None) (pipe_starts ?rd (empty_server 1) new_client) (q, h, ps)"
    "at_rest ?exec (\<lambda>n. None) (q, h, ps)" using comes_to_rest by (metis prod_cases3)
  with seq have "h = Returned ClientClosed (empty_server 1) new_client" by blast
  with r(1) show ?thesis by blast
qed

text \<open>
  C21 (parser_goroutine_ends_iff_drained). At rest the parser's goroutine has closed the channel exactly when the handler took every payload; otherwise it
  has panicked, or it waits for ever to send a payload nobody receives.  The payloads the handler
  takes are those up to the first it stops at.
\<close>

theorem parser_goroutine_ends_iff_drained:
  assumes "pipe_runs exec net (pipe_starts rd db c) (q, h, ps)" and "at_rest exec net (q, h, ps)"
  shows "(q = ParserClosed \<longleftrightarrow>
      snd (ParseStream rd) = Closed \<and> taken exec net (fst (ParseStream rd)) db c = fst (ParseStream rd)) \<and>
    (q \<noteq> ParserClosed \<longrightarrow> (\<exists>p. q = ParserPanicked p) \<or> (\<exists>p nxt. q = Sending p nxt))"
proof -
  have "q = ParserClosed \<longleftrightarrow>
      snd (ParseStream rd) = Closed \<and> taken exec net (fst (ParseStream rd)) db c = fst (ParseStream rd)"
    using rest_of_connection(1,2) [OF assms] by (cases "ParseStream rd") auto
  with rest_of_connection(3) [OF assms] show ?thesis by (cases q) auto
qed

theorem parser_goroutine_ends_iff_drained_witness:
  "\<exists>h ps. pipe_runs (Exec (id, default_properties, \<lambda>n. None)) (\<lambda>n. None)
      (pipe_starts \<lparr>unread = [], read_err = EOF\<rparr> (empty_server 1) new_client) (ParserClosed, h, ps)"
proof -
  let ?exec = "Exec (id, default_properties, \<lambda>n. None)" and ?rd = "\<lparr>unread = [], read_err = EOF\<rparr>"
  obtain q h ps where r: "pipe_runs ?exec (\<lambda>n. None) (pipe_starts ?rd (empty_server 1) new_client) (q, h, ps)"
    "at_rest ?exec (\<lambda>n. None) (q, h, ps)" using comes_to_rest by (metis prod_cases3)
  have "q = ParserClosed"
    using parser_goroutine_ends_iff_drained [OF r] by (simp add: ParseStream_def parse0_def handle_payload_def is_closed_err_def)
  with r(1) show ?thesis by blast
qed

text \<open>
  C40 (closed_text_leaks_parser). A client that sends a malformed header which quotes the error text of a closed connection is taken for one that has
  gone: the handler returns, and in every run the parser's goroutine is left waiting to send the error
  of the connection, for ever.
\<close>

theorem closed_text_leaks_parser:
  assumes "pipe_runs exec net (pipe_starts \<lparr>unread = closed_text_line @ CRLF, read_err = e\<rparr> db c) (q, h, ps)"
    and "at_rest exec net (q, h, ps)"
  shows "h = Returned ClientClosed db c \<and> ps = [closed_text_payload] \<and> (\<exists>p. q = Sending p None)"
proof -
  let ?rd = "\<lparr>unread = closed_text_line @ CRLF, read_err = e\<rparr>"
  have stream: "ParseStream ?rd = ([closed_text_payload, \<lparr>Data = None, Err = Some e\<rparr>], Closed)"
    using parse_loop_Next [OF closed_text_iteration [of e]] by (simp add: ParseStream_def parse0_def send_def)
  have "is_closed_err (ErrorString (''parseMutiBulkHeader ParseUint error:'' @ closed_text_line @ CRLF))"
    unfolding is_closed_err_def by (intro disjI2 exI [of _ 37]) (simp add: closed_text_line_def closed_text_def)
  then have stop: "handle_payload exec net closed_text_payload db c = Stop ClientClosed db c"
    by (simp add: handle_payload_def closed_text_payload_def)
  then have "serve_stream exec net ?rd db c = (ClientClosed, db, c)" by (simp add: serve_stream_def stream)
  then have out: "outcome exec net (q, h, ps) = (ClientClosed, db, c)"
    using pipe_runs_outcome [OF assms(1)] by (simp add: starts_outcome)
  note rest = rest_of_connection [OF assms]
  from assms(2) have "h = Returned ClientClosed db c" by (cases rule: at_rest_cases) (use out in auto)
  moreover have "ps = [closed_text_payload]" using rest(1) stop by (simp add: stream)
  moreover have "\<exists>p. q = Sending p None"
  proof -
    have "q \<noteq> ParserClosed" using rest(1,2) stop by (simp add: stream)
    with rest(3) closed_text_runs [OF assms(1)] calculation(1) show ?thesis by (cases q) auto
  qed
  ultimately show ?thesis by blast
qed

theorem closed_text_leaks_parser_witness:
  "\<exists>p h. pipe_runs (Exec (id, default_properties, \<lambda>n. None)) (\<lambda>n. None)
      (pipe_starts \<lparr>unread = closed_text_line @ CRLF, read_err = EOF\<rparr> (empty_server 1) new_client)
      (Sending p None, h, [closed_text_payload])"
proof -
  let ?exec = "Exec (id, default_properties, \<lambda>n. None)" and ?rd = "\<lparr>unread = closed_text_line @ CRLF, read_err = EOF\<rparr>"
  obtain q h ps where r: "pipe_runs ?exec (\<lambda>n. None) (pipe_starts ?rd (empty_server 1) new_client) (q, h, ps)"
    "at_rest ?exec (\<lambda>n. None) (q, h, ps)" using comes_to_rest by (metis prod_cases3)
  from closed_text_leaks_parser [OF r] r(1) show ?thesis by blast
qed

end
