(* ===== verification/Shutdown.thy ===== *)
theory Shutdown
  imports Server
begin

text \<open>
  The server of \<^verbatim>\<open>tcp/server.go\<close> with the handler of \<^verbatim>\<open>resp/handler\<close>: what closing the handler does to
  the connections.  Between the accept loop and the handler there is a goroutine per connection
  that may not have begun yet; the signal's goroutine closes the listener and then, in a second
  step, the handler, which ranges over \<^verbatim>\<open>activeConn\<close> and closes one socket after the other while
  connections come and go (\<open>RespHandler_Close\<close> has the clients that are due when it begins).
  A handler whose socket is closed gets an error from its parser and returns
  (\<open>closed_socket_ends_handler\<close>), unless its parser has panicked.

  The clients are parameters: \<open>stays i\<close> says that client \<open>i\<close> never hangs up, and \<open>stuck i\<close> that it
  has sent something its parser panics on.
\<close>

section \<open>Steps\<close>

datatype shutdown_phase = NoSignal | ListenerClosed | ClosingHandler | HandlerClosed

text \<open>
  \<open>starting\<close> are the accepted connections whose handler has not begun, \<open>serving\<close> those it serves;
  \<open>due\<close> are the clients that the loop of \<^verbatim>\<open>Close\<close> has yet to visit.
\<close>

record Service =
  svc_accepting :: bool
  svc_accepted :: nat
  starting :: "nat set"
  serving :: "nat set"
  resp :: "unit RespHandler"
  closed_socks :: "nat set"
  due :: "nat set"
  waitCount :: int
  phase :: shutdown_phase
  svc_returned :: bool

definition new_service :: Service where
  "new_service = \<lparr>svc_accepting = True, svc_accepted = 0, starting = {}, serving = {},
     resp = \<lparr>activeConn = {}, handler_db = (), closing = False\<rparr>, closed_socks = {}, due = {}, waitCount = 0,
     phase = NoSignal, svc_returned = False\<rparr>"

definition running :: "Service \<Rightarrow> nat set" where
  "running s = starting s \<union> serving s"

text \<open>
  \<^verbatim>\<open>handler.Close\<close> begins; a client is closed by it; and the whole of it, as it is called when no
  handler is left.  A client that has come after the beginning may or may not be visited, one that
  has been forgotten is not.
\<close>

definition begin_close :: "Service \<Rightarrow> Service" where
  "begin_close s = (case RespHandler_Close (resp s) of (socks, r) \<Rightarrow> s\<lparr>resp := r, due := socks\<rparr>)"

definition close_client :: "nat \<Rightarrow> Service \<Rightarrow> Service" where
  "close_client i s = s\<lparr>closed_socks := insert i (closed_socks s), due := due s - {i}\<rparr>"

definition close_handler :: "Service \<Rightarrow> Service" where
  "close_handler s =
     (case RespHandler_Close (resp s) of
        (socks, r) \<Rightarrow> s\<lparr>resp := r, closed_socks := closed_socks s \<union> socks\<rparr>)"

text \<open>A handler returns; it may or may not have forgotten its client.\<close>

definition handler_done :: "nat \<Rightarrow> bool \<Rightarrow> Service \<Rightarrow> Service" where
  "handler_done i forgets s =
     s\<lparr>serving := serving s - {i}, waitCount := waitCount s - 1,
       resp := if forgets then closeClient i (resp s) else resp s\<rparr>"

inductive service_step :: "(nat \<Rightarrow> bool) \<Rightarrow> (nat \<Rightarrow> bool) \<Rightarrow> Service \<Rightarrow> Service \<Rightarrow> bool" for stays stuck where
  accept: "svc_accepting s \<Longrightarrow> phase s = NoSignal \<Longrightarrow>
    service_step stays stuck s
      (s\<lparr>svc_accepted := svc_accepted s + 1, starting := insert (svc_accepted s) (starting s), waitCount := waitCount s + 1\<rparr>)"
| accept_fails: "svc_accepting s \<Longrightarrow> service_step stays stuck s (s\<lparr>svc_accepting := False\<rparr>)"
| refused: "i \<in> starting s \<Longrightarrow> closing (resp s) \<Longrightarrow>
    service_step stays stuck s (s\<lparr>starting := starting s - {i}, waitCount := waitCount s - 1\<rparr>)"
| begins: "i \<in> starting s \<Longrightarrow> \<not> closing (resp s) \<Longrightarrow>
    service_step stays stuck s
      (s\<lparr>starting := starting s - {i}, serving := insert i (serving s),
         resp := (resp s)\<lparr>activeConn := insert i (activeConn (resp s))\<rparr>\<rparr>)"
| hangs_up: "i \<in> serving s \<Longrightarrow> \<not> stuck i \<Longrightarrow> \<not> stays i \<Longrightarrow>
    service_step stays stuck s (handler_done i forgets s)"
| socket_closed: "i \<in> serving s \<Longrightarrow> \<not> stuck i \<Longrightarrow> i \<in> closed_socks s \<Longrightarrow>
    service_step stays stuck s (handler_done i forgets s)"
| signal_listener: "phase s = NoSignal \<Longrightarrow> service_step stays stuck s (s\<lparr>phase := ListenerClosed\<rparr>)"
| signal_handler: "phase s = ListenerClosed \<Longrightarrow>
    service_step stays stuck s (begin_close (s\<lparr>phase := ClosingHandler\<rparr>))"
| signal_client: "phase s = ClosingHandler \<Longrightarrow> i \<in> activeConn (resp s) \<Longrightarrow>
    service_step stays stuck s (close_client i s)"
| signal_done: "phase s = ClosingHandler \<Longrightarrow> due s \<inter> activeConn (resp s) = {} \<Longrightarrow>
    service_step stays stuck s (s\<lparr>phase := HandlerClosed\<rparr>)"
| wait_done: "\<not> svc_accepting s \<Longrightarrow> waitCount s = 0 \<Longrightarrow> \<not> svc_returned s \<Longrightarrow>
    service_step stays stuck s (close_handler (s\<lparr>svc_returned := True\<rparr>))"

inductive_cases service_stepE: "service_step stays stuck s s'"

definition service_runs :: "(nat \<Rightarrow> bool) \<Rightarrow> (nat \<Rightarrow> bool) \<Rightarrow> Service \<Rightarrow> Service \<Rightarrow> bool" where
  "service_runs stays stuck = (service_step stays stuck)\<^sup>*\<^sup>*"

lemma close_handler_simps [simp]:
  "svc_accepting (close_handler s) = svc_accepting s" "svc_accepted (close_handler s) = svc_accepted s"
  "starting (close_handler s) = starting s" "serving (close_handler s) = serving s"
  "resp (close_handler s) = resp s" "due (close_handler s) = due s" "closed_socks (close_handler s) = closed_socks s \<union> activeConn (resp s)"
  "waitCount (close_handler s) = waitCount s" "phase (close_handler s) = phase s"
  "svc_returned (close_handler s) = svc_returned s"
  by (simp_all add: close_handler_def RespHandler_Close_def)

lemma begin_close_simps [simp]:
  "svc_accepting (begin_close s) = svc_accepting s" "svc_accepted (begin_close s) = svc_accepted s"
  "starting (begin_close s) = starting s" "serving (begin_close s) = serving s"
  "resp (begin_close s) = resp s" "closed_socks (begin_close s) = closed_socks s"
  "due (begin_close s) = activeConn (resp s)"
  "waitCount (begin_close s) = waitCount s" "phase (begin_close s) = phase s"
  "svc_returned (begin_close s) = svc_returned s"
  by (simp_all add: begin_close_def RespHandler_Close_def)

lemma close_client_simps [simp]:
  "svc_accepting (close_client i s) = svc_accepting s" "svc_accepted (close_client i s) = svc_accepted s"
  "starting (close_client i s) = starting s" "serving (close_client i s) = serving s"
  "resp (close_client i s) = resp s" "closed_socks (close_client i s) = insert i (closed_socks s)"
  "due (close_client i s) = due s - {i}"
  "waitCount (close_client i s) = waitCount s" "phase (close_client i s) = phase s"
  "svc_returned (close_client i s) = svc_returned s"
  by (simp_all add: close_client_def)

lemma handler_done_simps [simp]:
  "svc_accepting (handler_done i f s) = svc_accepting s" "svc_accepted (handler_done i f s) = svc_accepted s"
  "starting (handler_done i f s) = starting s" "serving (handler_done i f s) = serving s - {i}"
  "closing (resp (handler_done i f s)) = closing (resp s)" "due (handler_done i f s) = due s" "closed_socks (handler_done i f s) = closed_socks s"
  "activeConn (resp (handler_done i f s)) = (if f then activeConn (resp s) - {i} else activeConn (resp s))"
  "waitCount (handler_done i f s) = waitCount s - 1" "phase (handler_done i f s) = phase s"
  "svc_returned (handler_done i f s) = svc_returned s"
  by (simp_all add: handler_done_def closeClient_def)

section \<open>The invariant\<close>

text \<open>
  The wait group counts the goroutines of the connections, every client that is served is in
  \<^verbatim>\<open>activeConn\<close>, and \<^verbatim>\<open>closing\<close> is never set.
\<close>

definition service_inv :: "Service \<Rightarrow> bool" where
  "service_inv s \<longleftrightarrow> finite (running s) \<and> running s \<subseteq> {..<svc_accepted s} \<and> starting s \<inter> serving s = {} \<and>
     waitCount s = int (card (running s)) \<and> serving s \<subseteq> activeConn (resp s) \<and> \<not> closing (resp s) \<and>
     closed_socks s \<inter> starting s = {} \<and> activeConn (resp s) \<inter> starting s = {} \<and>
     activeConn (resp s) \<union> closed_socks s \<subseteq> {..<svc_accepted s} \<and>
     (svc_returned s \<longrightarrow> running s = {} \<and> \<not> svc_accepting s)"

lemma service_inv_new: "service_inv new_service"
  by (simp add: service_inv_def new_service_def running_def)

lemma handler_done_inv:
  assumes "service_inv s" and "i \<in> serving s"
  shows "service_inv (handler_done i f s)"
proof -
  have fin: "finite (starting s \<union> serving s)" and dis: "starting s \<inter> serving s = {}"
    using assms(1) by (auto simp: service_inv_def running_def)
  have "starting s \<union> (serving s - {i}) = (starting s \<union> serving s) - {i}" using assms(2) dis by auto
  moreover have "0 < card (starting s \<union> serving s)" using fin assms(2) by (auto simp: card_gt_0_iff)
  moreover have "card (starting s \<union> serving s - {i}) = card (starting s \<union> serving s) - 1"
    using assms(2) by (intro card_Diff_singleton) simp
  ultimately show ?thesis using assms by (auto simp: service_inv_def running_def)
qed

lemma service_step_inv: "service_step stays stuck s s' \<Longrightarrow> service_inv s \<Longrightarrow> service_inv s'"
proof (induction rule: service_step.induct)
  case (accept s)
  then have "svc_accepted s \<notin> starting s \<union> serving s" by (auto simp: service_inv_def running_def)
  with accept show ?case by (auto simp: service_inv_def running_def)
next
  case (begins i s)
  then have "starting s - {i} \<union> insert i (serving s) = starting s \<union> serving s" by auto
  with begins show ?case by (auto simp: service_inv_def running_def)
next
  case (wait_done s)
  then have "running s = {}" by (auto simp: service_inv_def)
  with wait_done show ?case by (auto simp: service_inv_def running_def)
next
  case (hangs_up i s)
  then show ?case by (simp add: handler_done_inv)
next
  case (socket_closed i s)
  then show ?case by (simp add: handler_done_inv)
qed (auto simp: service_inv_def running_def)

lemma service_runs_inv: "service_runs stays stuck s s' \<Longrightarrow> service_inv s \<Longrightarrow> service_inv s'"
  unfolding service_runs_def by (induction rule: rtranclp_induct) (auto intro: service_step_inv)

lemma service_runs_step: "service_step stays stuck s s' \<Longrightarrow> service_runs stays stuck s' t \<Longrightarrow> service_runs stays stuck s t"
  unfolding service_runs_def by (rule converse_rtranclp_into_rtranclp)

lemma service_runs_trans [trans]:
  "service_runs stays stuck s s' \<Longrightarrow> service_runs stays stuck s' t \<Longrightarrow> service_runs stays stuck s t"
  unfolding service_runs_def by (rule rtranclp_trans)

lemma service_runs_refl [simp]: "service_runs stays stuck s s"
  by (simp add: service_runs_def)

section \<open>Connections that hold the server\<close>

text \<open>
  The server waits for ever for a handler whose parser has panicked, and for one that is served
  after the handler has been closed, as long as its client stays.
\<close>

definition holds_server :: "(nat \<Rightarrow> bool) \<Rightarrow> (nat \<Rightarrow> bool) \<Rightarrow> nat \<Rightarrow> Service \<Rightarrow> bool" where
  "holds_server stays stuck i s \<longleftrightarrow> i \<in> running s \<and>
     (stuck i \<or> stays i \<and> phase s = HandlerClosed \<and> i \<notin> closed_socks s)"

lemma holds_server_step:
  assumes "service_step stays stuck s s'" and "service_inv s" and "holds_server stays stuck i s"
  shows "holds_server stays stuck i s'"
  using assms
proof (induction rule: service_step.induct)
  case (wait_done s)
  then have "running s = {}" by (auto simp: service_inv_def)
  with wait_done show ?case by (simp add: holds_server_def)
qed (auto simp: holds_server_def running_def service_inv_def)

lemma holds_server_runs:
  "service_runs stays stuck s s' \<Longrightarrow> service_inv s \<Longrightarrow> holds_server stays stuck i s \<Longrightarrow>
   holds_server stays stuck i s' \<and> service_inv s'"
  unfolding service_runs_def
  by (induction rule: rtranclp_induct) (auto intro: holds_server_step service_step_inv)

lemma held_never_returns:
  assumes "service_runs stays stuck s s'" and "service_inv s" and "holds_server stays stuck i s"
  shows "\<not> svc_returned s'"
  using holds_server_runs [OF assms] by (auto simp: holds_server_def service_inv_def)

section \<open>Draining\<close>

lemma begin_all:
  assumes "finite L"
  shows "service_inv s \<Longrightarrow> starting s = L \<Longrightarrow>
    \<exists>s'. service_runs stays stuck s s' \<and> starting s' = {} \<and> serving s' = running s \<and>
      closed_socks s' = closed_socks s \<and> phase s' = phase s \<and> svc_returned s' = svc_returned s \<and>
      svc_accepting s' = svc_accepting s"
  using assms
proof (induction L arbitrary: s rule: finite_induct)
  case empty
  then show ?case by (intro exI [of _ s]) (simp add: running_def)
next
  case (insert i L)
  let ?s = "s\<lparr>starting := starting s - {i}, serving := insert i (serving s),
      resp := (resp s)\<lparr>activeConn := insert i (activeConn (resp s))\<rparr>\<rparr>"
  have step: "service_step stays stuck s ?s"
    using insert.prems by (intro begins) (auto simp: service_inv_def)
  have "starting ?s = L" using insert by auto
  from insert.IH [OF service_step_inv [OF step insert.prems(1)] this] obtain s' where
    "service_runs stays stuck ?s s'" "starting s' = {}" "serving s' = running ?s" "closed_socks s' = closed_socks s"
    "phase s' = phase s" "svc_returned s' = svc_returned s" "svc_accepting s' = svc_accepting s" by auto
  moreover have "running ?s = running s" using insert.prems(2) by (auto simp: running_def)
  ultimately show ?case using service_runs_step [OF step] by (intro exI [of _ s']) simp
qed

lemma drain:
  assumes "finite L"
  shows "serving s = L \<Longrightarrow> \<forall>i \<in> L. \<not> stuck i \<and> (stays i \<longrightarrow> i \<in> closed_socks s) \<Longrightarrow>
    \<exists>s'. service_runs stays stuck s s' \<and> starting s' = starting s \<and> serving s' = {} \<and>
      svc_returned s' = svc_returned s \<and> svc_accepting s' = svc_accepting s \<and> phase s' = phase s"
  using assms
proof (induction L arbitrary: s rule: finite_induct)
  case empty
  then show ?case by (intro exI [of _ s]) simp
next
  case (insert i L)
  let ?s = "handler_done i True s"
  have step: "service_step stays stuck s ?s"
    using insert.prems by (cases "stays i") (auto intro: hangs_up socket_closed)
  have "serving ?s = L" "\<forall>j \<in> L. \<not> stuck j \<and> (stays j \<longrightarrow> j \<in> closed_socks ?s)"
    using insert by auto
  from insert.IH [OF this] obtain s' where "service_runs stays stuck ?s s'" "starting s' = starting s" "serving s' = {}"
    "svc_returned s' = svc_returned s" "svc_accepting s' = svc_accepting s" "phase s' = phase s" by auto
  with service_runs_step [OF step] show ?case by (intro exI [of _ s']) simp
qed

text \<open>What is left when every handler has returned.\<close>

lemma finish:
  assumes "service_inv s" and "running s = {}" and "\<not> svc_returned s"
  shows "\<exists>s'. service_runs stays stuck s s' \<and> svc_returned s'"
proof -
  define s1 where "s1 = s\<lparr>svc_accepting := False\<rparr>"
  have "service_runs stays stuck s s1"
  proof (cases "svc_accepting s")
    case True
    then have "service_step stays stuck s s1" unfolding s1_def by (rule accept_fails)
    then show ?thesis by (rule service_runs_step) simp
  next
    case False
    then have "s1 = s" by (simp add: s1_def)
    then show ?thesis by simp
  qed
  moreover have "service_step stays stuck s1 (close_handler (s1\<lparr>svc_returned := True\<rparr>))"
    using assms by (intro wait_done) (simp_all add: s1_def service_inv_def)
  ultimately have "service_runs stays stuck s (close_handler (s1\<lparr>svc_returned := True\<rparr>))"
    by (meson service_runs_trans service_runs_step service_runs_refl)
  moreover have "svc_returned (close_handler (s1\<lparr>svc_returned := True\<rparr>))" by simp
  ultimately show ?thesis by blast
qed

text \<open>The loop of \<^verbatim>\<open>Close\<close> may visit every client that is being served.\<close>

lemma close_all:
  assumes "finite L"
  shows "phase s = ClosingHandler \<Longrightarrow> L \<subseteq> activeConn (resp s) \<Longrightarrow>
    \<exists>s'. service_runs stays stuck s s' \<and> starting s' = starting s \<and> serving s' = serving s \<and>
      svc_returned s' = svc_returned s \<and> closed_socks s' = L \<union> closed_socks s"
  using assms
proof (induction L arbitrary: s rule: finite_induct)
  case empty
  then show ?case by (intro exI [of _ s]) simp
next
  case (insert i L)
  have step: "service_step stays stuck s (close_client i s)" using insert.prems by (intro signal_client) auto
  from insert.IH [of "close_client i s"] insert.prems obtain s' where "service_runs stays stuck (close_client i s) s'"
    "starting s' = starting s" "serving s' = serving s" "svc_returned s' = svc_returned s"
    "closed_socks s' = L \<union> insert i (closed_socks s)" by auto
  with service_runs_step [OF step] show ?case by (intro exI [of _ s']) simp
qed

lemma signal_closes:
  assumes "service_inv s" and "starting s = {}"
  shows "\<exists>s'. service_runs stays stuck s s' \<and> service_inv s' \<and> starting s' = {} \<and> serving s' = serving s \<and>
    svc_returned s' = svc_returned s \<and> closed_socks s \<subseteq> closed_socks s' \<and>
    (phase s \<noteq> HandlerClosed \<longrightarrow> serving s \<subseteq> closed_socks s')"
proof -
  have goal: "?thesis" if r: "service_runs stays stuck s t" and t: "phase t = ClosingHandler" "starting t = {}"
      "serving t = serving s" "svc_returned t = svc_returned s" "closed_socks t = closed_socks s" for t
  proof -
    have inv: "service_inv t" by (rule service_runs_inv [OF r assms(1)])
    then have "finite (serving t)" "serving t \<subseteq> activeConn (resp t)" by (auto simp: service_inv_def running_def)
    from close_all [OF this(1) t(1) this(2), of stays stuck] obtain s' where "service_runs stays stuck t s'"
      "starting s' = starting t" "serving s' = serving t" "svc_returned s' = svc_returned t"
      "closed_socks s' = serving t \<union> closed_socks t" by blast
    with t service_runs_trans [OF r] service_runs_inv [OF _ inv] show ?thesis by (intro exI [of _ s']) auto
  qed
  let ?closing = "\<lambda>s. begin_close (s\<lparr>phase := ClosingHandler\<rparr>)"
  show ?thesis
  proof (cases "phase s")
    case NoSignal
    let ?s = "s\<lparr>phase := ListenerClosed\<rparr>"
    have "service_step stays stuck s ?s" using NoSignal by (rule signal_listener)
    moreover have "service_step stays stuck ?s (?closing ?s)" by (rule signal_handler) simp
    ultimately have "service_runs stays stuck s (?closing ?s)" by (meson service_runs_step service_runs_refl)
    then show ?thesis by (rule goal) (simp_all add: assms(2))
  next
    case ListenerClosed
    then have "service_step stays stuck s (?closing s)" by (rule signal_handler)
    then have "service_runs stays stuck s (?closing s)" by (rule service_runs_step) simp
    then show ?thesis by (rule goal) (simp_all add: assms(2))
  next
    case ClosingHandler
    with assms(2) show ?thesis by (intro goal [of s]) simp_all
  next
    case HandlerClosed
    with assms show ?thesis by (intro exI [of _ s]) simp
  qed
qed

text \<open>When \<^verbatim>\<open>Close\<close> has ended, the clients that were being served when it began have been closed.\<close>

lemma begun_are_closed:
  assumes "service_runs stays stuck (begin_close (s\<lparr>phase := ClosingHandler\<rparr>)) s'"
    and "service_inv s" and "phase s' = HandlerClosed"
  shows "serving s \<inter> running s' \<subseteq> closed_socks s'"
proof -
  let ?s = "begin_close (s\<lparr>phase := ClosingHandler\<rparr>)"
  have inv0: "service_inv ?s" using assms(2) by (auto simp: service_inv_def running_def)
  have "(\<forall>i \<in> serving s. i \<in> running t \<longrightarrow> i \<in> closed_socks t \<or> phase t = ClosingHandler \<and> i \<in> due t) \<and>
      serving s \<inter> starting t = {} \<and> serving s \<subseteq> {..<svc_accepted t} \<and> phase t \<in> {ClosingHandler, HandlerClosed}"
    if "service_runs stays stuck ?s t" for t
    using that unfolding service_runs_def
  proof (induction rule: rtranclp_induct)
    case base
    show ?case using assms(2) by (auto simp: service_inv_def running_def)
  next
    case (step t t')
    have "service_inv t" using step(1) service_runs_inv [OF _ inv0] by (simp add: service_runs_def)
    then have active: "serving t \<subseteq> activeConn (resp t)" by (simp add: service_inv_def)
    from step(2) show ?case
    proof cases
      case signal_done
      with step.IH active show ?thesis by (simp add: running_def) blast
    qed (use step.IH in \<open>auto simp: running_def\<close>)
  qed
  from this [OF assms(1)] assms(3) show ?thesis by auto
qed

lemma can_shut_down:
  assumes inv: "service_inv s" and nr: "\<not> svc_returned s" and free: "\<forall>i. \<not> holds_server stays stuck i s"
  shows "\<exists>s'. service_runs stays stuck s s' \<and> svc_returned s'"
proof -
  have "finite (starting s)" using inv by (simp add: service_inv_def running_def)
  from begin_all [OF this inv refl] obtain s1 where 1: "service_runs stays stuck s s1" "starting s1 = {}"
    "serving s1 = running s" "closed_socks s1 = closed_socks s" "phase s1 = phase s" "svc_returned s1 = svc_returned s"
    by blast
  note inv1 = service_runs_inv [OF 1(1) inv]
  from signal_closes [OF inv1 1(2)] obtain s2 where 2: "service_runs stays stuck s1 s2" "service_inv s2"
    "starting s2 = {}" "serving s2 = serving s1" "svc_returned s2 = svc_returned s1" "closed_socks s1 \<subseteq> closed_socks s2"
    "phase s1 \<noteq> HandlerClosed \<longrightarrow> serving s1 \<subseteq> closed_socks s2" by blast
  have "finite (serving s2)" using 2(2) by (simp add: service_inv_def running_def)
  moreover have "\<forall>i \<in> serving s2. \<not> stuck i \<and> (stays i \<longrightarrow> i \<in> closed_socks s2)"
    using free 1 2 by (cases "phase s = HandlerClosed") (auto simp: holds_server_def)
  ultimately obtain s3 where 3: "service_runs stays stuck s2 s3" "starting s3 = {}" "serving s3 = {}"
    "svc_returned s3 = svc_returned s2" using drain [OF _ refl, of s2 stuck stays] 2(3) by auto
  have "running s3 = {}" using 3 by (simp add: running_def)
  with finish [OF service_runs_inv [OF 3(1) 2(2)] this, of stays stuck] nr 1 2 3 show ?thesis
    by (metis service_runs_trans)
qed

section \<open>The server of the accept loop\<close>

text \<open>
  Forgetting which handlers have begun and which sockets are closed gives the server of \<open>Server\<close>;
  the closing of the listener and the beginning of \<^verbatim>\<open>Close\<close> become one step there.
\<close>

definition server_of :: "Service \<Rightarrow> Server" where
  "server_of s = \<lparr>listening = (phase s \<in> {NoSignal, ListenerClosed} \<and> \<not> svc_returned s), accepting = svc_accepting s,
     accepted = svc_accepted s, live = running s, waitDone = waitCount s, signalled = (phase s \<in> {ClosingHandler, HandlerClosed}),
     closes = of_bool (phase s \<in> {ClosingHandler, HandlerClosed}) + of_bool (svc_returned s), returned = svc_returned s\<rparr>"

lemma server_of_new: "server_of new_service = new_server"
  by (simp add: server_of_def new_service_def new_server_def running_def)

lemma server_of_handler_done:
  assumes "service_inv s" and "i \<in> serving s"
  shows "server_of (handler_done i f s) = (server_of s)\<lparr>live := live (server_of s) - {i}, waitDone := waitDone (server_of s) - 1\<rparr>"
proof -
  have "starting s \<union> (serving s - {i}) = starting s \<union> serving s - {i}"
    using assms by (auto simp: service_inv_def)
  then show ?thesis by (simp add: server_of_def running_def)
qed

lemma service_step_simulates:
  assumes "service_step stays stuck s s'" and "service_inv s"
  shows "server_of s' = server_of s \<or> serve_step stuck (server_of s) (server_of s')"
  using assms
proof (induction rule: service_step.induct)
  case (accept s)
  then have "serve_step stuck (server_of s) ((server_of s)\<lparr>accepted := accepted (server_of s) + 1,
      live := insert (accepted (server_of s)) (live (server_of s)), waitDone := waitDone (server_of s) + 1\<rparr>)"
    by (intro serve_step.accept) (auto simp: server_of_def service_inv_def)
  then show ?case by (simp add: server_of_def running_def)
next
  case (accept_fails s)
  then have "serve_step stuck (server_of s) ((server_of s)\<lparr>accepting := False\<rparr>)"
    by (intro serve_step.accept_fails) (simp add: server_of_def)
  then show ?case by (simp add: server_of_def running_def)
next
  case (begins i s)
  then have "starting s - {i} \<union> insert i (serving s) = starting s \<union> serving s" by auto
  then show ?case by (simp add: server_of_def running_def)
next
  case (hangs_up i s f)
  then have "serve_step stuck (server_of s) (server_of (handler_done i f s))"
    unfolding server_of_handler_done [OF hangs_up(4,1)]
    by (intro serve_step.handler_returns) (simp_all add: server_of_def running_def)
  then show ?case by simp
next
  case (socket_closed i s f)
  then have "serve_step stuck (server_of s) (server_of (handler_done i f s))"
    unfolding server_of_handler_done [OF socket_closed(4,1)]
    by (intro serve_step.handler_returns) (simp_all add: server_of_def running_def)
  then show ?case by simp
next
  case (signal_handler s)
  then have "serve_step stuck (server_of s) ((server_of s)\<lparr>signalled := True, listening := False,
      closes := closes (server_of s) + 1\<rparr>)"
    by (intro serve_step.signal) (simp add: server_of_def)
  with signal_handler show ?case by (simp add: server_of_def running_def)
next
  case (wait_done s)
  then have "serve_step stuck (server_of s) ((server_of s)\<lparr>returned := True, listening := False,
      closes := closes (server_of s) + 1\<rparr>)"
    by (intro serve_step.wait_done) (simp_all add: server_of_def)
  with wait_done show ?case by (simp add: server_of_def running_def)
qed (auto simp: server_of_def running_def service_inv_def)

lemma service_runs_simulate:
  "service_runs stays stuck s s' \<Longrightarrow> service_inv s \<Longrightarrow> runs stuck (server_of s) (server_of s') \<and> service_inv s'"
  unfolding service_runs_def
proof (induction rule: rtranclp_induct)
  case (step s1 s2)
  then have "runs stuck (server_of s) (server_of s1)" "service_inv s2" by (auto intro: service_step_inv)
  with service_step_simulates [OF step(2)] step.IH step.prems show ?case
    by (auto simp: runs_def intro: rtranclp.rtrancl_into_rtrancl)
qed (simp add: runs_def)

section \<open>A closed socket ends its handler\<close>

lemma handle_payloads_closed:
  "ps \<noteq> [] \<Longrightarrow> Err (last ps) = Some e \<Longrightarrow> is_closed_err e \<Longrightarrow>
   fst (handle_payloads exec net ps fin db c) \<notin> {ChannelClosed, Blocked}"
proof (induction ps arbitrary: db c)
  case Nil
  then show ?case by simp
next
  case (Cons p ps)
  show ?case
  proof (cases "ps = []")
    case True
    with Cons.prems show ?thesis by (simp add: handle_payload_def)
  next
    case False
    with Cons.prems Cons.IH have rest: "fst (handle_payloads exec net ps fin db c) \<notin> {ChannelClosed, Blocked}" for db c
      by simp
    have "\<And>e db c'. handle_payload exec net p db0 c0 = Stop e db c' \<Longrightarrow> e \<notin> {ChannelClosed, Blocked}" for db0 c0
      by (auto simp: handle_payload_def execute_def split: option.splits if_splits sum.splits prod.splits reply.splits)
    with rest show ?thesis by (auto split: served.split)
  qed
qed

lemma closed_socket_handler:
  assumes "is_closed_err (read_err rd)" and "snd (ParseStream rd) = Closed"
    and "\<not> closing r" and "sa_inv (handler_db r)" and "0 < length (dbSet (handler_db r))"
  shows "fst (Handler_Handler (Exec env) net client rd r) \<in> {ClientClosed, WriteFailed} \<and>
    client \<notin> activeConn (snd (snd (Handler_Handler (Exec env) net client rd r)))"
proof -
  obtain ps where p: "ParseStream rd = (ps, Closed)" using assms(2) by (cases "ParseStream rd") auto
  have last: "ps \<noteq> []" "Err (last ps) \<in> {Some (read_err rd), Some ErrUnexpectedEOF}"
    using closed_stream_ends_with_io_error [OF p] by auto
  have "is_closed_err ErrUnexpectedEOF" by (simp add: is_closed_err_def)
  with last assms(1) obtain e where e: "Err (last ps) = Some e" "is_closed_err e" by auto
  obtain e1 db1 c1 where s: "serve_stream (Exec env) net rd (handler_db r) new_client = (e1, db1, c1)"
    by (cases "serve_stream (Exec env) net rd (handler_db r) new_client")
  with p have h: "handle_payloads (Exec env) net ps Closed (handler_db r) new_client = (e1, db1, c1)"
    by (simp add: serve_stream_def)
  have good: "list_all payload_ok ps"
    using parse_loop_payloads [of init_state rd] p by (simp add: ParseStream_def parse0_def list_all_iff)
  have ok: "sa_conn_ok (handler_db r) new_client" using assms(5) by (simp add: sa_conn_ok_def)
  have "e1 \<in> {ClientClosed, WriteFailed, ChannelClosed, Blocked}"
    using standalone_client.handle_payloads_safe [OF assms(4) ok _ good h] by auto
  moreover have "e1 \<notin> {ChannelClosed, Blocked}"
    using handle_payloads_closed [OF last(1) e, of "Exec env" net Closed "handler_db r" new_client] h by simp
  ultimately show ?thesis using Handler_Handler_stream [OF assms(3) s, of client] by (auto simp: closeClient_def)
qed

section \<open>Properties\<close>

text \<open>
  C17 (shutdown_completes_iff). From any state the server can reach it can go on to return exactly when no connection holds
  it: no handler whose parser has panicked, and, once the signal has closed the handler, no
  connection whose socket was not closed then and whose client stays.  Handlers that were serving
  when the signal came return whatever their clients do.
\<close>

theorem shutdown_completes_iff:
  assumes "service_runs stays stuck new_service s" and "\<not> svc_returned s"
  shows "(\<exists>s'. service_runs stays stuck s s' \<and> svc_returned s') \<longleftrightarrow>
    (\<forall>i \<in> running s. \<not> stuck i \<and> (phase s = HandlerClosed \<longrightarrow> i \<in> closed_socks s \<or> \<not> stays i))"
proof -
  have inv: "service_inv s" by (rule service_runs_inv [OF assms(1) service_inv_new])
  have "(\<exists>s'. service_runs stays stuck s s' \<and> svc_returned s') \<longleftrightarrow> (\<forall>i. \<not> holds_server stays stuck i s)"
    using can_shut_down [OF inv assms(2)] held_never_returns [OF _ inv] by blast
  then show ?thesis by (auto simp: holds_server_def)
qed

theorem shutdown_completes_iff_witness:
  "\<exists>s. serving s = {0} \<and> phase s = HandlerClosed \<and>
    (\<exists>s'. service_runs (\<lambda>i. True) (\<lambda>i. False) s s' \<and> svc_returned s')"
proof -
  let ?st = "\<lambda>i :: nat. True" and ?no = "\<lambda>i :: nat. False"
  define s1 where "s1 = new_service\<lparr>svc_accepted := 1, starting := {0}, waitCount := 1\<rparr>"
  define s2 where "s2 = s1\<lparr>starting := {}, serving := {0}, resp := \<lparr>activeConn = {0}, handler_db = (), closing = False\<rparr>\<rparr>"
  define s3 where "s3 = s2\<lparr>phase := ListenerClosed\<rparr>"
  define s3a where "s3a = begin_close (s3\<lparr>phase := ClosingHandler\<rparr>)"
  define s3b where "s3b = close_client 0 s3a"
  define s4 where "s4 = s3b\<lparr>phase := HandlerClosed\<rparr>"
  have "service_step ?st ?no new_service s1"
    using service_step.accept [of new_service ?st ?no] by (simp add: s1_def new_service_def)
  moreover have "service_step ?st ?no s1 s2"
    using service_step.begins [of 0 s1 ?st ?no] by (simp add: s2_def s1_def new_service_def)
  moreover have "service_step ?st ?no s2 s3"
    unfolding s3_def by (rule service_step.signal_listener) (simp add: s2_def s1_def new_service_def)
  moreover have "service_step ?st ?no s3 s3a"
    unfolding s3a_def by (rule service_step.signal_handler) (simp add: s3_def)
  moreover have "service_step ?st ?no s3a s3b"
    unfolding s3b_def by (rule service_step.signal_client) (simp_all add: s3a_def s3_def s2_def)
  moreover have "service_step ?st ?no s3b s4"
    unfolding s4_def by (rule service_step.signal_done) (simp_all add: s3b_def s3a_def s3_def s2_def)
  ultimately have run: "service_runs ?st ?no new_service s4" by (meson service_runs_step service_runs_refl)
  have s4: "running s4 = {0}" "serving s4 = {0}" "closed_socks s4 = {0}" "phase s4 = HandlerClosed" "\<not> svc_returned s4"
    by (simp_all add: s4_def s3b_def s3a_def s3_def s2_def s1_def new_service_def running_def)
  have "\<exists>s'. service_runs ?st ?no s4 s' \<and> svc_returned s'"
    unfolding shutdown_completes_iff [OF run s4(5)] using s4 by simp
  with s4 show ?thesis by blast
qed

text \<open>
  Every run of the server with its handler is a run of the server of the accept loop alone,
  in which a handler is blocked exactly when its parser has panicked.
\<close>

theorem service_refines_server:
  assumes "service_runs stays stuck new_service s"
  shows "runs stuck new_server (server_of s)"
  using service_runs_simulate [OF assms service_inv_new] by (simp add: server_of_new)

theorem service_refines_server_witness:
  "runs (\<lambda>i. False) new_server (server_of (new_service\<lparr>phase := ListenerClosed\<rparr>))"
proof (rule service_refines_server)
  have "service_step (\<lambda>i. True) (\<lambda>i. False) new_service (new_service\<lparr>phase := ListenerClosed\<rparr>)"
    by (rule service_step.signal_listener) (simp add: new_service_def)
  then show "service_runs (\<lambda>i. True) (\<lambda>i. False) new_service (new_service\<lparr>phase := ListenerClosed\<rparr>)"
    by (rule service_runs_step) simp
qed

text \<open>
  C39 (late_connection_holds_server). A connection accepted before the signal whose handler begins only after the signal has
  closed the handler is served all the same, because closing the handler does not set \<^verbatim>\<open>closing\<close>;
  its socket is never closed, and the server does not return as long as the client stays.
\<close>

theorem late_connection_holds_server:
  "\<exists>s. service_runs (\<lambda>i. True) (\<lambda>i. False) new_service s \<and> phase s = HandlerClosed \<and> serving s = {0} \<and>
    (\<forall>s'. service_runs (\<lambda>i. True) (\<lambda>i. False) s s' \<longrightarrow> 0 \<in> serving s' \<and> \<not> svc_returned s')"
proof -
  let ?st = "\<lambda>i :: nat. True" and ?no = "\<lambda>i :: nat. False"
  define s1 where "s1 = new_service\<lparr>svc_accepted := 1, starting := {0}, waitCount := 1\<rparr>"
  define s2 where "s2 = s1\<lparr>phase := ListenerClosed\<rparr>"
  define s2a where "s2a = begin_close (s2\<lparr>phase := ClosingHandler\<rparr>)"
  define s3 where "s3 = s2a\<lparr>phase := HandlerClosed\<rparr>"
  define s4 where "s4 = s3\<lparr>starting := {}, serving := {0}, resp := \<lparr>activeConn = {0}, handler_db = (), closing = False\<rparr>\<rparr>"
  have "service_step ?st ?no new_service s1"
    using service_step.accept [of new_service ?st ?no] by (simp add: s1_def new_service_def)
  moreover have "service_step ?st ?no s1 s2"
    unfolding s2_def by (rule service_step.signal_listener) (simp add: s1_def new_service_def)
  moreover have "service_step ?st ?no s2 s2a"
    unfolding s2a_def by (rule service_step.signal_handler) (simp add: s2_def)
  moreover have "service_step ?st ?no s2a s3"
    unfolding s3_def by (rule service_step.signal_done) (simp_all add: s2a_def s2_def s1_def new_service_def)
  moreover have "service_step ?st ?no s3 s4"
    using service_step.begins [of 0 s3 ?st ?no]
    by (simp add: s4_def s3_def s2a_def s2_def s1_def new_service_def begin_close_def RespHandler_Close_def)
  ultimately have run: "service_runs ?st ?no new_service s4" by (meson service_runs_step service_runs_refl)
  have s4: "serving s4 = {0}" "starting s4 = {}" "phase s4 = HandlerClosed" "closed_socks s4 = {}"
    by (simp_all add: s4_def s3_def s2a_def s2_def s1_def new_service_def)
  have inv: "service_inv s4" by (rule service_runs_inv [OF run service_inv_new])
  have held: "holds_server ?st ?no 0 s4" using s4 by (simp add: holds_server_def running_def)
  have "0 \<in> serving s' \<and> \<not> svc_returned s'" if r: "service_runs ?st ?no s4 s'" for s'
  proof -
    have "0 \<in> serving s'" using r s4 inv unfolding service_runs_def
    proof (induction rule: rtranclp_induct)
      case base
      then show ?case by simp
    next
      case (step t t')
      have t: "holds_server ?st ?no 0 t"
        using holds_server_runs [OF _ inv held, of t] step(1) by (simp add: service_runs_def)
      from step(2) t step.IH step.prems show ?case by (auto elim!: service_stepE simp: holds_server_def)
    qed
    with held_never_returns [OF r inv held] show ?thesis by blast
  qed
  with run s4 show ?thesis by blast
qed

theorem late_connection_holds_server_witness:
  "\<exists>s. service_runs (\<lambda>i. True) (\<lambda>i. False) new_service s \<and> phase s = HandlerClosed \<and> 0 \<in> serving s \<and> \<not> svc_returned s"
  using late_connection_holds_server service_runs_refl by blast

text \<open>
  A handler whose socket is closed under it executes what has arrived and returns, and its
  client is forgotten, unless the parser has panicked.
\<close>

theorem closed_socket_ends_handler:
  assumes "is_closed_err (read_err rd)" and "snd (ParseStream rd) = Closed"
    and "\<not> closing r" and "sa_inv (handler_db r)" and "0 < length (dbSet (handler_db r))"
  shows "fst (Handler_Handler (Exec env) net client rd r) \<in> {ClientClosed, WriteFailed} \<and>
    client \<notin> activeConn (snd (snd (Handler_Handler (Exec env) net client rd r)))"
  using assms by (rule closed_socket_handler)

theorem closed_socket_ends_handler_witness:
  "fst (Handler_Handler (Exec (\<lambda>n. n, default_properties, \<lambda>n. None)) (\<lambda>n. None) 3
      \<lparr>unread = [], read_err = NetError ''use of closed network connection''\<rparr>
      \<lparr>activeConn = {}, handler_db = empty_server 1, closing = False\<rparr>) \<in> {ClientClosed, WriteFailed}"
proof -
  let ?rd = "\<lparr>unread = [], read_err = NetError ''use of closed network connection''\<rparr>"
  have "is_closed_err (read_err ?rd)" by (auto simp: is_closed_err_def closed_text_def intro!: exI [of _ 0])
  moreover have "snd (ParseStream ?rd) = Closed" by (simp add: ParseStream_def parse0_def)
  ultimately show ?thesis
    using closed_socket_ends_handler [of ?rd "\<lparr>activeConn = {}, handler_db = empty_server 1, closing = False\<rparr>"
      "(\<lambda>n. n, default_properties, \<lambda>n. None)" "\<lambda>n. None" 3] by simp
qed

end
