(* ===== verification/ClientLife.thy ===== *)
theory ClientLife
  imports Client
begin

text \<open>
  The life of a pooled client, from \<^verbatim>\<open>Start\<close> to the end of \<^verbatim>\<open>Close\<close> (\<^verbatim>\<open>resp/client/client.go\<close>): the
  callers of \<^verbatim>\<open>Send\<close>, which give up after \<^verbatim>\<open>maxWait\<close>, the heartbeat's ticker, the wait group
  \<^verbatim>\<open>working\<close> that \<^verbatim>\<open>Close\<close> waits for, and the two channels it closes, around the goroutines of
  \<open>Client\<close>.

  \<^verbatim>\<open>working\<close> counts the callers and not the requests: a caller whose time is up is gone while its
  request is still on its way.  The properties say that closing is clean when no caller gives up
  and no heartbeat is due, and that either of the two can crash the program.
\<close>

declare reqs_frame [simp del] conn_write_frame [simp del]

section \<open>State and steps\<close>

text \<open>
  \<open>entering\<close> are the calls that have joined \<^verbatim>\<open>working\<close> and are about to send on \<^verbatim>\<open>pendingReqs\<close>
  (with \<open>True\<close> for a heartbeat), \<open>callers\<close> the requests somebody waits for; \<open>ticked\<close> is a tick that the
  heartbeat has yet to act on.  \<open>closed_at\<close> is the number of writes when the socket was closed: the next
  one fails.
\<close>

record ClientLife =
  cl :: Client
  entering :: "(CmdLine \<times> bool) list"
  callers :: "nat set"
  working :: int
  ticker :: bool
  ticked :: bool
  closed_at :: "nat option"
  waiting_closed :: bool

definition Start :: ClientLife where
  "Start = \<lparr>cl = MakeClient, entering = [], callers = {}, working = 0, ticker = True, ticked = False,
     closed_at = None, waiting_closed = False\<rparr>"

datatype life_event =
    CallSend CmdLine
  | Tick
  | Beat
  | Push nat
  | Goroutine client_event
  | Released nat
  | TimedOut nat
  | CloseBegins
  | CloseEnds

definition net_after :: "nat option \<Rightarrow> write_fault \<Rightarrow> write_fault" where
  "net_after closed net n = (if closed = Some n then Some 0 else net n)"

text \<open>A call leaves \<^verbatim>\<open>working\<close>, by the deferred \<^verbatim>\<open>Done\<close>.\<close>

definition leave :: "nat \<Rightarrow> ClientLife \<Rightarrow> ClientLife" where
  "leave i s = s\<lparr>callers := callers s - {i}, working := working s - 1\<rparr>"

text \<open>
  The send on \<^verbatim>\<open>pendingReqs\<close>.  On a closed channel it panics: the panic of a \<^verbatim>\<open>Send\<close> is recovered by the
  cluster node's \<^verbatim>\<open>Exec\<close>, that of the heartbeat's goroutine by nobody.
\<close>

definition push :: "nat \<Rightarrow> ClientLife \<Rightarrow> ClientLife go option" where
  "push n s =
     (if n < length (entering s) then
        (let (as, hb) = entering s ! n; s = s\<lparr>entering := take n (entering s) @ drop (Suc n) (entering s)\<rparr> in
         case enqueue as hb (cl s) of
           None \<Rightarrow> None
         | Some (Inl p) \<Rightarrow> Some (if hb then Inl p else Inr (s\<lparr>working := working s - 1\<rparr>))
         | Some (Inr c) \<Rightarrow> Some (Inr (s\<lparr>cl := c, callers := insert (length (reqs (cl s))) (callers s)\<rparr>)))
      else None)"

text \<open>
  The goroutines, after \<^verbatim>\<open>Close\<close> too: passing a request on then panics, and the reader gets nil from the
  closed channel.
\<close>

definition goroutine ::
  "write_fault \<Rightarrow> (nat \<Rightarrow> go_error option) \<Rightarrow> client_event \<Rightarrow> ClientLife \<Rightarrow> ClientLife go option" where
  "goroutine net redial ev s =
     (let run = map_option (\<lambda>c. Inr (s\<lparr>cl := c\<rparr>)) (client_step (net_after (closed_at s) net) redial ev (cl s)) in
      case ev of
        Enqueue as hb \<Rightarrow> None
      | Write \<Rightarrow> run
      | PassOn \<Rightarrow> if waiting_closed s \<and> inflight (cl s) \<noteq> None then Some (Inl ClosedChannel) else run
      | Read p \<Rightarrow> if waiting_closed s \<and> waitingReqs (cl s) = [] then Some (Inr s) else run)"

text \<open>\<^verbatim>\<open>Close\<close> up to its wait, and the rest of it.\<close>

definition close_begins :: "ClientLife \<Rightarrow> ClientLife go option" where
  "close_begins s =
     (case client_Close (cl s) of
        Inl p \<Rightarrow> None
      | Inr c \<Rightarrow> Some (Inr (s\<lparr>cl := c, ticker := False\<rparr>)))"

definition close_ends :: "ClientLife \<Rightarrow> ClientLife go option" where
  "close_ends s =
     (if client_closed (cl s) \<and> working s = 0 \<and> \<not> waiting_closed s
      then Some (Inr (s\<lparr>closed_at := Some (writes (wire (cl s))), waiting_closed := True\<rparr>)) else None)"

text \<open>
  One step: \<open>None\<close> if it is not enabled, \<open>Inl\<close> if it crashes the program.  The pool closes a client
  once.
\<close>

fun life_step ::
  "write_fault \<Rightarrow> (nat \<Rightarrow> go_error option) \<Rightarrow> life_event \<Rightarrow> ClientLife \<Rightarrow> ClientLife go option" where
  "life_step net redial (CallSend as) s =
     Some (Inr (s\<lparr>entering := entering s @ [(as, False)], working := working s + 1\<rparr>))"
| "life_step net redial Tick s = (if ticker s \<and> \<not> ticked s then Some (Inr (s\<lparr>ticked := True\<rparr>)) else None)"
| "life_step net redial Beat s =
     (if ticked s then
        Some (Inr (s\<lparr>ticked := False, entering := entering s @ [([''PING''], True)], working := working s + 1\<rparr>))
      else None)"
| "life_step net redial (Push n) s = push n s"
| "life_step net redial (Goroutine ev) s = goroutine net redial ev s"
| "life_step net redial (Released i) s =
     (if i \<in> callers s \<and> waiting (reqs (cl s) ! i) = 0 then Some (Inr (leave i s)) else None)"
| "life_step net redial (TimedOut i) s = (if i \<in> callers s then Some (Inr (leave i s)) else None)"
| "life_step net redial CloseBegins s = close_begins s"
| "life_step net redial CloseEnds s = close_ends s"

fun life_run ::
  "write_fault \<Rightarrow> (nat \<Rightarrow> go_error option) \<Rightarrow> life_event list \<Rightarrow> ClientLife \<Rightarrow> ClientLife go option" where
  "life_run net redial [] s = Some (Inr s)"
| "life_run net redial (ev # evs) s =
     (case life_step net redial ev s of
        Some (Inr s') \<Rightarrow> life_run net redial evs s'
      | other \<Rightarrow> other)"

section \<open>Invariants\<close>

text \<open>What a step of a goroutine does to the requests: one is released, or none changes.\<close>

lemma handleConnectionError_closed: "handleConnectionError redial c = (e, c') \<Longrightarrow> client_closed c' = client_closed c"
  by (auto simp: handleConnectionError_def Let_def split: option.splits)

lemma conn_write_closed: "conn_write net bs c = (e, c') \<Longrightarrow> client_closed c' = client_closed c"
  by (auto simp: conn_write_def split: prod.splits)

lemma retry_loop_closed: "retry_loop net redial bs n err c = (e, c') \<Longrightarrow> client_closed c' = client_closed c"
proof (induction n arbitrary: err c)
  case (Suc n)
  obtain e1 c1 where h: "handleConnectionError redial c = (e1, c1)" by (cases "handleConnectionError redial c")
  then have 1: "client_closed c1 = client_closed c" by (rule handleConnectionError_closed)
  obtain e2 c2 where w: "conn_write net bs c1 = (e2, c2)" by (cases "conn_write net bs c1")
  then have 2: "client_closed c2 = client_closed c1" by (rule conn_write_closed)
  show ?case
  proof (cases err)
    case None
    with Suc.prems show ?thesis by simp
  next
    case (Some e0)
    with Suc.prems h w have "retry_loop net redial bs n e1 c1 = (e, c') \<or> retry_loop net redial bs n e2 c2 = (e, c')"
      by (cases e1) simp_all
    with Suc.IH 1 2 show ?thesis by metis
  qed
qed simp

definition one_released :: "Client \<Rightarrow> Client \<Rightarrow> bool" where
  "one_released c c' \<longleftrightarrow> client_closed c' = client_closed c \<and>
     (reqs c' = reqs c \<or> (\<exists>i r. reqs c' = (reqs c)[i := r] \<and> waiting r = waiting (reqs c ! i) - 1))"

lemma one_released_update:
  "reqs c' = (reqs c)[i := r] \<Longrightarrow> waiting r = waiting (reqs c ! i) - 1 \<Longrightarrow> client_closed c' = client_closed c \<Longrightarrow>
   one_released c c'"
  by (auto simp: one_released_def)

lemma doRequest_reqs: "one_released c (doRequest net redial i c)"
proof -
  let ?bs = "ToBytes (MakeMultiBulkReply (req_args (reqs c ! i)))"
  obtain e1 c1 where w: "conn_write net ?bs c = (e1, c1)" by (cases "conn_write net ?bs c")
  obtain e2 c2 where l: "retry_loop net redial ?bs 3 e1 c1 = (e2, c2)" by (cases "retry_loop net redial ?bs 3 e1 c1")
  have "client_closed c1 = client_closed c" using w by (rule conn_write_closed)
  then have "reqs c2 = reqs c" "client_closed c2 = client_closed c"
    using conn_write_frame [OF w] retry_loop_frame [OF l] retry_loop_closed [OF l] by simp_all
  moreover have "doRequest net redial i c =
      (if req_args (reqs c ! i) = [] then c else if e2 = None then c2\<lparr>inflight := Some i\<rparr>
       else update_req i (\<lambda>r. req_done (r\<lparr>req_err := e2\<rparr>)) c2)"
    using w l by (simp add: doRequest_def)
  moreover have "one_released c (update_req i (\<lambda>r. req_done (r\<lparr>req_err := e2\<rparr>)) c2)"
    using calculation(1,2)
    by (intro one_released_update [of _ _ i "req_done ((reqs c ! i)\<lparr>req_err := e2\<rparr>)"])
      (simp_all add: update_req_def req_done_def)
  ultimately show ?thesis by (simp add: one_released_def)
qed

lemma client_step_reqs:
  assumes "client_step net redial ev c = Some c'" and "\<not> is_enqueue ev"
  shows "one_released c c'"
proof (cases ev)
  case (Enqueue as hb)
  with assms(2) show ?thesis by (simp add: is_enqueue_def)
next
  case Write
  with assms obtain i "is" where "c' = doRequest net redial i (c\<lparr>pendingReqs := is\<rparr>)"
    by (auto simp: handleWrite_def split: option.splits list.splits)
  with doRequest_reqs [of "c\<lparr>pendingReqs := is\<rparr>" net redial i] show ?thesis by (simp add: one_released_def)
next
  case PassOn
  with assms show ?thesis by (auto simp: pass_on_def one_released_def split: option.splits if_splits)
next
  case (Read p)
  with assms obtain i "is" where
    "c' = update_req i (\<lambda>q. req_done (q\<lparr>req_reply := payload_reply p\<rparr>)) (c\<lparr>waitingReqs := is\<rparr>)"
    by (auto simp: handleRead_body_def finishRequest_def split: list.splits)
  then show ?thesis
    by (intro one_released_update [of _ _ i "req_done ((reqs c ! i)\<lparr>req_reply := payload_reply p\<rparr>)"])
      (simp_all add: update_req_def req_done_def)
qed

lemma one_released_waiting:
  assumes "one_released c c'" and "client_inv c"
  shows "length (reqs c') = length (reqs c) \<and> (\<forall>i < length (reqs c). waiting (reqs c' ! i) \<le> waiting (reqs c ! i))"
proof -
  have "waiting ((reqs c)[i := r] ! j) \<le> waiting (reqs c ! j)"
    if "waiting r = waiting (reqs c ! i) - 1" "j < length (reqs c)" for i j r
    using that by (cases "i = j") simp_all
  with assms show ?thesis by (auto simp: one_released_def)
qed

text \<open>A goroutine steps, or crashes on the closed channel, or idles.\<close>

lemma goroutine_cases:
  assumes "goroutine net redial ev s = Some r"
  obtains (steps) c where "r = Inr (s\<lparr>cl := c\<rparr>)" "\<not> is_enqueue ev"
      "client_step (net_after (closed_at s) net) redial ev (cl s) = Some c"
  | (crash) "r = Inl ClosedChannel" "waiting_closed s" "inflight (cl s) \<noteq> None"
  | (idle) "r = Inr s"
  using assms by (cases ev) (auto simp: goroutine_def Let_def is_enqueue_def split: if_splits)

text \<open>The wait group counts the calls, before and after the send on the channel.\<close>

definition life_inv :: "ClientLife \<Rightarrow> bool" where
  "life_inv s \<longleftrightarrow> client_inv (cl s) \<and> callers s \<subseteq> {..<length (reqs (cl s))} \<and>
     working s = int (length (entering s)) + int (card (callers s)) \<and>
     (waiting_closed s \<longrightarrow> client_closed (cl s))"

lemma life_inv_Start: "life_inv Start"
  using client_inv_MakeClient by (simp add: life_inv_def Start_def)

lemma enqueue_Inr: "enqueue as hb c = Some (Inr c') \<Longrightarrow>
  client_step net redial (Enqueue as hb) c = Some c' \<and> client_closed c' = client_closed c \<and> \<not> client_closed c \<and>
  reqs c' = reqs c @ [\<lparr>req_args = as, req_reply = None, heartbeat = hb, waiting = 1, req_err = None\<rparr>]"
  by (auto simp: enqueue_def split: if_splits)

lemma leave_inv: "life_inv s \<Longrightarrow> i \<in> callers s \<Longrightarrow> life_inv (leave i s)"
proof -
  assume s: "life_inv s" "i \<in> callers s"
  then have "finite (callers s)" by (auto simp: life_inv_def intro: finite_subset)
  then have "0 < card (callers s)" "card (callers s - {i}) = card (callers s) - 1"
    using s(2) by (auto simp: card_gt_0_iff card_Diff_singleton)
  with s show ?thesis by (auto simp: life_inv_def leave_def)
qed

lemma push_inv:
  assumes "life_inv s" and "push n s = Some (Inr s')"
  shows "life_inv s'"
proof -
  have n: "n < length (entering s)" using assms(2) by (auto simp: push_def split: if_splits)
  obtain as hb where e: "entering s ! n = (as, hb)" by (cases "entering s ! n")
  have fin: "finite (callers s)" using assms(1) by (auto simp: life_inv_def intro: finite_subset)
  have len: "length (take n (entering s) @ drop (Suc n) (entering s)) = length (entering s) - 1" using n by simp
  from assms(2) n e consider
    (panics) p where "enqueue as hb (cl s) = Some (Inl p)"
      "s' = s\<lparr>entering := take n (entering s) @ drop (Suc n) (entering s), working := working s - 1\<rparr>"
  | (sends) c where "enqueue as hb (cl s) = Some (Inr c)"
      "s' = s\<lparr>entering := take n (entering s) @ drop (Suc n) (entering s), cl := c,
        callers := insert (length (reqs (cl s))) (callers s)\<rparr>"
    by (auto simp: push_def Let_def split: option.splits sum.splits if_splits)
  then show ?thesis
  proof cases
    case panics
    with assms(1) n len show ?thesis by (auto simp: life_inv_def)
  next
    case sends
    note c = enqueue_Inr [OF sends(1), of "\<lambda>n. None" "\<lambda>n. None"]
    have "client_inv (cl s)" using assms(1) by (simp add: life_inv_def)
    with c client_step_inv have "client_inv c" by blast
    moreover have "length (reqs (cl s)) \<notin> callers s" using assms(1) by (auto simp: life_inv_def)
    ultimately show ?thesis using assms(1) sends(2) c n len fin by (auto simp: life_inv_def)
  qed
qed

lemma life_step_inv:
  assumes "life_inv s" and "life_step net redial ev s = Some (Inr s')"
  shows "life_inv s'"
proof (cases ev)
  case (Goroutine e)
  with assms(2) have "goroutine net redial e s = Some (Inr s')" by simp
  then show ?thesis
  proof (cases rule: goroutine_cases)
    case (steps c)
    have inv: "client_inv (cl s)" using assms(1) by (simp add: life_inv_def)
    note r = client_step_reqs [OF steps(3,2)]
    from client_step_inv [OF inv steps(3)] one_released_waiting [OF r inv] r assms(1) steps(1) show ?thesis
      by (auto simp: life_inv_def one_released_def)
  qed (use assms(1) in auto)
next
  case (Push n)
  with assms push_inv show ?thesis by simp
next
  case CloseBegins
  with assms have "s' = s\<lparr>cl := (cl s)\<lparr>client_closed := True\<rparr>, ticker := False\<rparr>"
    by (auto simp: close_begins_def client_Close_def split: if_splits)
  moreover have "client_inv ((cl s)\<lparr>client_closed := True\<rparr>)" if "client_inv (cl s)"
    using that by (simp add: client_inv_def queued_def)
  ultimately show ?thesis using assms(1) by (simp add: life_inv_def)
next
  case CloseEnds
  with assms show ?thesis by (auto simp: close_ends_def life_inv_def split: if_splits)
next
  case (Released i)
  with assms show ?thesis by (auto simp: leave_inv split: if_splits)
next
  case (TimedOut i)
  with assms show ?thesis by (auto simp: leave_inv split: if_splits)
next
  case (CallSend as)
  with assms show ?thesis by (auto simp: life_inv_def)
next
  case Tick
  with assms show ?thesis by (auto simp: life_inv_def split: if_splits)
next
  case Beat
  with assms show ?thesis by (auto simp: life_inv_def split: if_splits)
qed


section \<open>Calm runs\<close>

text \<open>No heartbeat becomes due and no caller gives up.\<close>

fun calm :: "life_event \<Rightarrow> bool" where
  "calm Tick = False"
| "calm (TimedOut i) = False"
| "calm _ = True"

text \<open>Every request that has not been released has its caller, so nothing is left when \<^verbatim>\<open>working\<close> is zero.\<close>

definition calm_inv :: "ClientLife \<Rightarrow> bool" where
  "calm_inv s \<longleftrightarrow> life_inv s \<and> \<not> ticked s \<and> list_all (\<lambda>(as, hb). \<not> hb) (entering s) \<and>
     (\<forall>i < length (reqs (cl s)). waiting (reqs (cl s) ! i) \<noteq> 0 \<longrightarrow> i \<in> callers s) \<and>
     (waiting_closed s \<longrightarrow> queued (cl s) = [] \<and> (\<forall>q \<in> set (reqs (cl s)). waiting q = 0))"

lemma calm_inv_Start: "calm_inv Start"
  using life_inv_Start by (simp add: calm_inv_def Start_def MakeClient_def)

lemma nothing_left:
  assumes "calm_inv s" and "working s = 0"
  shows "queued (cl s) = []" "\<forall>q \<in> set (reqs (cl s)). waiting q = 0"
proof -
  have "finite (callers s)" using assms(1) by (auto simp: calm_inv_def life_inv_def intro: finite_subset)
  moreover have "card (callers s) = 0" using assms by (simp add: calm_inv_def life_inv_def)
  ultimately have "callers s = {}" by simp
  with assms(1) have w: "\<forall>i < length (reqs (cl s)). waiting (reqs (cl s) ! i) = 0" by (auto simp: calm_inv_def)
  then show "\<forall>q \<in> set (reqs (cl s)). waiting q = 0" by (auto simp: in_set_conv_nth)
  have "\<forall>i \<in> set (queued (cl s)). i < length (reqs (cl s)) \<and> waiting (reqs (cl s) ! i) = 1"
    using assms(1) by (simp add: calm_inv_def life_inv_def client_inv_def)
  with w show "queued (cl s) = []" by (cases "queued (cl s)") auto
qed

lemma goroutine_calm:
  assumes "calm_inv s" and "goroutine net redial ev s = Some r"
  shows "\<exists>s'. r = Inr s' \<and> calm_inv s'"
  using assms(2)
proof (cases rule: goroutine_cases)
  case (steps c)
  have inv: "client_inv (cl s)" using assms(1) by (simp add: calm_inv_def life_inv_def)
  note w = one_released_waiting [OF client_step_reqs [OF steps(3,2)] inv]
  have open_: "\<not> waiting_closed s"
  proof
    assume "waiting_closed s"
    then have "queued (cl s) = []" using assms(1) by (simp add: calm_inv_def)
    with steps(2,3) show False
      by (cases ev) (auto simp: queued_def is_enqueue_def handleWrite_def pass_on_def handleRead_body_def finishRequest_def
          split: option.splits)
  qed
  have "life_step net redial (Goroutine ev) s = Some (Inr (s\<lparr>cl := c\<rparr>))" using assms(2) steps(1) by simp
  moreover have "life_inv s" using assms(1) by (simp add: calm_inv_def)
  ultimately have "life_inv (s\<lparr>cl := c\<rparr>)" using life_step_inv by blast
  moreover have "waiting (reqs (cl s) ! i) \<noteq> 0" if "i < length (reqs c)" "waiting (reqs c ! i) \<noteq> 0" for i
  proof -
    have "client_inv c" using client_step_inv [OF inv steps(3)] .
    then have "waiting (reqs c ! i) \<in> {0, 1}" using that(1) by (auto simp: client_inv_def)
    with that w show ?thesis by fastforce
  qed
  ultimately have "calm_inv (s\<lparr>cl := c\<rparr>)" using assms(1) w open_ by (simp add: calm_inv_def)
  with steps(1) show ?thesis by blast
next
  case crash
  then have "inflight (cl s) = None" using assms(1) by (auto simp: calm_inv_def queued_def split: option.splits)
  with crash show ?thesis by simp
next
  case idle
  with assms(1) show ?thesis by simp
qed

lemma push_calm:
  assumes "calm_inv s" and "push n s = Some r"
  shows "\<exists>s'. r = Inr s' \<and> calm_inv s'"
proof -
  have n: "n < length (entering s)" using assms(2) by (auto simp: push_def split: if_splits)
  then have "entering s ! n \<in> set (entering s)" by simp
  with assms(1) obtain as where e: "entering s ! n = (as, False)" by (force simp: calm_inv_def list_all_iff)
  let ?rest = "take n (entering s) @ drop (Suc n) (entering s)"
  have rest: "list_all (\<lambda>(as, hb). \<not> hb) ?rest"
    using assms(1) by (auto simp: calm_inv_def list_all_iff dest: in_set_takeD in_set_dropD)
  obtain s' where r: "r = Inr s'" using assms(2) n e by (auto simp: push_def Let_def split: option.splits sum.splits)
  have inv: "life_inv s'" using push_inv [of s n s'] assms r by (simp add: calm_inv_def)
  from assms(2) n e r consider
    (panics) "s' = s\<lparr>entering := ?rest, working := working s - 1\<rparr>"
  | (sends) c where "enqueue as False (cl s) = Some (Inr c)"
      "s' = s\<lparr>entering := ?rest, cl := c, callers := insert (length (reqs (cl s))) (callers s)\<rparr>"
    by (auto simp: push_def Let_def split: option.splits sum.splits)
  then have "calm_inv s'"
  proof cases
    case panics
    with assms(1) inv rest show ?thesis by (simp add: calm_inv_def)
  next
    case sends
    note c = enqueue_Inr [OF sends(1), of "\<lambda>n. None" "\<lambda>n. None"]
    then have "\<not> waiting_closed s" using assms(1) by (auto simp: calm_inv_def life_inv_def)
    with assms(1) inv rest sends(2) c show ?thesis by (auto simp: calm_inv_def nth_append)
  qed
  with r show ?thesis by blast
qed

lemma calm_step:
  assumes "calm_inv s" and "calm ev" and "life_step net redial ev s = Some r"
  shows "\<exists>s'. r = Inr s' \<and> calm_inv s'"
proof (cases ev)
  case (Goroutine e)
  with assms show ?thesis by (auto intro: goroutine_calm)
next
  case (Push n)
  with assms show ?thesis by (auto intro: push_calm)
next
  case CloseEnds
  then have s: "working s = 0" "r = Inr (s\<lparr>closed_at := Some (writes (wire (cl s))), waiting_closed := True\<rparr>)"
    using assms(3) by (auto simp: close_ends_def split: if_splits)
  have "life_inv s" using assms(1) by (simp add: calm_inv_def)
  then have "life_inv (s\<lparr>closed_at := Some (writes (wire (cl s))), waiting_closed := True\<rparr>)"
    using life_step_inv [of s net redial ev] assms(3) s(2) by blast
  with assms(1) nothing_left [OF assms(1) s(1)] s(2) show ?thesis by (simp add: calm_inv_def)
next
  case (Released i)
  then have s: "i \<in> callers s" "waiting (reqs (cl s) ! i) = 0" "r = Inr (leave i s)"
    using assms(3) by (auto split: if_splits)
  have "life_inv (leave i s)" using assms(1) s(1) by (simp add: calm_inv_def leave_inv)
  with assms(1) s show ?thesis by (auto simp: calm_inv_def leave_def)
next
  case CloseBegins
  then obtain s' where s: "r = Inr s'" "s' = s\<lparr>cl := (cl s)\<lparr>client_closed := True\<rparr>, ticker := False\<rparr>"
    using assms(3) by (auto simp: close_begins_def client_Close_def split: if_splits)
  have "life_inv s" using assms(1) by (simp add: calm_inv_def)
  then have "life_inv s'" using life_step_inv assms(3) s(1) by blast
  with assms(1) s show ?thesis by (simp add: calm_inv_def queued_def)
next
  case (CallSend as)
  have "life_inv s" using assms(1) by (simp add: calm_inv_def)
  then show ?thesis using assms CallSend by (auto simp: calm_inv_def life_inv_def)
next
  case Beat
  with assms show ?thesis by (simp add: calm_inv_def)
qed (use assms(2) in simp_all)

lemma calm_run:
  "life_run net redial evs s = Some r \<Longrightarrow> \<forall>ev \<in> set evs. calm ev \<Longrightarrow> calm_inv s \<Longrightarrow> \<exists>s'. r = Inr s' \<and> calm_inv s'"
proof (induction evs arbitrary: s)
  case (Cons ev evs)
  then obtain r1 where r1: "life_step net redial ev s = Some r1" by (auto split: option.splits)
  with Cons.prems calm_step obtain s1 where "r1 = Inr s1" "calm_inv s1" by (metis list.set_intros(1))
  with Cons r1 show ?case by auto
qed auto

section \<open>Closing comes to an end\<close>

text \<open>Calls that have not been sent fail on the closed channel.\<close>

lemma entering_drain:
  assumes "client_closed (cl s)" and "list_all (\<lambda>(as, hb). \<not> hb) (entering s)"
  shows "life_run net redial (replicate (length (entering s)) (Push 0)) s =
    Some (Inr (s\<lparr>entering := [], working := working s - int (length (entering s))\<rparr>))"
  using assms
proof (induction "entering s" arbitrary: s)
  case Nil
  then show ?case by simp
next
  case (Cons e es)
  obtain as where e: "e = (as, False)" using Cons.prems(2) Cons.hyps(2) [symmetric] by (cases e) auto
  let ?s = "s\<lparr>entering := es, working := working s - 1\<rparr>"
  have "push 0 s = Some (Inr ?s)"
    using Cons.hyps(2) [symmetric] Cons.prems(1) by (simp add: push_def enqueue_def e)
  moreover have "life_run net redial (replicate (length es) (Push 0)) ?s =
      Some (Inr (?s\<lparr>entering := [], working := working ?s - int (length es)\<rparr>))"
    using Cons.hyps(1) [of ?s] Cons.prems Cons.hyps(2) [symmetric] by simp
  ultimately show ?case using Cons.hyps(2) [symmetric] by simp
qed

text \<open>The callers give up.\<close>

lemma callers_drain:
  assumes "finite C"
  shows "callers s = C \<Longrightarrow> \<exists>evs. life_run net redial evs s =
    Some (Inr (s\<lparr>callers := {}, working := working s - int (card C)\<rparr>))"
  using assms
proof (induction C arbitrary: s rule: finite_induct)
  case empty
  then show ?case by (intro exI [of _ "[]"]) simp
next
  case (insert i C)
  have "callers (leave i s) = C" using insert by (auto simp: leave_def)
  from insert.IH [OF this] obtain evs where "life_run net redial evs (leave i s) =
    Some (Inr ((leave i s)\<lparr>callers := {}, working := working (leave i s) - int (card C)\<rparr>))" by blast
  with insert show ?case by (intro exI [of _ "TimedOut i # evs"]) (simp add: leave_def)
qed

lemma life_run_append:
  "life_run net redial evs s = Some (Inr s1) \<Longrightarrow> life_run net redial (evs @ evs') s = life_run net redial evs' s1"
  by (induction evs arbitrary: s) (auto split: option.splits sum.splits)

lemma close_can_end:
  assumes "life_inv s" and "list_all (\<lambda>(as, hb). \<not> hb) (entering s)" and "client_closed (cl s)" and "\<not> waiting_closed s"
  shows "\<exists>evs s'. life_run net redial evs s = Some (Inr s') \<and> waiting_closed s'"
proof -
  define s1 where "s1 = s\<lparr>entering := [], working := working s - int (length (entering s))\<rparr>"
  have "finite (callers s)" using assms(1) by (auto simp: life_inv_def intro: finite_subset)
  then obtain evs where 2: "life_run net redial evs s1 =
      Some (Inr (s1\<lparr>callers := {}, working := working s1 - int (card (callers s))\<rparr>))"
    using callers_drain [of "callers s" s1 net redial] by (auto simp: s1_def)
  have "working s1 - int (card (callers s)) = 0" using assms(1) by (simp add: s1_def life_inv_def)
  then obtain s3 where 3: "close_ends (s1\<lparr>callers := {}, working := working s1 - int (card (callers s))\<rparr>) = Some (Inr s3)"
    "waiting_closed s3" using assms(3,4) by (auto simp: close_ends_def s1_def)
  note 1 = entering_drain [OF assms(3,2), of net redial, folded s1_def]
  have "life_run net redial (evs @ [CloseEnds]) s1 = Some (Inr s3)"
    unfolding life_run_append [OF 2] using 3(1) by simp
  with life_run_append [OF 1, of "evs @ [CloseEnds]"] 3(2) show ?thesis by metis
qed

section \<open>Properties\<close>

text \<open>
  C24 (calm_close_is_clean). While no caller gives up and no heartbeat becomes due, nothing crashes, whatever the
  socket does and whenever the client is closed.  When \<^verbatim>\<open>Close\<close> has closed the channels no request is on its
  way and every one has been released; a \<^verbatim>\<open>Close\<close> that has begun can come to its end, at the latest
  when the callers give up.
\<close>

theorem calm_close_is_clean:
  assumes "life_run net redial evs Start = Some r" and "\<forall>ev \<in> set evs. calm ev"
  shows "\<exists>s. r = Inr s \<and>
    (waiting_closed s \<longrightarrow> queued (cl s) = [] \<and> (\<forall>q \<in> set (reqs (cl s)). waiting q = 0)) \<and>
    (client_closed (cl s) \<and> \<not> waiting_closed s \<longrightarrow>
      (\<exists>evs' s'. life_run net redial evs' s = Some (Inr s') \<and> waiting_closed s'))"
proof -
  from calm_run [OF assms calm_inv_Start] obtain s where s: "r = Inr s" "calm_inv s" by blast
  then have "life_inv s" "list_all (\<lambda>(as, hb). \<not> hb) (entering s)" by (simp_all add: calm_inv_def)
  with s close_can_end [of s net redial] show ?thesis by (simp add: calm_inv_def)
qed

theorem calm_close_is_clean_witness:
  "\<exists>s. life_run (\<lambda>n. None) (\<lambda>n. None) [CallSend [''PING''], Push 0, CloseBegins, Goroutine Write, Goroutine PassOn,
      Goroutine (Read \<lparr>Data = Some OkReply, Err = None\<rparr>), Released 0, CloseEnds] Start = Some (Inr s) \<and>
    waiting_closed s \<and> queued (cl s) = [] \<and> (\<forall>q \<in> set (reqs (cl s)). waiting q = 0)"
proof -
  let ?evs = "[CallSend [''PING''], Push 0, CloseBegins, Goroutine Write, Goroutine PassOn,
      Goroutine (Read \<lparr>Data = Some OkReply, Err = None\<rparr>), Released 0, CloseEnds]"
  obtain s where s: "life_run (\<lambda>n. None) (\<lambda>n. None) ?evs Start = Some (Inr s)" "waiting_closed s"
    by (simp add: Start_def MakeClient_def push_def enqueue_def chanSize_def close_begins_def client_Close_def
        goroutine_def handleWrite_def pass_on_def doRequest_ok handleRead_body_def finishRequest_def update_req_def
        req_done_def leave_def close_ends_def net_after_def)
  with calm_close_is_clean [OF s(1)] show ?thesis by auto
qed

text \<open>\<^verbatim>\<open>doRequest\<close> on a socket that \<^verbatim>\<open>Close\<close> has closed: the write fails, the client dials again and writes.\<close>

lemma doRequest_redials:
  assumes "\<forall>n. net n = None" and "\<forall>n. redial n = None" and "req_args (reqs c ! i) \<noteq> []"
  shows "\<exists>c'. doRequest (net_after (Some (writes (wire c))) net) redial i c = c' \<and> inflight c' = Some i"
  using assms
  by (simp add: doRequest_def conn_write_def sink_write_def handleConnectionError_def net_after_def eval_nat_numeral
      Let_def MakeMultiBulkReply_def)

lemma life_run_inv:
  "life_run net redial evs s = Some (Inr s') \<Longrightarrow> life_inv s \<Longrightarrow> life_inv s'"
proof (induction evs arbitrary: s)
  case (Cons ev evs)
  then obtain s1 where "life_step net redial ev s = Some (Inr s1)" "life_run net redial evs s1 = Some (Inr s')"
    by (auto split: option.splits sum.splits)
  with Cons.IH life_step_inv Cons.prems(2) show ?case by blast
qed simp

text \<open>
  C25 (close_can_crash). Take any state a client can get into before it is closed, whatever failed so far, and a network
  that works from then on.  If no call is outstanding but a request is not passed on yet, because its caller
  gave up, then closing the client can crash the program: \<^verbatim>\<open>Close\<close> runs through at once, and the writer, which
  dials again if it has to, sends on a closed channel.  If a heartbeat is due, closing can crash it, too: the
  heartbeat is sent on the closed channel of requests.
\<close>

theorem close_can_crash:
  assumes "life_run net0 redial0 evs Start = Some (Inr s)" and "\<not> client_closed (cl s)"
    and "\<forall>n. net n = None" and "\<forall>n. redial n = None"
  shows "(entering s = [] \<and> callers s = {} \<and>
      (inflight (cl s) \<noteq> None \<or> (\<exists>i is. pendingReqs (cl s) = i # is \<and> req_args (reqs (cl s) ! i) \<noteq> [])) \<longrightarrow>
      life_run net redial ([CloseBegins, CloseEnds] @ (if inflight (cl s) = None then [Goroutine Write] else []) @
        [Goroutine PassOn]) s = Some (Inl ClosedChannel)) \<and>
    (ticked s \<longrightarrow> life_run net redial [CloseBegins, Beat, Push (length (entering s))] s = Some (Inl ClosedChannel))"
proof (intro conjI impI)
  have inv: "life_inv s" by (rule life_run_inv [OF assms(1) life_inv_Start])
  then have open_: "\<not> waiting_closed s" using assms(2) by (auto simp: life_inv_def)
  show "life_run net redial [CloseBegins, Beat, Push (length (entering s))] s = Some (Inl ClosedChannel)" if "ticked s"
    using that assms(2) by (simp add: close_begins_def client_Close_def push_def enqueue_def)
  assume left: "entering s = [] \<and> callers s = {} \<and>
      (inflight (cl s) \<noteq> None \<or> (\<exists>i is. pendingReqs (cl s) = i # is \<and> req_args (reqs (cl s) ! i) \<noteq> []))"
  define c where "c = (cl s)\<lparr>client_closed := True\<rparr>"
  define s1 where "s1 = s\<lparr>cl := c, ticker := False, closed_at := Some (writes (wire c)), waiting_closed := True\<rparr>"
  have "working s = 0" using inv left by (simp add: life_inv_def)
  then have close: "life_run net redial [CloseBegins, CloseEnds] s = Some (Inr s1)"
    using assms(2) open_ by (simp add: close_begins_def client_Close_def close_ends_def s1_def c_def)
  have "life_run net redial ((if inflight (cl s) = None then [Goroutine Write] else []) @ [Goroutine PassOn]) s1 =
      Some (Inl ClosedChannel)"
  proof (cases "inflight (cl s)")
    case (Some i)
    then show ?thesis by (simp add: goroutine_def s1_def c_def)
  next
    case None
    with left obtain i "is" where p: "pendingReqs (cl s) = i # is" "req_args (reqs (cl s) ! i) \<noteq> []" by auto
    have "\<exists>c'. doRequest (net_after (Some (writes (wire (c\<lparr>pendingReqs := is\<rparr>)))) net) redial i (c\<lparr>pendingReqs := is\<rparr>) = c' \<and>
        inflight c' = Some i"
      by (rule doRequest_redials [OF assms(3,4)]) (use p(2) in \<open>simp add: c_def\<close>)
    then obtain c' where c': "doRequest (net_after (Some (writes (wire c))) net) redial i (c\<lparr>pendingReqs := is\<rparr>) = c'"
        "inflight c' = Some i" by auto
    then have "handleWrite (net_after (closed_at s1) net) redial (cl s1) = Some c'"
      using None p(1) by (simp add: handleWrite_def s1_def c_def)
    then have "goroutine net redial Write s1 = Some (Inr (s1\<lparr>cl := c'\<rparr>))" by (simp add: goroutine_def)
    moreover have "goroutine net redial PassOn (s1\<lparr>cl := c'\<rparr>) = Some (Inl ClosedChannel)"
      using c'(2) by (simp add: goroutine_def s1_def)
    ultimately show ?thesis using None by simp
  qed
  then show "life_run net redial ([CloseBegins, CloseEnds] @ (if inflight (cl s) = None then [Goroutine Write] else []) @
      [Goroutine PassOn]) s = Some (Inl ClosedChannel)"
    unfolding life_run_append [OF close] .
qed

theorem close_can_crash_witness:
  "\<exists>s t. life_run (\<lambda>n. None) (\<lambda>n. None) [CallSend [''GET'', ''k''], Push 0, TimedOut 0] Start = Some (Inr s) \<and>
    life_run (\<lambda>n. None) (\<lambda>n. None) [CloseBegins, CloseEnds, Goroutine Write, Goroutine PassOn] s = Some (Inl ClosedChannel) \<and>
    life_run (\<lambda>n. None) (\<lambda>n. None) [Tick] Start = Some (Inr t) \<and>
    life_run (\<lambda>n. None) (\<lambda>n. None) [CloseBegins, Beat, Push 0] t = Some (Inl ClosedChannel)"
proof -
  obtain s where s: "life_run (\<lambda>n. None) (\<lambda>n. None) [CallSend [''GET'', ''k''], Push 0, TimedOut 0] Start = Some (Inr s)"
    and i: "\<not> client_closed (cl s)" "entering s = []" "callers s = {}" "inflight (cl s) = None" "pendingReqs (cl s) = [0]"
      "req_args (reqs (cl s) ! 0) \<noteq> []"
    by (simp add: Start_def MakeClient_def push_def enqueue_def chanSize_def leave_def)
  obtain t where t: "life_run (\<lambda>n. None) (\<lambda>n. None) [Tick] Start = Some (Inr t)"
    and j: "\<not> client_closed (cl t)" "entering t = []" "ticked t" by (simp add: Start_def MakeClient_def)
  from close_can_crash [OF s i(1), of "\<lambda>n. None" "\<lambda>n. None"] i
  have 1: "life_run (\<lambda>n. None) (\<lambda>n. None) [CloseBegins, CloseEnds, Goroutine Write, Goroutine PassOn] s = Some (Inl ClosedChannel)"
    by simp
  from close_can_crash [OF t j(1), of "\<lambda>n. None" "\<lambda>n. None"] j
  have "life_run (\<lambda>n. None) (\<lambda>n. None) [CloseBegins, Beat, Push 0] t = Some (Inl ClosedChannel)" by simp
  with s t 1 show ?thesis by blast
qed

end
