(* ===== verification/EndToEnd.thy ===== *)
theory EndToEnd
  imports Startup
begin

text \<open>
  The program as a whole, without a cluster: from the bytes of a configuration file and of a
  client to the bytes that are sent back, and across a restart from the append-only file.  The
  theorem composes \<^verbatim>\<open>main\<close>, the connection handler with its parser, the standalone database, the
  append-only file and its loader, against the abstract commands of \<open>redis_step\<close>.
\<close>

section \<open>A client on one database\<close>

lemma exec_all_run:
  "sa_inv d \<Longrightarrow> sa_conn_ok d c \<Longrightarrow> \<forall>cmd \<in> set cmds. cmd \<noteq> [] \<and> ToLower u (hd cmd) \<noteq> ''select'' \<Longrightarrow>
   \<exists>d' rs. exec_all (Exec (u, cfg, disk)) cmds d c = (d', c) \<and> replies_of (Exec (u, cfg, disk)) cmds d c = map Some rs \<and>
     sa_inv d' \<and> sa_conn_ok d' c \<and>
     redis_run u (sa_abs d (nat (selectedDB c))) cmds rs (sa_abs d' (nat (selectedDB c)))"
proof (induction cmds arbitrary: d)
  case Nil
  then show ?case by simp
next
  case (Cons cmd cmds)
  then obtain name as where cmd: "cmd = name # as" by (cases cmd) auto
  from Cons.prems have "cmd \<noteq> []" "ToLower u (hd cmd) \<noteq> ''select''" by auto
  then obtain r d1 s where 1: "Exec (u, cfg, disk) d c cmd = (Some r, d1, c)"
      "redis_step (sa_abs d (nat (selectedDB c))) (ToLower u (hd cmd)) (tl cmd) r s"
      "sa_abs d1 = (sa_abs d)(nat (selectedDB c) := s)"
    using Exec_on_store [OF Cons.prems(1,2), of cmd u cfg disk] by metis
  have "sa_inv d1" "sa_conn_ok d1 c" using Exec_keeps [OF Cons.prems(1,2) \<open>cmd \<noteq> []\<close> 1(1)] by simp_all
  from Cons.IH [OF this] Cons.prems(3) obtain d' rs where
    "exec_all (Exec (u, cfg, disk)) cmds d1 c = (d', c)" "replies_of (Exec (u, cfg, disk)) cmds d1 c = map Some rs"
    "sa_inv d'" "sa_conn_ok d' c" "redis_run u s cmds rs (sa_abs d' (nat (selectedDB c)))"
    using 1(3) by auto
  with 1(1,2) cmd show ?case
    by (intro exI [of _ d'] exI [of _ "r # rs"]) (auto intro: redis_run.run_cons)
qed

lemma serve_one:
  "serve env d conns (map (Pair i) cmds) =
     (case exec_all (Exec env) cmds d (conns i) of (d', c) \<Rightarrow> (d', conns(i := c)))"
  by (induction cmds arbitrary: d conns) (auto split: prod.splits)

section \<open>Starting\<close>

lemma main_starts:
  assumes "fs_works fs" and "writable p" and "\<not> uses_cluster p"
    and "NewStandaloneDatabase (u, p, disk) aof True = Started d"
  shows "\<exists>lg. main u fs ck now logs (Some False) (Some (join_lines (config_lines p))) disk aof True None =
    Serving (main_Address p) lg \<lparr>activeConn = {}, handler_db = Alone (Some d), closing = False\<rparr> new_server"
proof -
  have p: "main_properties u (Some False) (Some (join_lines (config_lines p))) = Some p"
    using parse_config_lines [OF assms(2)] by (simp add: main_properties_def fileExists_def SetupConfig_def)
  have "Setup fs main_logSettings ck now logs =
      Inr \<lparr>logName = ''logs/godis-'' @ day ck now @ ''.log'', opened = 1, stdout = [], log_files = logs\<rparr>"
    by (simp add: Setup_def NewFileLogger_def mustOpen_ok [OF assms(1)] main_logSettings_def log_fileName_def)
  with p assms(3,4) show ?thesis by (simp add: main_def MakeRespHandler_def ListenAndServeWithSignal_def Let_def)
qed

text \<open>The bytes a client is sent, and the database afterwards.\<close>

lemma served_bytes:
  assumes "sa_inv d" and "0 < length (dbSet d)" and "\<forall>n. net n = None"
    and "\<forall>cmd \<in> set cmds. clean_cmd cmd \<and> ToLower u (hd cmd) \<noteq> ''select''"
  shows "\<exists>d' c rs. Handler_Handler (Exec (u, cfg, disk)) net client \<lparr>unread = log_bytes cmds, read_err = EOF\<rparr>
      \<lparr>activeConn = {}, handler_db = d, closing = False\<rparr> = (ClientClosed, c, \<lparr>activeConn = {}, handler_db = d', closing = False\<rparr>) \<and>
    exec_all (Exec (u, cfg, disk)) cmds d new_client = (d', new_client) \<and> sa_inv d' \<and>
    redis_run u (sa_abs d 0) cmds rs (sa_abs d' 0) \<and> sent_bytes c = concat (map ToBytes rs)"
proof -
  have ok: "sa_conn_ok d new_client" using assms(2) by (simp add: sa_conn_ok_def)
  have "\<forall>cmd \<in> set cmds. cmd \<noteq> [] \<and> ToLower u (hd cmd) \<noteq> ''select''" using assms(4) by (auto simp: clean_cmd_def)
  from exec_all_run [OF assms(1) ok this, of cfg disk] obtain d' rs where 1:
    "exec_all (Exec (u, cfg, disk)) cmds d new_client = (d', new_client)"
    "replies_of (Exec (u, cfg, disk)) cmds d new_client = map Some rs" "sa_inv d'"
    "redis_run u (sa_abs d 0) cmds rs (sa_abs d' 0)" by auto
  have clean: "\<forall>cmd \<in> set cmds. clean_cmd cmd" using assms(4) by blast
  from standalone_client.serve_commands [OF assms(1) ok clean _ assms(3), of _ "(u, cfg, disk)"] obtain c where
    "serve_stream (Exec (u, cfg, disk)) net \<lparr>unread = log_bytes cmds, read_err = EOF\<rparr> d new_client =
      (ClientClosed, fst (exec_all (Exec (u, cfg, disk)) cmds d new_client), c)"
    "sent_bytes c = concat (map reply_bytes (replies_of (Exec (u, cfg, disk)) cmds d new_client))" by auto
  moreover have "concat (map reply_bytes (map Some rs)) = concat (map ToBytes rs)"
    by (simp add: comp_def reply_bytes_def)
  ultimately show ?thesis
    using 1 Handler_Handler_stream [of "\<lparr>activeConn = {}, handler_db = d, closing = False\<rparr>" "Exec (u, cfg, disk)" net
        "\<lparr>unread = log_bytes cmds, read_err = EOF\<rparr>" ClientClosed d' c client] by auto
qed

section \<open>Properties\<close>

text \<open>
  C2 (served_then_recovered). The program is started on a configuration file with the append-only file on, no cluster and
  at most \<open>2 ^ 45\<close> databases, with no append-only file yet, on a disk and a network that do not fail.  A client
  sends commands other than SELECT, each with at least one argument and all arguments non-empty and not beginning
  with a dollar sign, in one stream of bytes and closes.  The bytes it is sent are those of the replies of a
  run of the abstract commands on an empty store.  After a restart on the file that was left
  behind, another client that asks for any such key by the bytes of a GET is sent the value the abstract
  store holds, or the null bulk.
\<close>

theorem served_then_recovered:
  assumes "fs_works fs" and "writable p" and "\<not> uses_cluster p" and "AppendOnly p" and "0 \<le> Databases p"
    and "Databases p \<le> 2 ^ 45" and "\<And>n. disk n = None" and "\<forall>n. net n = None"
    and "\<forall>cmd \<in> set cmds. clean_cmd cmd \<and> ToLower u (hd cmd) \<noteq> ''select''" and "clean_arg k"
  shows "\<exists>lg d r1 c1 d1 rs s h lg' d2 c2 r2.
    main u fs ck now logs (Some False) (Some (join_lines (config_lines p))) disk None True None =
      Serving (main_Address p) lg \<lparr>activeConn = {}, handler_db = Alone (Some d), closing = False\<rparr> new_server \<and>
    Handler_Handler (Exec (u, p, disk)) net 0 \<lparr>unread = log_bytes cmds, read_err = EOF\<rparr>
      \<lparr>activeConn = {}, handler_db = d, closing = False\<rparr> = (ClientClosed, c1, r1) \<and>
    redis_run u Map.empty cmds rs s \<and> sent_bytes c1 = concat (map ToBytes rs) \<and>
    handler_db r1 = d1 \<and> aofHandler d1 = Some h \<and>
    main u fs ck now logs (Some False) (Some (join_lines (config_lines p))) disk (Some (written (aofFile h))) True None =
      Serving (main_Address p) lg' \<lparr>activeConn = {}, handler_db = Alone (Some d2), closing = False\<rparr> new_server \<and>
    Handler_Handler (Exec (u, p, disk)) net 0 \<lparr>unread = ToBytes (MultiBulkReply [''get'', k]), read_err = EOF\<rparr>
      \<lparr>activeConn = {}, handler_db = d2, closing = False\<rparr> = (ClientClosed, c2, r2) \<and>
    sent_bytes c2 = ToBytes (case s k of Some v \<Rightarrow> BulkReply v | None \<Rightarrow> NullBulkReply)"
proof -
  let ?n = "nat (database_count p)" and ?env = "(u, p, disk)"
  have n: "0 < database_count p" "database_count p \<le> 2 ^ 45" using assms(5,6) by (auto simp: database_count_def)
  then have n63: "database_count p < 2 ^ 63" by simp
  define d where "d = started (empty_server ?n) []"
  have start: "NewStandaloneDatabase ?env None True = Started d" unfolding d_def by (rule start_fresh [OF assms(4) n])
  have inv: "sa_inv d" "0 < length (dbSet d)"
    using sa_inv_started [OF sa_inv_empty] n by (simp_all add: d_def empty_server_def)
  have empty: "sa_abs d 0 = Map.empty"
    using first_start [OF n, of u disk] start by auto
  from served_bytes [OF inv assms(8,9), of p disk 0] obtain d1 c1 rs where 1:
    "Handler_Handler (Exec ?env) net 0 \<lparr>unread = log_bytes cmds, read_err = EOF\<rparr>
      \<lparr>activeConn = {}, handler_db = d, closing = False\<rparr> = (ClientClosed, c1, \<lparr>activeConn = {}, handler_db = d1, closing = False\<rparr>)"
    "exec_all (Exec ?env) cmds d new_client = (d1, new_client)" "sa_inv d1"
    "redis_run u Map.empty cmds rs (sa_abs d1 0)" "sent_bytes c1 = concat (map ToBytes rs)"
    unfolding empty by blast
  have serve: "serve ?env (started (empty_server ?n) []) (\<lambda>i. new_client) (map (Pair 0) cmds) =
      (d1, (\<lambda>i. new_client)(0 := new_client))"
    using 1(2) by (simp add: serve_one d_def)
  have reqs: "\<forall>req \<in> set (map (Pair (0 :: nat)) cmds). clean_cmd (snd req)" using assms(9) by auto
  have sel: "\<forall>i :: nat. selectedDB ((\<lambda>i. new_client) i) = 0" by simp
  note log = log_inv_serve_fresh [OF assms(4,7) n(1) n63 sel reqs serve]
  then obtain cs where cs: "log_inv ?env (set (history ?env (started (empty_server ?n) []) (\<lambda>i. new_client)
      (map (Pair 0) cmds))) cs d1" by blast
  then obtain h where h: "aofHandler d1 = Some h" by (auto simp: log_inv_def)
  from recover_from_log_inv(1) [OF assms(4) n cs log(2) h] obtain d2 where d2:
    "NewStandaloneDatabase ?env (Some (written (aofFile h))) True = Started d2" "snapshot d2 = snapshot d1" by blast
  have inv2: "sa_inv d2" "0 < length (dbSet d2)"
    using start_ok [OF assms(5,6), where u = u and disk = disk and contents = "Some (written (aofFile h))" and creatable = True] d2 snapshot_length [OF d2(2)] log(2) n by auto
  have get: "\<forall>cmd \<in> set [[''get'', k]]. clean_cmd cmd \<and> ToLower u (hd cmd) \<noteq> ''select''"
    using assms(10) by (simp add: clean_cmd_def clean_arg_def maxAlloc_def)
  from served_bytes [OF inv2 assms(8) get, of p disk 0] obtain d3 c2 r where 2:
    "Handler_Handler (Exec ?env) net 0 \<lparr>unread = log_bytes [[''get'', k]], read_err = EOF\<rparr>
      \<lparr>activeConn = {}, handler_db = d2, closing = False\<rparr> = (ClientClosed, c2, \<lparr>activeConn = {}, handler_db = d3, closing = False\<rparr>)"
    "redis_run u (sa_abs d2 0) [[''get'', k]] [r] (sa_abs d3 0)" "sent_bytes c2 = ToBytes r"
    by (auto simp: redis_run_Cons)
  have r: "r = (case sa_abs d1 0 k of Some v \<Rightarrow> BulkReply v | None \<Rightarrow> NullBulkReply)"
    using 2(2) snapshot_abs [OF d2(2)] by (auto simp: redis_run_Cons dest: redis_step_get)
  have req: "log_bytes [[''get'', k]] = ToBytes (MultiBulkReply [''get'', k])" by (simp add: log_bytes_def)
  from main_starts [OF assms(1-3) start] obtain lg where 3:
    "main u fs ck now logs (Some False) (Some (join_lines (config_lines p))) disk None True None =
      Serving (main_Address p) lg \<lparr>activeConn = {}, handler_db = Alone (Some d), closing = False\<rparr> new_server" ..
  from main_starts [OF assms(1-3) d2(1)] obtain lg' where 4:
    "main u fs ck now logs (Some False) (Some (join_lines (config_lines p))) disk (Some (written (aofFile h))) True None =
      Serving (main_Address p) lg' \<lparr>activeConn = {}, handler_db = Alone (Some d2), closing = False\<rparr> new_server" ..
  have db: "handler_db \<lparr>activeConn = {}, handler_db = d1, closing = False\<rparr> = d1" by simp
  show ?thesis by (intro exI conjI) (rule 3 1(1) 1(4) 1(5) db h 4 2(1) [unfolded req] 2(3) [unfolded r])+
qed

theorem served_then_recovered_witness:
  "\<exists>contents lg d c r. main id \<lparr>fs_Stat = \<lambda>p. None, fs_MkdirAll = \<lambda>p. None, fs_OpenFile = \<lambda>p. None\<rparr>
      \<lparr>day = \<lambda>t. ''d'', stamp = \<lambda>t. []\<rparr> 0 (\<lambda>p. []) (Some False)
      (Some (join_lines (config_lines (default_properties\<lparr>AppendOnly := True, AppendFilename := ''appendonly.aof''\<rparr>)))) (\<lambda>n. None) (Some contents) True None =
      Serving (main_Address (default_properties\<lparr>AppendOnly := True, AppendFilename := ''appendonly.aof''\<rparr>)) lg \<lparr>activeConn = {}, handler_db = Alone (Some d), closing = False\<rparr> new_server \<and>
    Handler_Handler (Exec (id, default_properties\<lparr>AppendOnly := True, AppendFilename := ''appendonly.aof''\<rparr>, \<lambda>n. None)) (\<lambda>n. None) 0
      \<lparr>unread = ToBytes (MultiBulkReply [''get'', ''k'']), read_err = EOF\<rparr>
      \<lparr>activeConn = {}, handler_db = d, closing = False\<rparr> = (ClientClosed, c, r) \<and>
    sent_bytes c = ToBytes (BulkReply ''v'')"
proof -
  let ?fs = "\<lparr>fs_Stat = \<lambda>p. None, fs_MkdirAll = \<lambda>p. None, fs_OpenFile = \<lambda>p. None\<rparr>" and ?ck = "\<lparr>day = \<lambda>t. ''d'', stamp = \<lambda>t. []\<rparr>"
    and ?p = "default_properties\<lparr>AppendOnly := True, AppendFilename := ''appendonly.aof''\<rparr>"
  have fs: "fs_works ?fs" by (simp add: fs_works_def)
  have p: "writable ?p" "\<not> uses_cluster ?p" "AppendOnly ?p" "0 \<le> Databases ?p" "Databases ?p \<le> 2 ^ 45"
    by (simp_all add: writable_def default_properties_def zero_properties_def config_value_def trimmed_def
      is_space_def MaxScanTokenSize_def is_int64_def uses_cluster_def database_count_def)
  have cmds: "\<forall>cmd \<in> set [[''SET'', ''k'', ''v'']]. clean_cmd cmd \<and> ToLower id (hd cmd) \<noteq> ''select''" "clean_arg ''k''"
    by (simp_all add: clean_cmd_def clean_arg_def maxAlloc_def)
  obtain lg and h :: AofHandler and rs s d2 c2 r2 where run:
    "redis_run id Map.empty [[''SET'', ''k'', ''v'']] rs s"
    "main id ?fs ?ck 0 (\<lambda>p. []) (Some False) (Some (join_lines (config_lines ?p))) (\<lambda>n. None) (Some (written (aofFile h))) True None =
      Serving (main_Address ?p) lg \<lparr>activeConn = {}, handler_db = Alone (Some d2), closing = False\<rparr> new_server"
    "Handler_Handler (Exec (id, ?p, \<lambda>n. None)) (\<lambda>n. None) 0 \<lparr>unread = ToBytes (MultiBulkReply [''get'', ''k'']), read_err = EOF\<rparr>
      \<lparr>activeConn = {}, handler_db = d2, closing = False\<rparr> = (ClientClosed, c2, r2)"
    "sent_bytes c2 = ToBytes (case s ''k'' of Some v \<Rightarrow> BulkReply v | None \<Rightarrow> NullBulkReply)"
    using served_then_recovered [of ?fs ?p "\<lambda>n. None" "\<lambda>n. None" "[[''SET'', ''k'', ''v'']]" id "''k''" ?ck 0 "\<lambda>p. []",
      OF fs p refl allI [OF refl] cmds]
    by blast
  have "s ''k'' = Some ''v''" using run(1) by (auto simp: redis_run_Cons dest: redis_step_set)
  with run(4) have "sent_bytes c2 = ToBytes (BulkReply ''v'')" by simp
  with run(2,3) show ?thesis by blast
qed

text \<open>
  With the append-only file on, a program that cannot open the file for writing does not
  stop: it listens, with a nil pointer in place of the database.  It answers every command other than SELECT, of
  non-empty arguments that do not begin with a dollar sign, by an unknown error; when the first client closes
  its connection the program crashes, and so it does when it is told to shut down.
\<close>

theorem unopenable_log_crashes:
  assumes "fs_works fs" and "writable p" and "\<not> uses_cluster p" and "AppendOnly p" and "0 \<le> Databases p"
    and "Databases p \<le> 2 ^ 45" and "\<forall>n. net n = None"
    and "\<forall>cmd \<in> set cmds. clean_cmd cmd \<and> ToLower u (hd cmd) \<noteq> ''select''"
  shows "\<exists>lg r c. main u fs ck now logs (Some False) (Some (join_lines (config_lines p))) disk None False None =
      Serving (main_Address p) lg r new_server \<and>
    r = \<lparr>activeConn = {}, handler_db = Alone None, closing = False\<rparr> \<and>
    serve_stream (pointer_Exec (u, p, disk)) net \<lparr>unread = log_bytes cmds, read_err = EOF\<rparr> None new_client =
      (ClientClosed, None, c) \<and>
    sent_bytes c = concat (replicate (length cmds) unknownErrReplyBytes) \<and>
    Alone_Handler (u, p, disk) net client \<lparr>unread = log_bytes cmds, read_err = EOF\<rparr>
      \<lparr>activeConn = C, handler_db = None, closing = False\<rparr> = Inl NilDereference \<and>
    Alone_Close \<lparr>activeConn = C, handler_db = None, closing = False\<rparr> = Inl NilDereference"
proof -
  have p: "main_properties u (Some False) (Some (join_lines (config_lines p))) = Some p"
    using parse_config_lines [OF assms(2)] by (simp add: main_properties_def fileExists_def SetupConfig_def)
  have "0 < database_count p" "database_count p \<le> 2 ^ 45" using assms(5,6) by (auto simp: database_count_def)
  then have open_: "NewStandaloneDatabase (u, p, disk) None False = OpenFailed"
    using assms(4) by (simp add: NewStandaloneDatabase_def make_dbSet NewAofHandler_def LoadAof_def Let_def)
  have "Setup fs main_logSettings ck now logs =
      Inr \<lparr>logName = ''logs/godis-'' @ day ck now @ ''.log'', opened = 1, stdout = [], log_files = logs\<rparr>"
    by (simp add: Setup_def NewFileLogger_def mustOpen_ok [OF assms(1)] main_logSettings_def log_fileName_def)
  with p open_ assms(3) have main: "\<exists>lg. main u fs ck now logs (Some False) (Some (join_lines (config_lines p))) disk None False None =
      Serving (main_Address p) lg \<lparr>activeConn = {}, handler_db = Alone None, closing = False\<rparr> new_server"
    by (simp add: main_def MakeRespHandler_def ListenAndServeWithSignal_def Let_def)
  have clean: "\<forall>cmd \<in> set cmds. clean_cmd cmd" using assms(8) by blast
  have "\<forall>cmd \<in> set cmds. cmd \<noteq> [] \<and> ToLower (fst (u, p, disk)) (hd cmd) \<noteq> ''select''"
    using assms(8) by (auto simp: clean_cmd_def)
  from handle_commands_nil [OF assms(7) this, of new_client _ "[\<lparr>Data = None, Err = Some EOF\<rparr>]" Closed] obtain c2 where
    c2: "handle_payloads (pointer_Exec (u, p, disk)) net (map command_payload cmds @ [\<lparr>Data = None, Err = Some EOF\<rparr>]) Closed None
        new_client = (ClientClosed, None, c2)"
      "sent_bytes c2 = concat (replicate (length cmds) unknownErrReplyBytes)"
    by (auto simp: handle_payload_def is_closed_err_def sent_bytes_def)
  have "ParseStream \<lparr>unread = log_bytes cmds, read_err = EOF\<rparr> =
      (map command_payload cmds @ [\<lparr>Data = None, Err = Some EOF\<rparr>], Closed)"
    using parse_commands [OF clean, of "[]" EOF] by (simp add: ParseStream_def parse0_def log_bytes_def)
  with c2(1) have stream: "serve_stream (pointer_Exec (u, p, disk)) net \<lparr>unread = log_bytes cmds, read_err = EOF\<rparr> None new_client =
      (ClientClosed, None, c2)" by (simp add: serve_stream_def)
  have "Alone_Handler (u, p, disk) net client \<lparr>unread = log_bytes cmds, read_err = EOF\<rparr>
      \<lparr>activeConn = C, handler_db = None, closing = False\<rparr> = Inl NilDereference"
    using Handler_Handler_stream [of "\<lparr>activeConn = C, handler_db = None, closing = False\<rparr>", OF _ , of "pointer_Exec (u, p, disk)"
        net "\<lparr>unread = log_bytes cmds, read_err = EOF\<rparr>" ClientClosed None c2 client] stream
    by (simp add: Alone_Handler_def Standalone_AfterClientClose_def)
  moreover have "Alone_Close \<lparr>activeConn = C, handler_db = None, closing = False\<rparr> = Inl NilDereference"
    by (simp add: Alone_Close_def RespHandler_Close_def Standalone_Close_def)
  ultimately show ?thesis using main stream c2(2) by blast
qed

theorem unopenable_log_crashes_witness:
  "Alone_Handler (id, default_properties\<lparr>AppendOnly := True\<rparr>, \<lambda>n. None) (\<lambda>n. None) 0
      \<lparr>unread = log_bytes [[''SET'', ''k'', ''v'']], read_err = EOF\<rparr>
      \<lparr>activeConn = {}, handler_db = None, closing = False\<rparr> = Inl NilDereference"
proof -
  let ?fs = "\<lparr>fs_Stat = \<lambda>p. None, fs_MkdirAll = \<lambda>p. None, fs_OpenFile = \<lambda>p. None\<rparr>" and ?p = "default_properties\<lparr>AppendOnly := True\<rparr>"
  have fs: "fs_works ?fs" by (simp add: fs_works_def)
  have p: "writable ?p" "\<not> uses_cluster ?p" "AppendOnly ?p" "0 \<le> Databases ?p" "Databases ?p \<le> 2 ^ 45"
    by (simp_all add: writable_def default_properties_def zero_properties_def config_value_def trimmed_def
      is_space_def MaxScanTokenSize_def is_int64_def uses_cluster_def)
  have cmds: "\<forall>cmd \<in> set [[''SET'', ''k'', ''v'']]. clean_cmd cmd \<and> ToLower id (hd cmd) \<noteq> ''select''"
    by (simp add: clean_cmd_def clean_arg_def maxAlloc_def)
  show ?thesis
    using unopenable_log_crashes [of ?fs ?p "\<lambda>n. None" "[[''SET'', ''k'', ''v'']]" id, OF fs p allI [OF refl] cmds] by blast
qed

end
