(* ===== verification/Spec2Isabelle.thy ===== *)
theory Spec2Isabelle
  imports Prelude GoLib Reply Parser Wildcard Utils Dict Database Config Connection Aof Standalone
    Handler ConsistentHash Client Cluster Network Server Sync Echo RandStrings Logger Startup
    Concurrency ConcurrentAof ConcurrentKeys Linearizability Races Pipeline Shutdown ClientLife EndToEnd
begin

text \<open>
  Verification of go_redis, a Redis-like server in Go.

  \<^bold>\<open>The program.\<close>  \<^verbatim>\<open>main.go\<close> reads \<^verbatim>\<open>redis.conf\<close> (\<^verbatim>\<open>config\<close>) and starts a TCP server
  (\<^verbatim>\<open>tcp\<close>), which gives every connection to a handler (\<^verbatim>\<open>resp/handler\<close>).  The handler's parser
  (\<^verbatim>\<open>resp/parser\<close>) turns bytes into commands; the handler executes them on a database and writes
  the replies (\<^verbatim>\<open>resp/reply\<close>) to the connection (\<^verbatim>\<open>resp/connection\<close>).  The database is a
  standalone server: numbered dictionaries (\<^verbatim>\<open>datastruct/dict\<close>), the commands on them
  (\<^verbatim>\<open>database\<close>) with glob patterns for KEYS (\<^verbatim>\<open>lib/wildcard\<close>), and an append-only file
  (\<^verbatim>\<open>aof\<close>), which is parsed and executed again at the next start.  With peers configured the
  database is a cluster node instead (\<^verbatim>\<open>cluster\<close>): it picks the owner of a key on a hash ring
  (\<^verbatim>\<open>lib/consistenthash\<close>) and sends the command there over a pipelining client
  (\<^verbatim>\<open>resp/client\<close>).

  \<^bold>\<open>Theories\<close>, each opening with the correspondence of its state and operations to the code:

  \<^item> \<open>Prelude\<close>, \<open>GoLib\<close>: panics as values (\<open>'a go\<close>), checked indexing and slicing, and what the
    program uses of Go's standard library.
  \<^item> \<open>Reply\<close> (\<^verbatim>\<open>resp/reply\<close>), \<open>Parser\<close> (\<^verbatim>\<open>resp/parser/parser.go\<close>): the wire format.  The parser is a
    step function on \<open>readState\<close>; lemmas give when it panics, what it can send, and that
    commands and replies survive printing and parsing.
  \<^item> \<open>Wildcard\<close> (\<^verbatim>\<open>lib/wildcard\<close>): compilation and the dynamic-programming matcher, against the
    declarative meaning \<open>matches\<close>.
  \<^item> \<open>Utils\<close>, \<open>RandStrings\<close> (\<^verbatim>\<open>lib/utils\<close>), \<open>Sync\<close> (\<^verbatim>\<open>lib/sync\<close>): helpers.
  \<^item> \<open>Dict\<close> (\<^verbatim>\<open>datastruct/dict\<close>): the locale \<open>dict_interface\<close>, interpreted on \<open>SyncDict\<close>.
  \<^item> \<open>Database\<close> (\<^verbatim>\<open>database/db.go\<close>, \<^verbatim>\<open>commend.go\<close>, \<^verbatim>\<open>string.go\<close>, \<^verbatim>\<open>keys.go\<close>, \<^verbatim>\<open>ping.go\<close>): the command
    table and every command.  The abstract specification is \<open>redis_step\<close> on a map from keys to
    byte strings; \<open>db_inv\<close> is the invariant and \<open>DB_Exec_refines\<close> the refinement.
  \<^item> \<open>Concurrency\<close>: the same commands as sequences of atomic operations, interleaved.
    \<open>Linearizability\<close>: which of them look atomic to clients, by a forward simulation to a server
    that executes each command in one step of \<open>redis_step\<close>; \<open>Races\<close>: a schedule for every other command
    on keys that no order of the commands explains.  \<open>ConcurrentAof\<close>: clients of all
    databases with the bytes of the append-only file, and what a restart makes of them.  \<open>ConcurrentKeys\<close>:
    \<^verbatim>\<open>sync.Map.Range\<close> while the commands of other clients change the map, and what KEYS then lists.
  \<^item> \<open>Config\<close> (\<^verbatim>\<open>config\<close>), \<open>Startup\<close> (\<^verbatim>\<open>main.go\<close>, \<^verbatim>\<open>MakeRespHandler\<close>): the settings and what is built
    from them, with a nil pointer for the database when the append-only file cannot be opened.
  \<^item> \<open>Connection\<close> (\<^verbatim>\<open>resp/connection\<close>), \<open>Aof\<close> (\<^verbatim>\<open>aof/aof.go\<close>), \<open>Standalone\<close>
    (\<^verbatim>\<open>database/standalone_database.go\<close>): many databases, SELECT, recovered panics, logging and
    recovery.  The abstract specification is a step relation on an array of stores with the
    client's index; the file is related to it by what a restart makes of it.
  \<^item> \<open>Handler\<close> (\<^verbatim>\<open>resp/handler\<close>): serving one connection.  \<open>Pipeline\<close>: the goroutines of the parser and of
    the handler with the channel between them; every interleaving has the outcome of \<open>Handler\<close>,
    and the parser's goroutine ends only if the handler takes every payload.
  \<^item> \<open>ConsistentHash\<close>, \<open>Client\<close>, \<open>Cluster\<close>, \<open>Network\<close>: a cluster node alone, over a record of the
    services it uses, and a cluster of nodes whose services are the program's own components.
    The client's reader takes what a peer sends; \<open>ClientLife\<close> adds the callers that give up, the heartbeat's ticker and \<^verbatim>\<open>Close\<close> to the client.
  \<^item> \<open>Server\<close>, \<open>Echo\<close> (\<^verbatim>\<open>tcp\<close>), \<open>Logger\<close> (\<^verbatim>\<open>lib/logger\<close>): accept loop and shutdown, the test
    handler, the log files.
  \<^item> \<open>Shutdown\<close> (\<^verbatim>\<open>tcp/server.go\<close> with \<^verbatim>\<open>RespHandler.Close\<close>): the accept loop, the goroutine of every
    connection and the loop that closes the sockets, step by step; it refines \<open>Server\<close>, and the
    server can return exactly when no connection holds it.
  \<^item> \<open>EndToEnd\<close>: \<^verbatim>\<open>main\<close>, the handler with its parser, the database, the file and its loader composed:
    from the bytes a client sends, over a restart, to the bytes another client is sent.

  \<^bold>\<open>Interfaces.\<close>  \<open>dict_interface\<close> is what the database relies on.  \<open>stable_database\<close> (an invariant
  the database keeps) and \<open>database_interface\<close> (and a reply with bytes always comes) are what the
  file loader and the handler rely on; \<open>stable_client\<close> and \<open>client_database\<close> extend them by the
  handler's connection.  \<open>Standalone\<close> and \<open>Handler\<close> interpret them on \<open>Exec\<close>, \<open>Network\<close> interprets
  \<open>stable_client\<close> on \<open>node_Exec\<close>.  \<open>kept_by_services\<close> says that a cluster's services keep a
  predicate of the world, and \<open>Network\<close> interprets it on the services of a node.

  \<^bold>\<open>Parameters.\<close>  Write errors of the disk (\<open>disk\<close>) and of a socket (\<open>net\<close>), the outcome of dialling
  again (\<open>redial\<close>), the client a pool lends or that it makes the caller wait (\<open>pool\<close>, a third-party package), the order in which Go
  ranges over a map (\<open>order\<close>), the random generator (\<open>rnd\<close>), the clock and the answers of the file
  system of the logger, and lower-casing beyond ASCII (\<open>u\<close>) are arguments of the definitions that
  use them.  Theorems hold for all of them unless they say otherwise.

  \<^bold>\<open>Bounds and fuel.\<close>  Integers of the program are 64-bit words where the code computes with them;
  hashes are 32-bit words.  \<^verbatim>\<open>make\<close> panics above \<open>2 ^ 48\<close> bytes, so there are at most \<open>2 ^ 45\<close>
  databases, the scanner of the configuration
  stops at a line of 64 KB, the client's channels hold 256 requests and the logger's 100000
  messages.  An argument is clean when it is not empty, does not begin with a dollar sign and, with its line end, has at
  most \<open>2 ^ 48\<close> bytes; a clean command has at least one argument and fewer than \<open>2 ^ 32\<close>.  Loops of the code are total functions.  The one use of fuel is in \<open>Network\<close>: it
  bounds how deep a relayed request relays again.  Keyed commands are relayed once, and their theorems
  hold from fuel one on; for DEL and FLUSHDB \<open>cluster_delete_never_completes\<close> shows that no depth
  is enough.  Goroutines are step relations or step functions with explicit schedules (\<open>Client\<close>,
  \<open>ClientLife\<close>, \<open>Pipeline\<close>, \<open>Server\<close>, \<open>Shutdown\<close>, \<open>Concurrency\<close>), and what must finish is proved to finish.  Closing a
  connection takes ten seconds at most (\<open>Connection\<close>).

  \<^bold>\<open>Not modelled.\<close>  Interface declarations, which have no behaviour; the addresses of
  sockets, signals and dialling, which are calls into the operating system (a closed socket or
  file is one whose writes fail, \<open>closed_fault\<close>); the pool of connections, a third-party package;
  the timers of heartbeats and time-outs, whose effect is an event that may come at any time; the format verbs
  of \<^verbatim>\<open>fmt.Sprintf\<close>.  Running out of memory below the limits of
  \<^verbatim>\<open>make\<close>.  Concurrent FLUSHDB, which replaces a \<^verbatim>\<open>sync.Map\<close> that is in use: Go leaves
  its effect undefined.
\<close>

end
